(* ===== verification/Prelude.thy ===== *)
theory Prelude
  imports Main "HOL-Library.Word"
begin

text \<open>
  Shared vocabulary of the development: the ways an operation of the C++ program can fail,
  the result type that carries them, the sequencing operator every handler is written with,
  the two termination macros of include/macros.h, and the collections of simplification
  rules the component theories extend.

  A fault is the end of the modelled execution:
  \<^item> \<open>Fatal msg\<close>: the process left through \<open>exit(EXIT_FAILURE)\<close> after printing \<open>msg\<close>;
  \<^item> \<open>Out_of_range\<close>: a \<open>std::out_of_range\<close> exception of \<open>at()\<close> left the operation;
  \<^item> \<open>Length_error\<close>: so did a \<open>std::length_error\<close> exception of a string constructor;
  \<^item> \<open>Terminate\<close>: such an exception reached the border of a \<open>noexcept\<close> function;
  \<^item> \<open>Null_deref\<close>, \<open>Out_of_bounds\<close>: undefined behaviour, by a dereferenced null pointer
    or an access outside an array;
  \<^item> \<open>Diverges\<close>: a loop that is never left.
\<close>

datatype fault =
    Fatal string
  | Out_of_range
  | Length_error
  | Terminate
  | Null_deref
  | Out_of_bounds
  | Diverges

type_synonym 'a res = "fault + 'a"

named_theorems res_simps \<open>evaluation of results\<close>
named_theorems ring_simps \<open>circular doubly linked lists\<close>

subsection \<open>Sequencing\<close>

definition bnd :: "'a res \<Rightarrow> ('a \<Rightarrow> 'b res) \<Rightarrow> 'b res" where
  "bnd m f = (case m of Inl e \<Rightarrow> Inl e | Inr x \<Rightarrow> f x)"

lemma bnd_Inl [simp]: "bnd (Inl e) f = Inl e"
  by (simp add: bnd_def)

lemma bnd_Inr [simp]: "bnd (Inr x) f = f x"
  by (simp add: bnd_def)

lemma bnd_assoc: "bnd (bnd m f) g = bnd m (\<lambda>x. bnd (f x) g)"
  by (cases m) simp_all

lemma bnd_eq_Inr_iff [res_simps]: "bnd m f = Inr y \<longleftrightarrow> (\<exists>x. m = Inr x \<and> f x = Inr y)"
  by (cases m) simp_all

lemma bnd_eq_Inl_iff: "bnd m f = Inl e \<longleftrightarrow> m = Inl e \<or> (\<exists>x. m = Inr x \<and> f x = Inl e)"
  by (cases m) simp_all

lemma bnd_cong [fundef_cong]:
  "m = m' \<Longrightarrow> (\<And>x. m' = Inr x \<Longrightarrow> f x = g x) \<Longrightarrow> bnd m f = bnd m' g"
  by (cases m') simp_all

text \<open>\<open>noexcept\<close>: an exception at the border of the function calls \<open>std::terminate\<close>.\<close>

definition noexcept :: "'a res \<Rightarrow> 'a res" where
  "noexcept m = (case m of Inl Out_of_range \<Rightarrow> Inl Terminate | Inl Length_error \<Rightarrow> Inl Terminate | _ \<Rightarrow> m)"

lemma noexcept_Inr [simp]: "noexcept (Inr x) = Inr x"
  by (simp add: noexcept_def)

lemma noexcept_eq_Inr_iff [res_simps]: "noexcept m = Inr x \<longleftrightarrow> m = Inr x"
  by (auto simp: noexcept_def split: sum.splits fault.splits)

subsection \<open>Machine words\<close>

lemma unat_eq_iff [simp]: "unat a = unat b \<longleftrightarrow> a = b"
  by (simp add: word_unat_eq_iff)

lemma sint_eq_iff [simp]: "sint a = sint b \<longleftrightarrow> a = b"
  by (metis signed_word_eqI)

subsection \<open>The macros of include/macros.h\<close>

definition ASSERT :: "bool \<Rightarrow> string \<Rightarrow> unit res" where
  "ASSERT c msg = (if \<not> c then Inl (Fatal msg) else Inr ())"

definition FATAL :: "string \<Rightarrow> 'a res" where
  "FATAL msg = Inl (Fatal msg)"

lemma ASSERT_True [simp]: "ASSERT True msg = Inr ()"
  by (simp add: ASSERT_def)

lemma ASSERT_False [simp]: "ASSERT False msg = Inl (Fatal msg)"
  by (simp add: ASSERT_def)

lemma ASSERT_eq_Inr_iff [res_simps]: "ASSERT c msg = Inr u \<longleftrightarrow> c"
  by (auto simp: ASSERT_def)

lemma FATAL_not_Inr [simp]: "FATAL msg \<noteq> Inr x"
  by (simp add: FATAL_def)

end
