(* ===== verification/Systems.thy ===== *)
theory Systems
  imports Prelude
begin

text \<open>
  Transition systems. The queue between two threads, the start of a thread and the server
  under a series of calls are each an initial state and a step relation; what they share is
  here: the reachable states, the rule that an inductive invariant holds in all of them, and
  what a measure that every step lowers says about the length of runs. The locales are the
  contracts, each is interpreted where its system is defined.
\<close>

inductive reachable :: "'s \<Rightarrow> ('s \<Rightarrow> 's \<Rightarrow> bool) \<Rightarrow> 's \<Rightarrow> bool" for init step where
  start: "reachable init step init"
| step: "reachable init step s \<Longrightarrow> step s t \<Longrightarrow> reachable init step t"

lemma reachable_run: "reachable init step s \<Longrightarrow> (step ^^ n) s t \<Longrightarrow> reachable init step t"
proof (induction n arbitrary: t)
  case (Suc n)
  then obtain u where "(step ^^ n) s u" "step u t" by auto
  with Suc show ?case by (blast intro: reachable.step)
qed simp

lemma reachable_mono: "reachable init step s \<Longrightarrow> (\<And>s t. step s t \<Longrightarrow> step' s t) \<Longrightarrow> reachable init step' s"
  by (induction rule: reachable.induct) (blast intro: reachable.intros)+

locale invariant_system =
  fixes init :: 's
    and step :: "'s \<Rightarrow> 's \<Rightarrow> bool"
    and inv :: "'s \<Rightarrow> bool"
  assumes init_inv: "inv init"
    and step_inv: "step s t \<Longrightarrow> inv s \<Longrightarrow> inv t"
begin

lemma reachable_inv: "reachable init step s \<Longrightarrow> inv s"
  by (induction rule: reachable.induct) (blast intro: init_inv step_inv)+

lemma run_inv: "(step ^^ n) s t \<Longrightarrow> inv s \<Longrightarrow> inv t"
proof (induction n arbitrary: t)
  case (Suc n)
  then show ?case by (auto intro: step_inv)
qed simp

end

text \<open>
  Where the work is not finished some step lowers \<open>left\<close>: from every state the work can still
  be finished, though other steps may put it off.
\<close>

locale finishing_system = invariant_system +
  fixes left :: "'s \<Rightarrow> nat"
    and finished :: "'s \<Rightarrow> bool"
  assumes helpful: "inv s \<Longrightarrow> \<not> finished s \<Longrightarrow> \<exists>t. step s t \<and> left t < left s"
begin

lemma finishes: "inv s \<Longrightarrow> \<exists>n t. (step ^^ n) s t \<and> finished t"
proof (induction "left s" arbitrary: s rule: less_induct)
  case less
  show ?case
  proof (cases "finished s")
    case True
    then show ?thesis by (intro exI [of _ 0] exI [of _ s]) simp
  next
    case False
    then obtain u where u: "step s u" "left u < left s" using helpful less.prems by blast
    with less obtain n t where "(step ^^ n) u t" "finished t" using step_inv by blast
    with u show ?thesis by (intro exI [of _ "Suc n"] exI [of _ t]) (auto intro: relpowp_Suc_I2 simp del: relpowp.simps)
  qed
qed

end

text \<open>
  Every step lowers \<open>left\<close>, and where the work is not finished there is a step: no run is
  longer than \<open>left\<close> says, and each ends, however it was scheduled, where the work is done.
\<close>

locale terminating_system = invariant_system +
  fixes left :: "'s \<Rightarrow> nat"
    and finished :: "'s \<Rightarrow> bool"
  assumes step_left: "inv s \<Longrightarrow> step s t \<Longrightarrow> left t < left s"
    and progress: "inv s \<Longrightarrow> \<not> finished s \<Longrightarrow> \<exists>t. step s t"
begin

lemma run_bounded: "(step ^^ n) s t \<Longrightarrow> inv s \<Longrightarrow> n + left t \<le> left s"
proof (induction n arbitrary: t)
  case (Suc n)
  then obtain u where u: "(step ^^ n) s u" "step u t" by auto
  with Suc have "n + left u \<le> left s" by blast
  moreover have "left t < left u" using step_left [OF run_inv [OF u(1) Suc.prems(2)] u(2)] .
  ultimately show ?case by simp
qed simp

lemma stuck_finished: "inv s \<Longrightarrow> \<nexists>t. step s t \<Longrightarrow> finished s"
  using progress by blast

end

sublocale terminating_system \<subseteq> finishing_system
  by unfold_locales (use progress step_left in blast)

subsection \<open>Simulation\<close>

text \<open>
  A machine that handles requests one after the other, and the run of a list of them. The
  specification \<open>spec\<close> says what a request puts out, the implementation \<open>impl\<close> leaves its output
  in its state; a fault ends the run. \<open>ok\<close> is what a request may ask of the state it meets.
\<close>

fun spec_run :: "('r \<Rightarrow> 'a \<Rightarrow> ('a \<times> 'o) res) \<Rightarrow> 'o \<Rightarrow> ('o \<Rightarrow> 'o \<Rightarrow> 'o) \<Rightarrow> 'r list \<Rightarrow> 'a \<Rightarrow> ('a \<times> 'o) res" where
  "spec_run spec nil cat [] a = Inr (a, nil)"
| "spec_run spec nil cat (r # rs) a = bnd (spec r a) (\<lambda>(a, x). bnd (spec_run spec nil cat rs a) (\<lambda>(a, y). Inr (a, cat x y)))"

fun impl_run :: "('r \<Rightarrow> 'c \<Rightarrow> 'c res) \<Rightarrow> 'r list \<Rightarrow> 'c \<Rightarrow> 'c res" where
  "impl_run impl [] c = Inr c"
| "impl_run impl (r # rs) c = bnd (impl r c) (impl_run impl rs)"

fun ok_run :: "('r \<Rightarrow> 'a \<Rightarrow> ('a \<times> 'o) res) \<Rightarrow> ('r \<Rightarrow> 'a \<Rightarrow> bool) \<Rightarrow> 'r list \<Rightarrow> 'a \<Rightarrow> bool" where
  "ok_run spec ok [] a \<longleftrightarrow> True"
| "ok_run spec ok (r # rs) a \<longleftrightarrow> ok r a \<and> (case spec r a of Inl f \<Rightarrow> True | Inr (a, x) \<Rightarrow> ok_run spec ok rs a)"

locale simulation =
  fixes spec :: "'r \<Rightarrow> 'a \<Rightarrow> ('a \<times> 'o) res"
    and impl :: "'r \<Rightarrow> 'c \<Rightarrow> 'c res"
    and rel :: "'a \<Rightarrow> 'c \<Rightarrow> bool"
    and ok :: "'r \<Rightarrow> 'a \<Rightarrow> bool"
    and out :: "'o \<Rightarrow> 'c \<Rightarrow> 'c \<Rightarrow> bool"
    and nil :: 'o
    and cat :: "'o \<Rightarrow> 'o \<Rightarrow> 'o"
  assumes step_fault: "rel a c \<Longrightarrow> ok r a \<Longrightarrow> spec r a = Inl f \<Longrightarrow> impl r c = Inl f"
    and step_result: "rel a c \<Longrightarrow> ok r a \<Longrightarrow> spec r a = Inr (a', x) \<Longrightarrow> \<exists>c'. impl r c = Inr c' \<and> rel a' c' \<and> out x c c'"
    and out_nil: "out nil c c"
    and out_cat: "out x c c' \<Longrightarrow> out y c' c'' \<Longrightarrow> out (cat x y) c c''"
begin

lemma run_fault: "rel a c \<Longrightarrow> ok_run spec ok rs a \<Longrightarrow> spec_run spec nil cat rs a = Inl f \<Longrightarrow> impl_run impl rs c = Inl f"
proof (induction rs arbitrary: a c)
  case (Cons r rs)
  show ?case
  proof (cases "spec r a")
    case (Inl g)
    with Cons.prems step_fault show ?thesis by auto
  next
    case (Inr ax)
    then obtain a1 x where 1: "spec r a = Inr (a1, x)" by (cases ax) auto
    obtain c1 where "impl r c = Inr c1" "rel a1 c1" using step_result [OF Cons.prems(1) _ 1] Cons.prems(2) by auto
    moreover have "spec_run spec nil cat rs a1 = Inl f" using Cons.prems(3) 1 by (cases "spec_run spec nil cat rs a1") auto
    ultimately show ?thesis using Cons.IH Cons.prems(2) 1 by auto
  qed
qed simp

lemma run_result: "rel a c \<Longrightarrow> ok_run spec ok rs a \<Longrightarrow> spec_run spec nil cat rs a = Inr (a', x) \<Longrightarrow>
    \<exists>c'. impl_run impl rs c = Inr c' \<and> rel a' c' \<and> out x c c'"
proof (induction rs arbitrary: a c x)
  case Nil
  then show ?case using out_nil by auto
next
  case (Cons r rs)
  obtain a1 y z where 1: "spec r a = Inr (a1, y)" "spec_run spec nil cat rs a1 = Inr (a', z)" "x = cat y z"
    using Cons.prems(3) by (auto simp: res_simps)
  obtain c1 where 2: "impl r c = Inr c1" "rel a1 c1" "out y c c1"
    using step_result [OF Cons.prems(1) _ 1(1)] Cons.prems(2) by auto
  obtain c' where "impl_run impl rs c1 = Inr c'" "rel a' c'" "out z c1 c'"
    using Cons.IH [OF 2(2) _ 1(2)] Cons.prems(2) 1(1) by auto
  with 1(3) 2 out_cat show ?case by auto
qed

end

end
