(* ===== verification/Base_Types.thy ===== *)
theory Base_Types
  imports Prelude "HOL-Library.Char_ord"
begin

text \<open>
  include/types.h: the scalar types of the exchange at their machine width, the reserved
  \<open>INVALID\<close> values, the conversions to text, \<open>Side\<close>, and the capacities.
  \<open>OrderId\<close> and \<open>Priority\<close> are \<open>uint64_t\<close>, \<open>TickerId\<close>, \<open>ClientId\<close> and \<open>Quantity\<close> are
  \<open>uint32_t\<close>; \<open>Price\<close> is \<open>int64_t\<close>: a 64-bit word whose value and order are read with
  \<open>sint\<close>. \<open>std::to_string\<close> is the decimal printer below.
\<close>

type_synonym OrderId = "64 word"
type_synonym TickerId = "32 word"
type_synonym ClientId = "32 word"
type_synonym Price = "64 word"
type_synonym Quantity = "32 word"
type_synonym Priority = "64 word"

definition OrderId_INVALID :: OrderId where "OrderId_INVALID = 18446744073709551615"
definition TickerId_INVALID :: TickerId where "TickerId_INVALID = 4294967295"
definition ClientId_INVALID :: ClientId where "ClientId_INVALID = 4294967295"
definition Price_INVALID :: Price where "Price_INVALID = 9223372036854775807"
definition Quantity_INVALID :: Quantity where "Quantity_INVALID = 4294967295"
definition Priority_INVALID :: Priority where "Priority_INVALID = 18446744073709551615"

text \<open>
  An \<open>enum class\<close> with a fixed underlying type can hold every value of that type, also one no
  enumerator names: the bytes of a request come from outside. \<open>Side_UNLISTED\<close> stands for these
  values, with the byte as its argument; the enums of the messages are modelled in the same way.
\<close>

datatype Side = Side_INVALID | Side_BUY | Side_SELL | Side_UNLISTED "8 word"

definition LOG_QUEUE_SIZE :: nat where "LOG_QUEUE_SIZE = 8 * 1024 * 1024"
definition ME_MAX_TICKERS :: nat where "ME_MAX_TICKERS = 8"
definition ME_MAX_CLIENT_UPDATES :: nat where "ME_MAX_CLIENT_UPDATES = 256 * 1024"
definition ME_MAX_MARKET_UPDATES :: nat where "ME_MAX_MARKET_UPDATES = 256 * 1024"
definition ME_MAX_NUM_CLIENTS :: nat where "ME_MAX_NUM_CLIENTS = 256"
definition ME_MAX_ORDER_IDS :: nat where "ME_MAX_ORDER_IDS = 1024 * 1024"
definition ME_MAX_PRICE_LEVELS :: nat where "ME_MAX_PRICE_LEVELS = 256"

lemmas capacity_defs =
  LOG_QUEUE_SIZE_def ME_MAX_TICKERS_def ME_MAX_CLIENT_UPDATES_def ME_MAX_MARKET_UPDATES_def
  ME_MAX_NUM_CLIENTS_def ME_MAX_ORDER_IDS_def ME_MAX_PRICE_LEVELS_def

lemmas invalid_defs =
  OrderId_INVALID_def TickerId_INVALID_def ClientId_INVALID_def Price_INVALID_def
  Quantity_INVALID_def Priority_INVALID_def

subsection \<open>Decimal text (\<open>std::to_string\<close>, \<open>operator<<\<close> on integers)\<close>

definition digit_char :: "nat \<Rightarrow> char" where
  "digit_char d = char_of (48 + d)"

definition char_digit :: "char \<Rightarrow> nat" where
  "char_digit c = of_char c - 48"

fun to_string_nat :: "nat \<Rightarrow> string" where
  "to_string_nat n =
     (if n < 10 then [digit_char n] else to_string_nat (n div 10) @ [digit_char (n mod 10)])"

declare to_string_nat.simps [simp del]

definition to_string_int :: "int \<Rightarrow> string" where
  "to_string_int i = (if i < 0 then CHR ''-'' # to_string_nat (nat (- i)) else to_string_nat (nat i))"

text \<open>Times and their units (include/time_utils.h).\<close>

type_synonym Nanos = "64 word"

abbreviation NANOS_TO_MICROS :: Nanos where "NANOS_TO_MICROS \<equiv> 1000"
abbreviation MICROS_TO_MILLIS :: Nanos where "MICROS_TO_MILLIS \<equiv> 1000"
abbreviation MILLIS_TO_SECS :: Nanos where "MILLIS_TO_SECS \<equiv> 1000"
abbreviation NANOS_TO_MILLIS :: Nanos where "NANOS_TO_MILLIS \<equiv> NANOS_TO_MICROS * MICROS_TO_MILLIS"
abbreviation NANOS_TO_SECS :: Nanos where "NANOS_TO_SECS \<equiv> NANOS_TO_MILLIS * MILLIS_TO_SECS"

text \<open>Reading the text back: the value of a digit string, and of one with a sign.\<close>

definition nat_of_string :: "string \<Rightarrow> nat" where
  "nat_of_string s = foldl (\<lambda>n c. 10 * n + char_digit c) 0 s"

fun int_of_string :: "string \<Rightarrow> int" where
  "int_of_string [] = 0"
| "int_of_string (c # s) =
     (if c = CHR ''-'' then - int (nat_of_string s) else int (nat_of_string (c # s)))"

lemma char_digit_digit_char [simp]: "d < 10 \<Longrightarrow> char_digit (digit_char d) = d"
  by (simp add: char_digit_def digit_char_def of_char_of)

lemma digit_char_bounds: "d < 10 \<Longrightarrow> of_char (digit_char d) = (48 + d :: nat)"
  by (simp add: digit_char_def of_char_of)

lemma nat_of_string_snoc [simp]:
  "nat_of_string (s @ [c]) = 10 * nat_of_string s + char_digit c"
  by (simp add: nat_of_string_def)

lemma nat_of_string_single [simp]: "nat_of_string [c] = char_digit c"
  by (simp add: nat_of_string_def)

lemma nat_of_to_string [simp]: "nat_of_string (to_string_nat n) = n"
proof (induction n rule: to_string_nat.induct)
  case (1 n)
  show ?case
  proof (cases "n < 10")
    case True
    then show ?thesis by (simp add: to_string_nat.simps [of n])
  next
    case False
    with 1 show ?thesis by (simp add: to_string_nat.simps [of n])
  qed
qed

text \<open>Every character of a printed number is a digit, so none is a sign or a letter.\<close>

definition is_digit :: "char \<Rightarrow> bool" where
  "is_digit c \<longleftrightarrow> 48 \<le> (of_char c :: nat) \<and> (of_char c :: nat) \<le> 57"

lemma is_digit_digit_char [simp]: "d < 10 \<Longrightarrow> is_digit (digit_char d)"
  by (simp add: is_digit_def digit_char_bounds)

lemma to_string_nat_digits: "c \<in> set (to_string_nat n) \<Longrightarrow> is_digit c"
proof (induction n rule: to_string_nat.induct)
  case (1 n)
  then show ?case by (auto simp: to_string_nat.simps [of n] split: if_splits)
qed

lemma to_string_nat_not_Nil [simp]: "to_string_nat n \<noteq> []"
  by (simp add: to_string_nat.simps [of n])

lemma to_string_nat_eq_iff [simp]: "to_string_nat m = to_string_nat n \<longleftrightarrow> m = n"
  by (metis nat_of_to_string)

lemma to_string_nat_hd: "to_string_nat n = c # s \<Longrightarrow> is_digit c"
  by (metis list.set_intros(1) to_string_nat_digits)

lemma not_is_digit [simp]: "\<not> is_digit CHR ''-''" "\<not> is_digit CHR ''I''" "\<not> is_digit (CHR 0x00)"
  by (simp_all add: is_digit_def)

lemma int_of_to_string [simp]: "int_of_string (to_string_int i) = i"
proof (cases "i < 0")
  case True
  then show ?thesis by (simp add: to_string_int_def)
next
  case False
  obtain c s where cs: "to_string_nat (nat i) = c # s"
    by (meson list.exhaust to_string_nat_not_Nil)
  then have "is_digit c" by (rule to_string_nat_hd)
  then have "c \<noteq> CHR ''-''" by auto
  moreover have "nat_of_string (c # s) = nat i"
    by (simp flip: cs)
  ultimately show ?thesis using False cs by (simp add: to_string_int_def)
qed

lemma to_string_int_eq_iff [simp]: "to_string_int i = to_string_int j \<longleftrightarrow> i = j"
  by (metis int_of_to_string)

lemma to_string_nat_not_INVALID [simp]: "to_string_nat n \<noteq> ''INVALID''"
  using to_string_nat_hd by fastforce

lemma to_string_int_not_INVALID [simp]: "to_string_int i \<noteq> ''INVALID''"
  by (simp add: to_string_int_def)

subsection \<open>The \<open>...ToString\<close> functions\<close>

definition orderIdToString :: "OrderId \<Rightarrow> string" where
  "orderIdToString order_id =
     (if order_id = OrderId_INVALID then ''INVALID'' else to_string_nat (unat order_id))"

definition tickerIdToString :: "TickerId \<Rightarrow> string" where
  "tickerIdToString ticker_id =
     (if ticker_id = TickerId_INVALID then ''INVALID'' else to_string_nat (unat ticker_id))"

definition clientIdToString :: "ClientId \<Rightarrow> string" where
  "clientIdToString client_id =
     (if client_id = ClientId_INVALID then ''INVALID'' else to_string_nat (unat client_id))"

definition priceToString :: "Price \<Rightarrow> string" where
  "priceToString price =
     (if price = Price_INVALID then ''INVALID'' else to_string_int (sint price))"

definition qtyToString :: "Quantity \<Rightarrow> string" where
  "qtyToString quantity =
     (if quantity = Quantity_INVALID then ''INVALID'' else to_string_nat (unat quantity))"

definition priorityToString :: "Priority \<Rightarrow> string" where
  "priorityToString priority =
     (if priority = Priority_INVALID then ''INVALID'' else to_string_nat (unat priority))"

fun sideToString :: "Side \<Rightarrow> string" where
  "sideToString Side_BUY = ''BUY''"
| "sideToString Side_SELL = ''SELL''"
| "sideToString Side_INVALID = ''INVALID''"
| "sideToString (Side_UNLISTED _) = ''UNKNOWN''"

text \<open>
  What the text of a side tells: the sides no enumerator names print alike, so of these only
  that it is one of them.
\<close>

fun named_side :: "Side \<Rightarrow> Side" where
  "named_side (Side_UNLISTED _) = Side_UNLISTED 2"
| "named_side s = s"

lemmas id_toString_defs =
  orderIdToString_def tickerIdToString_def clientIdToString_def priceToString_def
  qtyToString_def priorityToString_def

text \<open>
  The texts the log carries are faithful: two ids, prices, quantities or priorities
  print the same only if they are equal, so a log line names exactly one value, and no
  number is ever printed as the text reserved for an unset field; two sides print the same
  only if they are equal or both without a name.
\<close>

lemma id_texts_injective:
  "(orderIdToString a = orderIdToString b \<longleftrightarrow> a = b) \<and>
   (tickerIdToString c = tickerIdToString d \<longleftrightarrow> c = d) \<and>
   (clientIdToString e = clientIdToString f \<longleftrightarrow> e = f) \<and>
   (priceToString g = priceToString h \<longleftrightarrow> g = h) \<and>
   (qtyToString i = qtyToString j \<longleftrightarrow> i = j) \<and>
   (priorityToString k = priorityToString l \<longleftrightarrow> k = l) \<and>
   (sideToString s = sideToString t \<longleftrightarrow> named_side s = named_side t)"
proof -
  have "sideToString s = sideToString t \<longleftrightarrow> named_side s = named_side t"
    by (cases s; cases t) simp_all
  moreover have "(orderIdToString a = orderIdToString b) = (a = b)"
    "(tickerIdToString c = tickerIdToString d) = (c = d)"
    "(clientIdToString e = clientIdToString f) = (e = f)"
    "(qtyToString i = qtyToString j) = (i = j)"
    "(priorityToString k = priorityToString l) = (k = l)"
    by (auto simp: id_toString_defs dest: sym)
  moreover have "(priceToString g = priceToString h) = (g = h)"
    by (auto simp: priceToString_def dest: sym)
  ultimately show ?thesis by blast
qed

end
