(* ===== verification/Mem_Pool.thy ===== *)
theory Mem_Pool
  imports Base_Types
begin

text \<open>
  include/mem_pool.h: the fixed-capacity object pool. A pool is a vector of blocks (an
  object and its \<open>is_free_\<close> flag) and the index of the next block to hand out. A
  \<open>T*\<close> into the pool is the index of its block; the object of a freed block stays
  readable, as it does in the code (no destructor runs). A vector of fixed length is a
  function on indices with its length beside it, so that the pools of the order book keep
  their real capacities.
\<close>

record 'a Object =
  object :: 'a
  is_free :: bool

record 'a MemPool =
  pool_store :: "nat \<Rightarrow> 'a Object"
  pool_size :: nat
  next_free_index :: nat

text \<open>The constructor: \<open>num_elems\<close> default objects, all free.\<close>

definition MemPool :: "nat \<Rightarrow> 'a \<Rightarrow> 'a MemPool" where
  "MemPool num_elems dflt =
     \<lparr>pool_store = (\<lambda>_. \<lparr>object = dflt, is_free = True\<rparr>), pool_size = num_elems, next_free_index = 0\<rparr>"

definition set_block :: "nat \<Rightarrow> 'a Object \<Rightarrow> 'a MemPool \<Rightarrow> 'a MemPool" where
  "set_block i ob p = p\<lparr>pool_store := (pool_store p)(i := ob)\<rparr>"

subsection \<open>Finding the next free block\<close>

text \<open>How many blocks a cyclic scan of \<open>n\<close> blocks that started at \<open>s\<close> has left after \<open>i\<close>.\<close>

definition scan_left :: "nat \<Rightarrow> nat \<Rightarrow> nat \<Rightarrow> nat" where
  "scan_left n s i = (s + n - Suc i) mod n"

lemma scan_left_step:
  "i < n \<Longrightarrow> s < n \<Longrightarrow> Suc i \<noteq> s \<Longrightarrow> Suc i \<noteq> n \<Longrightarrow> scan_left n s (Suc i) < scan_left n s i"
  by (auto simp: scan_left_def mod_if)

lemma scan_left_wrap:
  "Suc i = n \<Longrightarrow> s < n \<Longrightarrow> 0 < s \<Longrightarrow> scan_left n s 0 < scan_left n s i"
  by (auto simp: scan_left_def mod_if)

text \<open>
  The loop of \<open>updateNextFreeIndex\<close> from index \<open>i\<close>; \<open>start\<close> is
  \<open>initial_free_index\<close>. The code enters it with \<open>i = start\<close>, so the test that both
  are inside the vector is the bounds check of the first read; the indices it visits after
  that are inside by construction.
\<close>

function next_free_loop :: "'a MemPool \<Rightarrow> nat \<Rightarrow> nat \<Rightarrow> nat res" where
  "next_free_loop p start i =
     (if \<not> (i < pool_size p \<and> start < pool_size p) then Inl Out_of_bounds
      else if is_free (pool_store p i) then Inr i
      else let j = (if Suc i = pool_size p then 0 else Suc i) in
        if j = start then FATAL ''MemPool out of space'' else next_free_loop p start j)"
  by pat_completeness auto
termination
  by (relation "measure (\<lambda>(p, start, i). scan_left (pool_size p) start i)")
    (auto simp: scan_left_step scan_left_wrap)

declare next_free_loop.simps [simp del]

definition updateNextFreeIndex :: "'a MemPool \<Rightarrow> 'a MemPool res" where
  "updateNextFreeIndex p =
     bnd (next_free_loop p (next_free_index p) (next_free_index p))
       (\<lambda>i. Inr (p\<lparr>next_free_index := i\<rparr>))"

subsection \<open>Allocation and release\<close>

definition allocate :: "'a \<Rightarrow> 'a MemPool \<Rightarrow> (nat \<times> 'a MemPool) res" where
  "allocate v p =
     (let i = next_free_index p in
      if \<not> i < pool_size p then Inl Out_of_bounds
      else bnd (ASSERT (is_free (pool_store p i))
                 (''Expect free Object Block at index: '' @ to_string_nat i)) (\<lambda>_.
           bnd (updateNextFreeIndex (set_block i \<lparr>object = v, is_free = False\<rparr> p)) (\<lambda>p'.
           Inr (i, p'))))"

definition deallocate :: "int \<Rightarrow> 'a MemPool \<Rightarrow> 'a MemPool res" where
  "deallocate obj_index p =
     bnd (ASSERT (0 \<le> obj_index \<and> obj_index < int (pool_size p))
            ''Deallocate element does not belong to the MemPool'') (\<lambda>_.
     bnd (ASSERT (\<not> is_free (pool_store p (nat obj_index)))
            (''Expect in-use Object Block at index '' @ to_string_int obj_index)) (\<lambda>_.
     Inr (set_block (nat obj_index) ((pool_store p (nat obj_index))\<lparr>is_free := True\<rparr>) p)))"

subsection \<open>Abstraction and invariant\<close>

text \<open>The blocks in use, and what the pool keeps true between calls.\<close>

definition live :: "'a MemPool \<Rightarrow> nat set" where
  "live p = {i. i < pool_size p \<and> \<not> is_free (pool_store p i)}"

definition pool_inv :: "'a MemPool \<Rightarrow> bool" where
  "pool_inv p \<longleftrightarrow> next_free_index p < pool_size p \<and> is_free (pool_store p (next_free_index p))"

abbreviation obj :: "'a MemPool \<Rightarrow> nat \<Rightarrow> 'a" where
  "obj p i \<equiv> object (pool_store p i)"

lemma finite_live [simp]: "finite (live p)"
  by (rule finite_subset [of _ "{..<pool_size p}"]) (auto simp: live_def)

lemma live_bound: "i \<in> live p \<Longrightarrow> i < pool_size p"
  by (simp add: live_def)

lemma pool_inv_MemPool: "0 < n \<Longrightarrow> pool_inv (MemPool n d)"
  by (simp add: pool_inv_def MemPool_def)

lemma live_MemPool [simp]: "live (MemPool n d) = {}"
  by (simp add: live_def MemPool_def)

lemma pool_size_MemPool [simp]: "pool_size (MemPool n d) = n"
  by (simp add: MemPool_def)

lemma set_block_simps [simp]:
  "pool_size (set_block i ob p) = pool_size p"
  "next_free_index (set_block i ob p) = next_free_index p"
  "pool_store (set_block i ob p) = (pool_store p)(i := ob)"
  by (simp_all add: set_block_def)

lemma live_set_next [simp]: "live (p\<lparr>next_free_index := i\<rparr>) = live p"
  by (simp add: live_def)

lemma live_set_block:
  "i < pool_size p \<Longrightarrow> live (set_block i ob p) = (if is_free ob then live p - {i} else insert i (live p))"
  by (auto simp: live_def)

subsection \<open>The search finds a free block exactly when there is one\<close>

text \<open>The indices the loop still has to look at, from \<open>i\<close> round to \<open>start\<close>.\<close>

definition ahead :: "'a MemPool \<Rightarrow> nat \<Rightarrow> nat \<Rightarrow> nat set" where
  "ahead p start i = (if start < i then {i..<pool_size p} \<union> {..<start}
     else if i = start then {..<pool_size p} else {i..<start})"

lemma next_free_loop_Inr:
  "next_free_loop p start i = Inr k \<Longrightarrow> k < pool_size p \<and> is_free (pool_store p k)"
proof (induction p start i rule: next_free_loop.induct)
  case (1 p start i)
  then show ?case
    by (subst (asm) next_free_loop.simps) (auto simp: Let_def FATAL_def split: if_splits)
qed

lemma next_free_loop_Inl:
  "next_free_loop p start i = Inl e \<Longrightarrow> i < pool_size p \<Longrightarrow> start < pool_size p \<Longrightarrow>
   e = Fatal ''MemPool out of space'' \<and> (\<forall>k \<in> ahead p start i. \<not> is_free (pool_store p k))"
proof (induction p start i rule: next_free_loop.induct)
  case (1 p start i)
  let ?j = "if Suc i = pool_size p then 0 else Suc i"
  from 1(2-4) have used: "\<not> is_free (pool_store p i)"
    by (subst (asm) next_free_loop.simps) (auto split: if_splits)
  show ?case
  proof (cases "?j = start")
    case True
    with 1(2-4) used have "e = Fatal ''MemPool out of space''"
      by (subst (asm) next_free_loop.simps) (auto simp: FATAL_def Let_def)
    moreover have "ahead p start i = {i}" if "i \<noteq> start"
      using True that 1(3,4) by (auto simp: ahead_def split: if_splits)
    moreover have "pool_size p = 1" if "i = start"
      using True that 1(3,4) by (auto split: if_splits)
    ultimately show ?thesis using used 1(3,4)
      by (cases "i = start") (auto simp: ahead_def)
  next
    case False
    with 1(2-4) used have rec: "next_free_loop p start ?j = Inl e"
      by (subst (asm) next_free_loop.simps) (auto simp: Let_def)
    have j: "?j < pool_size p" using 1(3) by auto
    with 1(1) [of ?j] rec used False 1(3,4)
    have IH: "e = Fatal ''MemPool out of space''" "\<forall>k \<in> ahead p start ?j. \<not> is_free (pool_store p k)"
      by auto
    have "ahead p start i \<subseteq> insert i (ahead p start ?j)"
      using False 1(3,4) by (auto simp: ahead_def split: if_splits)
    with IH used show ?thesis by blast
  qed
qed

lemma next_free_index_in_range:
  "updateNextFreeIndex p = Inr p' \<Longrightarrow>
   p' = p\<lparr>next_free_index := next_free_index p'\<rparr> \<and> pool_inv p'"
  by (auto simp: updateNextFreeIndex_def res_simps pool_inv_def dest!: next_free_loop_Inr)

lemma updateNextFreeIndex_fails:
  assumes "updateNextFreeIndex p = Inl e" and "next_free_index p < pool_size p"
  shows "e = Fatal ''MemPool out of space'' \<and> live p = {..<pool_size p}"
proof -
  from assms(1) have "next_free_loop p (next_free_index p) (next_free_index p) = Inl e"
    by (auto simp: updateNextFreeIndex_def bnd_eq_Inl_iff)
  from next_free_loop_Inl [OF this assms(2) assms(2)] show ?thesis
    by (auto simp: live_def ahead_def)
qed

text \<open>
  A call of \<open>allocate\<close>, result by result: under the invariant its own \<open>ASSERT\<close> never
  fails, so it either hands out the block at \<open>next_free_index\<close> or leaves the process
  because that block was the last free one.
\<close>

lemma allocate_Inr:
  assumes "allocate v p = Inr (i, p')"
  shows "i = next_free_index p" "i < pool_size p" "is_free (pool_store p i)"
    "p' = (set_block i \<lparr>object = v, is_free = False\<rparr> p)\<lparr>next_free_index := next_free_index p'\<rparr>"
    "pool_inv p'"
proof -
  from assms have i: "i = next_free_index p" "i < pool_size p" "is_free (pool_store p i)"
    and u: "updateNextFreeIndex (set_block i \<lparr>object = v, is_free = False\<rparr> p) = Inr p'"
    by (auto simp: allocate_def Let_def res_simps split: if_splits)
  show "i = next_free_index p" "i < pool_size p" "is_free (pool_store p i)"
    using i by auto
  show "p' = (set_block i \<lparr>object = v, is_free = False\<rparr> p)\<lparr>next_free_index := next_free_index p'\<rparr>"
    "pool_inv p'"
    using next_free_index_in_range [OF u] by auto
qed

lemma allocate_Inl:
  assumes "allocate v p = Inl e" and "pool_inv p"
  shows "e = Fatal ''MemPool out of space''" "Suc (card (live p)) = pool_size p"
proof -
  let ?i = "next_free_index p"
  let ?p = "set_block ?i \<lparr>object = v, is_free = False\<rparr> p"
  from assms have u: "updateNextFreeIndex ?p = Inl e" and i: "?i < pool_size p" "?i \<notin> live p"
    by (auto simp: allocate_def Let_def bnd_eq_Inl_iff pool_inv_def live_def)
  from updateNextFreeIndex_fails [OF u] i
  have "e = Fatal ''MemPool out of space''" and l: "live ?p = {..<pool_size p}"
    by auto
  then show "e = Fatal ''MemPool out of space''" by simp
  from l i have "insert ?i (live p) = {..<pool_size p}" by (simp add: live_set_block)
  then have "card (insert ?i (live p)) = pool_size p" by simp
  with i show "Suc (card (live p)) = pool_size p" by simp
qed

lemma allocate_live:
  assumes "allocate v p = Inr (i, p')"
  shows "i \<notin> live p" "live p' = insert i (live p)" "pool_size p' = pool_size p"
    "obj p' i = v" "j \<noteq> i \<Longrightarrow> pool_store p' j = pool_store p j"
proof -
  note a = allocate_Inr [OF assms]
  show "i \<notin> live p" using a(3) by (simp add: live_def)
  have "live p' = live (set_block i \<lparr>object = v, is_free = False\<rparr> p)"
    by (subst a(4)) simp
  then show "live p' = insert i (live p)" using a(2) by (simp add: live_set_block)
  show "pool_size p' = pool_size p" "obj p' i = v" "j \<noteq> i \<Longrightarrow> pool_store p' j = pool_store p j"
    by (subst a(4), simp)+
qed

lemma deallocate_Inr_iff:
  "deallocate (int i) p = Inr p' \<longleftrightarrow>
     i \<in> live p \<and> p' = set_block i ((pool_store p i)\<lparr>is_free := True\<rparr>) p"
  by (auto simp: deallocate_def res_simps live_def)

lemma deallocate_live:
  assumes "deallocate (int i) p = Inr p'"
  shows "live p' = live p - {i}" "pool_size p' = pool_size p"
    "next_free_index p' = next_free_index p" "obj p' j = obj p j"
    "pool_inv p \<Longrightarrow> pool_inv p'"
  using assms by (auto simp: deallocate_Inr_iff live_set_block live_bound pool_inv_def)

lemma deallocate_wrong:
  "i \<notin> live p \<Longrightarrow> \<exists>msg. deallocate (int i) p = Inl (Fatal msg)"
  by (auto simp: deallocate_def live_def ASSERT_def bnd_def)

lemma deallocate_foreign:
  "k < 0 \<or> int (pool_size p) \<le> k \<Longrightarrow>
   deallocate k p = Inl (Fatal ''Deallocate element does not belong to the MemPool'')"
  by (auto simp: deallocate_def ASSERT_def)

subsection \<open>The interface the clients of a pool rely on\<close>

text \<open>Allocating a list of objects, one after the other.\<close>

fun alloc_all :: "('v \<Rightarrow> 'p \<Rightarrow> (nat \<times> 'p) res) \<Rightarrow> 'v list \<Rightarrow> 'p \<Rightarrow> (nat list \<times> 'p) res" where
  "alloc_all alloc [] p = Inr ([], p)"
| "alloc_all alloc (v # vs) p =
     bnd (alloc v p) (\<lambda>(i, p1). bnd (alloc_all alloc vs p1) (\<lambda>(is, p2). Inr (i # is, p2)))"

locale object_pool =
  fixes alloc :: "'v \<Rightarrow> 'p \<Rightarrow> (nat \<times> 'p) res"
    and dealloc :: "nat \<Rightarrow> 'p \<Rightarrow> 'p res"
    and used :: "'p \<Rightarrow> nat set"
    and deref :: "'p \<Rightarrow> nat \<Rightarrow> 'v"
    and cap :: "'p \<Rightarrow> nat"
    and inv :: "'p \<Rightarrow> bool"
  assumes finite_used: "finite (used p)"
    and alloc_fresh: "inv p \<Longrightarrow> alloc v p = Inr (i, p') \<Longrightarrow> i \<notin> used p \<and> used p' = insert i (used p)"
    and alloc_frame: "inv p \<Longrightarrow> alloc v p = Inr (i, p') \<Longrightarrow>
      deref p' i = v \<and> (\<forall>j. j \<noteq> i \<longrightarrow> deref p' j = deref p j) \<and> cap p' = cap p \<and> inv p'"
    and alloc_fails: "inv p \<Longrightarrow> alloc v p = Inl e \<Longrightarrow> Suc (card (used p)) = cap p"
    and used_below: "inv p \<Longrightarrow> card (used p) < cap p"
    and dealloc_used: "inv p \<Longrightarrow> i \<in> used p \<Longrightarrow> \<exists>p'. dealloc i p = Inr p' \<and>
      used p' = used p - {i} \<and> (\<forall>j. deref p' j = deref p j) \<and> cap p' = cap p \<and> inv p'"
    and dealloc_unused: "inv p \<Longrightarrow> i \<notin> used p \<Longrightarrow> \<exists>msg. dealloc i p = Inl (Fatal msg)"
begin

lemma alloc_iff: "inv p \<Longrightarrow> (\<exists>r. alloc v p = Inr r) \<longleftrightarrow> Suc (card (used p)) < cap p"
proof
  assume inv: "inv p"
  assume "\<exists>r. alloc v p = Inr r"
  then obtain i p' where a: "alloc v p = Inr (i, p')" by auto
  have "card (used p') < cap p'" using alloc_frame [OF inv a] used_below by blast
  with alloc_fresh [OF inv a] alloc_frame [OF inv a] finite_used [of p]
  show "Suc (card (used p)) < cap p" by simp
next
  assume "inv p" "Suc (card (used p)) < cap p"
  then show "\<exists>r. alloc v p = Inr r"
    using alloc_fails by (cases "alloc v p") fastforce+
qed

lemma alloc_all_ok:
  "inv p \<Longrightarrow> alloc_all alloc vs p = Inr (is, p') \<Longrightarrow>
   length is = length vs \<and> distinct is \<and> set is \<inter> used p = {} \<and>
   used p' = set is \<union> used p \<and> map (deref p') is = vs \<and> inv p' \<and> cap p' = cap p \<and>
   (\<forall>j. j \<notin> set is \<longrightarrow> deref p' j = deref p j)"
proof (induction vs arbitrary: p "is")
  case Nil
  then show ?case by simp
next
  case (Cons v vs)
  then obtain i p1 is' where a: "alloc v p = Inr (i, p1)"
    and r: "alloc_all alloc vs p1 = Inr (is', p')" and i: "is = i # is'"
    by (auto simp: res_simps)
  note f = alloc_fresh [OF Cons.prems(1) a] alloc_frame [OF Cons.prems(1) a]
  from f have "inv p1" by simp
  from Cons.IH [OF this r] f show ?case by (auto simp: i)
qed

lemma alloc_all_iff:
  "inv p \<Longrightarrow> (\<exists>r. alloc_all alloc vs p = Inr r) \<longleftrightarrow> vs = [] \<or> length vs + card (used p) < cap p"
proof (induction vs arbitrary: p)
  case Nil
  then show ?case by simp
next
  case (Cons v vs)
  show ?case
  proof (cases "alloc v p")
    case (Inl e)
    with alloc_fails [OF Cons.prems] show ?thesis by auto
  next
    case (Inr r)
    then obtain i p1 where a: "alloc v p = Inr (i, p1)" by (cases r) auto
    note f = alloc_fresh [OF Cons.prems a] alloc_frame [OF Cons.prems a]
    have "Suc (card (used p)) < cap p" using alloc_iff [OF Cons.prems] a by blast
    moreover have "(\<exists>r. alloc_all alloc (v # vs) p = Inr r) = (\<exists>r. alloc_all alloc vs p1 = Inr r)"
      by (auto simp: a res_simps)
    ultimately show ?thesis using Cons.IH [of p1] f finite_used [of p] by auto
  qed
qed

end

interpretation mem_pool: object_pool allocate "\<lambda>i. deallocate (int i)" live obj pool_size pool_inv
proof
  fix p :: "'a MemPool"
  show "finite (live p)" by simp
next
  fix p p' :: "'a MemPool" and v i
  assume "pool_inv p" and a: "allocate v p = Inr (i, p')"
  show "i \<notin> live p \<and> live p' = insert i (live p)" using allocate_live(1,2) [OF a] by simp
next
  fix p p' :: "'a MemPool" and v i
  assume "pool_inv p" and a: "allocate v p = Inr (i, p')"
  show "obj p' i = v \<and> (\<forall>j. j \<noteq> i \<longrightarrow> obj p' j = obj p j) \<and> pool_size p' = pool_size p \<and> pool_inv p'"
    using allocate_live(3-5) [OF a] allocate_Inr(5) [OF a] by simp
next
  fix p :: "'a MemPool" and v e
  assume inv: "pool_inv p" and a: "allocate v p = Inl e"
  show "Suc (card (live p)) = pool_size p" by (rule allocate_Inl(2) [OF a inv])
next
  fix p :: "'a MemPool"
  assume "pool_inv p"
  then have "live p \<subset> {..<pool_size p}" by (auto simp: pool_inv_def live_def)
  from psubset_card_mono [OF _ this] show "card (live p) < pool_size p" by simp
next
  fix p :: "'a MemPool" and i
  assume "pool_inv p" "i \<in> live p"
  then show "\<exists>p'. deallocate (int i) p = Inr p' \<and> live p' = live p - {i} \<and>
      (\<forall>j. obj p' j = obj p j) \<and> pool_size p' = pool_size p \<and> pool_inv p'"
    using deallocate_live [of i p] deallocate_Inr_iff [of i p] by metis
next
  fix p :: "'a MemPool" and i
  assume "i \<notin> live p"
  then show "\<exists>msg. deallocate (int i) p = Inl (Fatal msg)" by (rule deallocate_wrong)
qed

subsection \<open>Properties\<close>

text \<open>
  C20: a call of \<open>allocate\<close> on a pool that satisfies its invariant hands out a block that
  was free, constructs the object in it, touches no other block and keeps the invariant,
  whenever at least two blocks are free; when only one is free it never returns a block but
  leaves the process with "MemPool out of space". Its \<open>ASSERT\<close> is never the reason.
\<close>

theorem allocate_correct:
  assumes "pool_inv p"
  shows "if Suc (card (live p)) < pool_size p
    then \<exists>i p'. allocate v p = Inr (i, p') \<and> i \<notin> live p \<and> live p' = insert i (live p) \<and>
      obj p' i = v \<and> (\<forall>j. j \<noteq> i \<longrightarrow> pool_store p' j = pool_store p j) \<and> pool_inv p'
    else allocate v p = Inl (Fatal ''MemPool out of space'')"
proof (cases "Suc (card (live p)) < pool_size p")
  case True
  then obtain i p' where a: "allocate v p = Inr (i, p')"
    using mem_pool.alloc_iff [OF assms, of v] by auto
  then show ?thesis
    using True allocate_live [OF a] allocate_Inr(5) [OF a] by auto
next
  case False
  then have "\<not> (\<exists>r. allocate v p = Inr r)" using mem_pool.alloc_iff [OF assms, of v] by auto
  then obtain e where e: "allocate v p = Inl e" by (cases "allocate v p") auto
  with False show ?thesis using allocate_Inl(1) [OF e assms] by auto
qed

theorem allocate_correct_witness:
  "if Suc (card (live (MemPool 2 (0::nat)))) < pool_size (MemPool 2 (0::nat))
    then \<exists>i p'. allocate (7::nat) (MemPool 2 0) = Inr (i, p') \<and> i \<notin> live (MemPool 2 (0::nat)) \<and>
      live p' = insert i (live (MemPool 2 (0::nat))) \<and> obj p' i = 7 \<and>
      (\<forall>j. j \<noteq> i \<longrightarrow> pool_store p' j = pool_store (MemPool 2 (0::nat)) j) \<and> pool_inv p'
    else allocate 7 (MemPool 2 (0::nat)) = Inl (Fatal ''MemPool out of space'')"
  by (rule allocate_correct) (simp add: pool_inv_MemPool)

text \<open>
  The usable capacity of a pool. From a new pool of \<open>n\<close> blocks, \<open>k\<close> allocations in
  a row succeed exactly if \<open>k < n\<close> (or \<open>k = 0\<close>): the last block can never be handed out,
  because \<open>allocate\<close> looks for the following free block before it returns.
\<close>

lemma pool_capacity:
  assumes "0 < n"
  shows "(\<exists>r. alloc_all allocate vs (MemPool n d) = Inr r) \<longleftrightarrow> length vs < n"
  using mem_pool.alloc_all_iff [OF pool_inv_MemPool [OF assms, of d], of vs] assms by auto

text \<open>
  C21: \<open>deallocate\<close> accepts exactly the pointers to blocks in use. For such a pointer it
  frees that block alone and keeps every object and the invariant; a pointer outside the
  pool and a block already free (a double release) leave the process.
\<close>

theorem deallocate_correct:
  assumes "pool_inv p"
  shows "(if 0 \<le> k \<and> nat k \<in> live p
     then \<exists>p'. deallocate k p = Inr p' \<and> live p' = live p - {nat k} \<and>
       (\<forall>j. obj p' j = obj p j) \<and> pool_inv p'
     else \<exists>msg. deallocate k p = Inl (Fatal msg))"
proof (cases "0 \<le> k")
  case True
  then obtain i where k: "k = int i" by (metis nonneg_int_cases)
  show ?thesis
    using mem_pool.dealloc_used [OF assms, of i] mem_pool.dealloc_unused [OF assms, of i]
    by (auto simp: k)
next
  case False
  then have "deallocate k p = Inl (Fatal ''Deallocate element does not belong to the MemPool'')"
    by (simp add: deallocate_foreign)
  with False show ?thesis by simp
qed

theorem deallocate_correct_witness:
  "\<exists>msg. deallocate 1 (MemPool 2 (0::nat)) = Inl (Fatal msg)"
  using deallocate_correct [OF pool_inv_MemPool [of 2 "0::nat"], of 1] by simp

end
