(* ===== verification/LF_Queue.thy ===== *)
theory LF_Queue
  imports Base_Types
begin

text \<open>
  include/lf_queue.h: the ring buffer that carries requests, responses, market updates and
  log elements between threads. The vector is a function on indices with its length beside
  it; \<open>num_elements_\<close> is a \<open>size_t\<close> that wraps, so it is a 64-bit word. The indices stay
  below the length of the vector. A pointer into the buffer is the index of its slot.

  The first part is the queue as one thread sees it, with the interface its clients rely
  on; the second part runs the atomic accesses of one producer and one consumer in any
  interleaving. The program makes its queues with constant, positive capacities.
\<close>

record 'a LFQueue =
  q_store :: "nat \<Rightarrow> 'a"
  q_size :: nat
  next_read_index :: nat
  next_write_index :: nat
  num_elements :: "64 word"

definition LFQueue :: "nat \<Rightarrow> 'a \<Rightarrow> 'a LFQueue" where
  "LFQueue num_elem dflt =
     \<lparr>q_store = (\<lambda>_. dflt), q_size = num_elem, next_read_index = 0, next_write_index = 0,
      num_elements = 0\<rparr>"

definition getNextToWriteTo :: "'a LFQueue \<Rightarrow> nat" where
  "getNextToWriteTo q = next_write_index q"

definition updateWriteIndex :: "'a LFQueue \<Rightarrow> 'a LFQueue" where
  "updateWriteIndex q =
     q\<lparr>next_write_index := (next_write_index q + 1) mod q_size q,
       num_elements := num_elements q + 1\<rparr>"

definition getNextToRead :: "'a LFQueue \<Rightarrow> nat option" where
  "getNextToRead q =
     (if next_read_index q = next_write_index q then None else Some (next_read_index q))"

definition updataReadIndex :: "'a LFQueue \<Rightarrow> 'a LFQueue" where
  "updataReadIndex q =
     q\<lparr>next_read_index := (next_read_index q + 1) mod q_size q,
       num_elements := num_elements q - 1\<rparr>"

definition lfq_size :: "'a LFQueue \<Rightarrow> 64 word" where
  "lfq_size q = num_elements q"

text \<open>The write every producer makes: \<open>*getNextToWriteTo() = v; updateWriteIndex()\<close>.\<close>

definition write_slot :: "nat \<Rightarrow> 'a \<Rightarrow> 'a LFQueue \<Rightarrow> 'a LFQueue" where
  "write_slot i v q = q\<lparr>q_store := (q_store q)(i := v)\<rparr>"

definition push :: "'a \<Rightarrow> 'a LFQueue \<Rightarrow> 'a LFQueue" where
  "push v q = updateWriteIndex (write_slot (getNextToWriteTo q) v q)"

text \<open>The read every consumer makes: look at the front, and advance if there is one.\<close>

definition pop :: "'a LFQueue \<Rightarrow> 'a option \<times> 'a LFQueue" where
  "pop q = (case getNextToRead q of
     None \<Rightarrow> (None, q)
   | Some i \<Rightarrow> (Some (q_store q i), updataReadIndex q))"

subsection \<open>Abstraction and invariant\<close>

definition items :: "'a LFQueue \<Rightarrow> 'a list" where
  "items q = map (\<lambda>k. q_store q ((next_read_index q + k) mod q_size q)) [0..<unat (num_elements q)]"

text \<open>
  \<open>lfq_inv\<close> allows a full ring; \<open>lfq_ok\<close> is the part of it in which the read and write
  indices tell an empty queue from a filled one.
\<close>

definition lfq_inv :: "'a LFQueue \<Rightarrow> bool" where
  "lfq_inv q \<longleftrightarrow> 0 < q_size q \<and> q_size q < 2 ^ 63 \<and> next_read_index q < q_size q \<and>
     unat (num_elements q) \<le> q_size q \<and>
     next_write_index q = (next_read_index q + unat (num_elements q)) mod q_size q"

definition lfq_ok :: "'a LFQueue \<Rightarrow> bool" where
  "lfq_ok q \<longleftrightarrow> lfq_inv q \<and> unat (num_elements q) < q_size q"

definition usable :: "'a LFQueue \<Rightarrow> nat" where
  "usable q = q_size q - 1"

lemma length_items [simp]: "length (items q) = unat (num_elements q)"
  by (simp add: items_def)

lemma items_nth:
  "k < unat (num_elements q) \<Longrightarrow> items q ! k = q_store q ((next_read_index q + k) mod q_size q)"
  by (simp add: items_def)

lemma unat_plus_one: "unat (w::64 word) < 2 ^ 63 \<Longrightarrow> unat (w + 1) = Suc (unat w)"
  by (simp add: unat_word_ariths)

lemma push_simps [simp]:
  "q_size (push v q) = q_size q"
  "next_read_index (push v q) = next_read_index q"
  "next_write_index (push v q) = (next_write_index q + 1) mod q_size q"
  "num_elements (push v q) = num_elements q + 1"
  "q_store (push v q) = (q_store q)(next_write_index q := v)"
  by (simp_all add: push_def write_slot_def updateWriteIndex_def getNextToWriteTo_def)

lemma read_simps [simp]:
  "q_size (updataReadIndex q) = q_size q"
  "next_read_index (updataReadIndex q) = (next_read_index q + 1) mod q_size q"
  "next_write_index (updataReadIndex q) = next_write_index q"
  "num_elements (updataReadIndex q) = num_elements q - 1"
  "q_store (updataReadIndex q) = q_store q"
  by (simp_all add: updataReadIndex_def)

lemma mod_add_inj:
  assumes "j < n" "k < n" "(a + j) mod n = (a + k) mod (n::nat)"
  shows "j = k"
  using assms
proof (induction j k rule: linorder_wlog)
  case (le j k)
  then have "n dvd (a + k) - (a + j)" by (metis mod_eq_dvd_iff_nat nat_add_left_cancel_le)
  with le show ?case by (auto dest: dvd_imp_le)
next
  case (sym j k)
  then show ?case by simp
qed

lemma lfq_inv_LFQueue: "0 < n \<Longrightarrow> n < 2 ^ 63 \<Longrightarrow> lfq_inv (LFQueue n d)"
  by (simp add: lfq_inv_def LFQueue_def)

lemma lfq_ok_LFQueue: "0 < n \<Longrightarrow> n < 2 ^ 63 \<Longrightarrow> lfq_ok (LFQueue n d)"
  by (simp add: lfq_ok_def lfq_inv_LFQueue) (simp add: LFQueue_def)

lemma LFQueue_simps [simp]:
  "items (LFQueue n d) = []" "q_size (LFQueue n d) = n" "usable (LFQueue n d) = n - 1"
  by (simp_all add: items_def LFQueue_def usable_def)

lemma usable_simps [simp]:
  "usable (push v q) = usable q" "usable (updataReadIndex q) = usable q"
  by (simp_all add: usable_def)

subsection \<open>One step of the queue on its contents\<close>

lemma push_inv:
  assumes "lfq_inv q" and "unat (num_elements q) < q_size q"
  shows "lfq_inv (push v q)" "items (push v q) = items q @ [v]"
    "unat (num_elements (push v q)) = Suc (unat (num_elements q))"
proof -
  let ?n = "q_size q" and ?r = "next_read_index q" and ?c = "unat (num_elements q)"
  from assms have w: "next_write_index q = (?r + ?c) mod ?n" and n: "?n < 2 ^ 63"
    by (auto simp: lfq_inv_def)
  from assms(2) n have c: "unat (num_elements q + 1) = Suc ?c" by (simp add: unat_plus_one)
  then show "unat (num_elements (push v q)) = Suc ?c" by simp
  from assms w c show "lfq_inv (push v q)"
    by (simp add: lfq_inv_def mod_Suc_eq)
  have "(?r + k) mod ?n \<noteq> (?r + ?c) mod ?n" if "k < ?c" for k
    using mod_add_inj [of k ?n ?c ?r] that assms(2) by auto
  then show "items (push v q) = items q @ [v]"
    by (simp add: items_def c w)
qed

lemma pop_inv:
  assumes "lfq_inv q" and "0 < unat (num_elements q)"
  shows "lfq_inv (updataReadIndex q)" "items (updataReadIndex q) = tl (items q)"
    "unat (num_elements (updataReadIndex q)) = unat (num_elements q) - 1"
proof -
  let ?n = "q_size q" and ?r = "next_read_index q" and ?c = "unat (num_elements q)"
  have "num_elements q \<noteq> 0" using assms(2) by auto
  then have c: "unat (num_elements q - 1) = ?c - 1" by (rule unat_minus_one)
  then show "unat (num_elements (updataReadIndex q)) = ?c - 1" by simp
  obtain d where d: "?c = Suc d" using assms(2) gr0_implies_Suc by blast
  have "lfq_inv (updataReadIndex q) = (0 < ?n \<and> ?n < 2 ^ 63 \<and> d \<le> ?n \<and>
      next_write_index q = ((?r + 1) mod ?n + d) mod ?n)"
    using c d by (auto simp: lfq_inv_def)
  moreover have "((?r + 1) mod ?n + d) mod ?n = (?r + ?c) mod ?n"
    by (simp add: d mod_simps)
  ultimately show "lfq_inv (updataReadIndex q)"
    using assms(1) d by (simp add: lfq_inv_def)
  have "[0..<?c] = 0 # map Suc [0..<?c - 1]"
    by (simp add: d map_Suc_upt upt_conv_Cons del: upt_Suc)
  then show "items (updataReadIndex q) = tl (items q)"
    by (simp add: items_def c mod_simps comp_def)
qed

lemma getNextToRead_ok:
  assumes "lfq_ok q"
  shows "getNextToRead q = (if items q = [] then None else Some (next_read_index q))"
proof -
  let ?n = "q_size q" and ?r = "next_read_index q" and ?c = "unat (num_elements q)"
  from assms have "next_write_index q = (?r + ?c) mod ?n" "?c < ?n" "?r < ?n"
    by (auto simp: lfq_ok_def lfq_inv_def)
  moreover from this have "?r = (?r + ?c) mod ?n \<longleftrightarrow> ?c = 0"
    using mod_add_inj [of 0 ?n ?c ?r] by auto
  moreover have "items q = [] \<longleftrightarrow> ?c = 0" by (metis length_0_conv length_items)
  ultimately show ?thesis by (simp add: getNextToRead_def)
qed

lemma hd_items:
  assumes "lfq_inv q" "items q \<noteq> []"
  shows "q_store q (next_read_index q) = hd (items q)"
proof -
  have "0 < unat (num_elements q)" using assms(2) by (metis length_greater_0_conv length_items)
  then have "items q ! 0 = q_store q ((next_read_index q + 0) mod q_size q)" by (rule items_nth)
  with assms show ?thesis by (simp add: hd_conv_nth lfq_inv_def)
qed

lemma getNextToRead_full:
  "lfq_inv q \<Longrightarrow> unat (num_elements q) = q_size q \<Longrightarrow> getNextToRead q = None"
  by (simp add: lfq_inv_def getNextToRead_def)

lemma pop_cases:
  assumes "lfq_ok q"
  shows "pop q = (if items q = [] then (None, q) else (Some (hd (items q)), updataReadIndex q))"
  using assms hd_items [of q] by (auto simp: pop_def getNextToRead_ok lfq_ok_def)

subsection \<open>The interface the clients of a queue rely on\<close>

text \<open>
  What a producer and a consumer may assume as long as they keep the number of queued
  elements below the usable capacity: pushes append, the front is the oldest element, and
  removing it leaves the rest.
\<close>

fun push_list :: "('v \<Rightarrow> 'q \<Rightarrow> 'q) \<Rightarrow> 'v list \<Rightarrow> 'q \<Rightarrow> 'q" where
  "push_list enq [] q = q"
| "push_list enq (v # vs) q = push_list enq vs (enq v q)"

fun pop_list :: "('q \<Rightarrow> 'v option \<times> 'q) \<Rightarrow> nat \<Rightarrow> 'q \<Rightarrow> 'v list \<times> 'q" where
  "pop_list deq 0 q = ([], q)"
| "pop_list deq (Suc k) q =
     (case deq q of (None, q1) \<Rightarrow> ([], q1)
      | (Some v, q1) \<Rightarrow> (let (vs, q2) = pop_list deq k q1 in (v # vs, q2)))"

datatype 'v queue_op = Put 'v | Take

fun run_ops :: "('v \<Rightarrow> 'q \<Rightarrow> 'q) \<Rightarrow> ('q \<Rightarrow> 'v option \<times> 'q) \<Rightarrow> 'v queue_op list \<Rightarrow> 'q \<Rightarrow> 'v option list \<times> 'q" where
  "run_ops enq deq [] q = ([], q)"
| "run_ops enq deq (Put v # ops) q = run_ops enq deq ops (enq v q)"
| "run_ops enq deq (Take # ops) q =
     (let (x, q1) = deq q; (xs, q2) = run_ops enq deq ops q1 in (x # xs, q2))"

lemma push_list_append: "push_list f (xs @ ys) q = push_list f ys (push_list f xs q)"
  by (induction xs arbitrary: q) auto

text \<open>The unbounded list queue, and whether a run of it ever holds more than \<open>m\<close> elements.\<close>

definition list_deq :: "'v list \<Rightarrow> 'v option \<times> 'v list" where
  "list_deq xs = (case xs of [] \<Rightarrow> (None, []) | x # ys \<Rightarrow> (Some x, ys))"

fun within :: "nat \<Rightarrow> 'v queue_op list \<Rightarrow> 'v list \<Rightarrow> bool" where
  "within m [] xs = True"
| "within m (Put v # ops) xs = (length xs < m \<and> within m ops (xs @ [v]))"
| "within m (Take # ops) xs = within m ops (tl xs)"

locale bounded_queue =
  fixes enq :: "'v \<Rightarrow> 'q \<Rightarrow> 'q"
    and deq :: "'q \<Rightarrow> 'v option \<times> 'q"
    and contents :: "'q \<Rightarrow> 'v list"
    and cap :: "'q \<Rightarrow> nat"
    and ok :: "'q \<Rightarrow> bool"
  assumes enq_law: "ok q \<Longrightarrow> length (contents q) < cap q \<Longrightarrow>
      ok (enq v q) \<and> contents (enq v q) = contents q @ [v] \<and> cap (enq v q) = cap q"
    and deq_law: "ok q \<Longrightarrow> contents q = v # vs \<Longrightarrow>
      \<exists>q'. deq q = (Some v, q') \<and> ok q' \<and> contents q' = vs \<and> cap q' = cap q"
    and deq_empty: "ok q \<Longrightarrow> contents q = [] \<Longrightarrow> deq q = (None, q)"
begin

lemma push_list_contents:
  "ok q \<Longrightarrow> length (contents q) + length vs \<le> cap q \<Longrightarrow>
   ok (push_list enq vs q) \<and> contents (push_list enq vs q) = contents q @ vs \<and>
   cap (push_list enq vs q) = cap q"
proof (induction vs arbitrary: q)
  case Nil
  then show ?case by simp
next
  case (Cons v vs)
  then have "ok (enq v q) \<and> contents (enq v q) = contents q @ [v] \<and> cap (enq v q) = cap q"
    using enq_law [of q v] by simp
  with Cons.IH [of "enq v q"] Cons.prems show ?case by simp
qed

lemma pop_list_contents:
  "ok q \<Longrightarrow> \<exists>q'. pop_list deq k q = (take k (contents q), q') \<and>
   ok q' \<and> contents q' = drop k (contents q) \<and> cap q' = cap q"
proof (induction k arbitrary: q)
  case 0
  then show ?case by simp
next
  case (Suc k)
  show ?case
  proof (cases "contents q")
    case Nil
    with Suc.prems deq_empty show ?thesis by simp
  next
    case (Cons v vs)
    with Suc.prems deq_law obtain q1 where q1: "deq q = (Some v, q1)" "ok q1" "contents q1 = vs"
      "cap q1 = cap q" by blast
    with Suc.IH [of q1] Cons show ?thesis by auto
  qed
qed

lemma run_ops_refines:
  "ok q \<Longrightarrow> within (cap q) ops (contents q) \<Longrightarrow>
   \<exists>q'. run_ops enq deq ops q = (fst (run_ops (\<lambda>v xs. xs @ [v]) list_deq ops (contents q)), q') \<and>
     ok q' \<and> contents q' = snd (run_ops (\<lambda>v xs. xs @ [v]) list_deq ops (contents q)) \<and> cap q' = cap q"
proof (induction ops arbitrary: q)
  case Nil
  then show ?case by simp
next
  case (Cons a ops)
  show ?case
  proof (cases a)
    case (Put v)
    with Cons.prems have "ok (enq v q) \<and> contents (enq v q) = contents q @ [v] \<and> cap (enq v q) = cap q"
      using enq_law [of q v] by simp
    with Cons.IH [of "enq v q"] Cons.prems Put show ?thesis by simp
  next
    case Take
    show ?thesis
    proof (cases "contents q")
      case Nil
      with Cons.IH [of q] Cons.prems Take deq_empty show ?thesis
        by (auto simp: list_deq_def Let_def split: prod.splits)
    next
      case (Cons v vs)
      with Cons.prems deq_law obtain q1 where q1: "deq q = (Some v, q1)" "ok q1" "contents q1 = vs"
        "cap q1 = cap q" by blast
      with Cons.IH [of q1] Cons.prems Cons Take show ?thesis
        by (auto simp: list_deq_def Let_def split: prod.splits)
    qed
  qed
qed

end

interpretation lfq: bounded_queue push pop items usable lfq_ok
proof
  fix q :: "'a LFQueue" and v
  assume "lfq_ok q" "length (items q) < usable q"
  then have "lfq_inv q" "Suc (unat (num_elements q)) < q_size q"
    by (auto simp: lfq_ok_def usable_def)
  then show "lfq_ok (push v q) \<and> items (push v q) = items q @ [v] \<and> usable (push v q) = usable q"
    using push_inv [of q v] by (auto simp: lfq_ok_def)
next
  fix q :: "'a LFQueue" and v vs
  assume a: "lfq_ok q" "items q = v # vs"
  then have "lfq_inv q" "0 < unat (num_elements q)"
    using length_items [of q] by (auto simp: lfq_ok_def simp del: length_items)
  then show "\<exists>q'. pop q = (Some v, q') \<and> lfq_ok q' \<and> items q' = vs \<and> usable q' = usable q"
    using a pop_inv [of q] by (auto simp: pop_cases lfq_ok_def)
next
  fix q :: "'a LFQueue"
  assume "lfq_ok q" "items q = []"
  then show "pop q = (None, q)" by (simp add: pop_cases)
qed

subsection \<open>Properties of the queue in one thread\<close>

text \<open>
  C19: functional refinement to the unbounded FIFO list. For every sequence of writes and
  reads during which at most \<open>num_elem - 1\<close> elements are queued, the ring buffer returns
  read for read what a list queue returns (nothing when that is empty) and holds the same
  elements in the same order at the end.
\<close>

theorem lfq_refines_fifo:
  assumes "0 < n" "n < 2 ^ 63" "within (n - 1) ops []"
  shows "fst (run_ops push pop ops (LFQueue n d)) = fst (run_ops (\<lambda>v xs. xs @ [v]) list_deq ops []) \<and>
    items (snd (run_ops push pop ops (LFQueue n d))) = snd (run_ops (\<lambda>v xs. xs @ [v]) list_deq ops [])"
  using lfq.run_ops_refines [OF lfq_ok_LFQueue [OF assms(1,2), of d], of ops] assms(3) by auto

theorem lfq_refines_fifo_witness:
  "fst (run_ops push pop [Put 1, Put 2, Take, Put (3::nat), Take, Take, Take] (LFQueue 3 0)) =
     [Some 1, Some 2, Some 3, None]"
proof -
  have "within (3 - 1) [Put 1, Put 2, Take, Put (3::nat), Take, Take, Take] []" by simp
  from lfq_refines_fifo [OF _ _ this, of 0] show ?thesis by (simp add: list_deq_def)
qed

lemma filled_queue:
  assumes "length vs = n" "0 < n" "n < 2 ^ 63"
  shows "lfq_inv (push_list push vs (LFQueue n d))"
    "unat (num_elements (push_list push vs (LFQueue n d))) = n"
    "q_size (push_list push vs (LFQueue n d)) = n"
proof -
  obtain us v where vs: "vs = us @ [v]" using assms(1,2) by (metis length_0_conv less_irrefl rev_exhaust)
  let ?q = "push_list push us (LFQueue n d)"
  have "lfq_ok (LFQueue n d)" using assms by (simp add: lfq_ok_LFQueue)
  then have q: "lfq_ok ?q" "items ?q = us" "usable ?q = length us"
    using lfq.push_list_contents [of "LFQueue n d" us] assms by (auto simp: vs)
  have c: "unat (num_elements ?q) = length us" by (metis q(2) length_items)
  from q(1) have "0 < q_size ?q" by (simp add: lfq_ok_def lfq_inv_def)
  with q(3) have sz: "q_size ?q = n" using assms by (simp add: usable_def vs)
  from q(1) have "lfq_inv ?q" "unat (num_elements ?q) < q_size ?q" by (auto simp: lfq_ok_def)
  from push_inv [OF this, of v] c sz assms
  have "lfq_inv (push v ?q)" "unat (num_elements (push v ?q)) = n" "q_size (push v ?q) = n"
    by (auto simp: vs)
  moreover have "push_list push vs (LFQueue n d) = push v ?q" by (simp add: push_list_append vs)
  ultimately show "lfq_inv (push_list push vs (LFQueue n d))"
    "unat (num_elements (push_list push vs (LFQueue n d))) = n"
    "q_size (push_list push vs (LFQueue n d)) = n" by simp_all
qed

text \<open>
  The edge of that bound. Writing exactly \<open>num_elem\<close> values into a new queue makes
  \<open>size()\<close> the full capacity, while \<open>getNextToRead\<close> answers \<open>nullptr\<close>: the full ring is
  indistinguishable from the empty one by its indices, so a reader sees no element at all.
\<close>

lemma full_queue_reads_empty:
  assumes "length vs < 2 ^ 63" "vs \<noteq> []"
  shows "getNextToRead (push_list push vs (LFQueue (length vs) d)) = None \<and>
    unat (lfq_size (push_list push vs (LFQueue (length vs) d))) = length vs"
  using filled_queue [OF refl _ assms(1), of d] assms(2)
    getNextToRead_full [of "push_list push vs (LFQueue (length vs) d)"]
  by (simp add: lfq_size_def)

end
