(* ===== verification/LF_Queue_Threads.thy ===== *)
theory LF_Queue_Threads
  imports LF_Queue Systems
begin

text \<open>
  The queue between two threads. Each operation of include/lf_queue.h is cut at its atomic
  accesses: the producer writes the slot, then stores \<open>next_write_index_\<close>, then increments
  \<open>num_elements_\<close>; the consumer compares the indices, reads the slot, stores
  \<open>next_read_index_\<close>, then decrements \<open>num_elements_\<close>. The atomics are sequentially
  consistent (the default order), so a run is an interleaving of these steps.
  \<open>sent\<close>, \<open>got\<close> and \<open>freed\<close> are history: the values published by an index store, the
  values the consumer has read, and the number of slots it has given back. The code never
  checks for room; the bound \<open>m\<close> of the step relation is the number of unconsumed elements
  the threads keep to.
\<close>

datatype 'a producer_pc = P_idle | P_written 'a | P_indexed
datatype consumer_pc = C_idle | C_peeked nat | C_read | C_indexed

record 'a spsc =
  shared :: "'a LFQueue"
  ppc :: "'a producer_pc"
  cpc :: consumer_pc
  sent :: "'a list"
  got :: "'a list"
  freed :: nat

definition store_write_index :: "'a LFQueue \<Rightarrow> 'a LFQueue" where
  "store_write_index q = q\<lparr>next_write_index := (next_write_index q + 1) mod q_size q\<rparr>"

definition count_up :: "'a LFQueue \<Rightarrow> 'a LFQueue" where
  "count_up q = q\<lparr>num_elements := num_elements q + 1\<rparr>"

definition store_read_index :: "'a LFQueue \<Rightarrow> 'a LFQueue" where
  "store_read_index q = q\<lparr>next_read_index := (next_read_index q + 1) mod q_size q\<rparr>"

definition count_down :: "'a LFQueue \<Rightarrow> 'a LFQueue" where
  "count_down q = q\<lparr>num_elements := num_elements q - 1\<rparr>"

lemma updateWriteIndex_steps: "updateWriteIndex q = count_up (store_write_index q)"
  by (simp add: updateWriteIndex_def count_up_def store_write_index_def)

lemma updataReadIndex_steps: "updataReadIndex q = count_down (store_read_index q)"
  by (simp add: updataReadIndex_def count_down_def store_read_index_def)

lemmas half_step_defs =
  store_write_index_def count_up_def store_read_index_def count_down_def write_slot_def
  getNextToWriteTo_def

inductive spsc_step :: "nat \<Rightarrow> 'a spsc \<Rightarrow> 'a spsc \<Rightarrow> bool" for m where
  p_write: "ppc s = P_idle \<Longrightarrow> length (sent s) - freed s < m \<Longrightarrow> spsc_step m s
    (s\<lparr>shared := write_slot (getNextToWriteTo (shared s)) v (shared s), ppc := P_written v\<rparr>)"
| p_index: "ppc s = P_written v \<Longrightarrow> spsc_step m s
    (s\<lparr>shared := store_write_index (shared s), ppc := P_indexed, sent := sent s @ [v]\<rparr>)"
| p_count: "ppc s = P_indexed \<Longrightarrow> spsc_step m s (s\<lparr>shared := count_up (shared s), ppc := P_idle\<rparr>)"
| c_peek: "cpc s = C_idle \<Longrightarrow> getNextToRead (shared s) = Some i \<Longrightarrow> spsc_step m s (s\<lparr>cpc := C_peeked i\<rparr>)"
| c_read: "cpc s = C_peeked i \<Longrightarrow> spsc_step m s
    (s\<lparr>cpc := C_read, got := got s @ [q_store (shared s) i]\<rparr>)"
| c_index: "cpc s = C_read \<Longrightarrow> spsc_step m s
    (s\<lparr>shared := store_read_index (shared s), cpc := C_indexed, freed := Suc (freed s)\<rparr>)"
| c_count: "cpc s = C_indexed \<Longrightarrow> spsc_step m s (s\<lparr>shared := count_down (shared s), cpc := C_idle\<rparr>)"

definition spsc_init :: "nat \<Rightarrow> 'a \<Rightarrow> 'a spsc" where
  "spsc_init n d = \<lparr>shared = LFQueue n d, ppc = P_idle, cpc = C_idle, sent = [], got = [], freed = 0\<rparr>"

abbreviation spsc_reach :: "nat \<Rightarrow> nat \<Rightarrow> 'a \<Rightarrow> 'a spsc \<Rightarrow> bool" where
  "spsc_reach m n d \<equiv> reachable (spsc_init n d) (spsc_step m)"

inductive_cases spsc_stepE: "spsc_step m s t"

subsection \<open>The invariant\<close>

definition indices_inv :: "nat \<Rightarrow> nat \<Rightarrow> 'a spsc \<Rightarrow> bool" where
  "indices_inv m n s \<longleftrightarrow> q_size (shared s) = n \<and> freed s \<le> length (sent s) \<and>
     length (sent s) - freed s \<le> m \<and>
     next_read_index (shared s) = freed s mod n \<and>
     next_write_index (shared s) = length (sent s) mod n"

definition slots_inv :: "nat \<Rightarrow> nat \<Rightarrow> 'a spsc \<Rightarrow> bool" where
  "slots_inv m n s \<longleftrightarrow>
     (\<forall>k. freed s \<le> k \<and> k < length (sent s) \<longrightarrow> q_store (shared s) (k mod n) = sent s ! k) \<and>
     (\<forall>v. ppc s = P_written v \<longrightarrow>
        length (sent s) - freed s < m \<and> q_store (shared s) (length (sent s) mod n) = v)"

definition count_inv :: "'a spsc \<Rightarrow> bool" where
  "count_inv s \<longleftrightarrow> num_elements (shared s) =
     of_nat (length (sent s)) - of_nat (freed s) -
     (if ppc s = P_indexed then 1 else 0) + (if cpc s = C_indexed then 1 else 0)"

definition read_inv :: "nat \<Rightarrow> 'a spsc \<Rightarrow> bool" where
  "read_inv n s \<longleftrightarrow> (case cpc s of
     C_idle \<Rightarrow> got s = take (freed s) (sent s)
   | C_peeked i \<Rightarrow> got s = take (freed s) (sent s) \<and> freed s < length (sent s) \<and> i = freed s mod n
   | C_read \<Rightarrow> got s = take (Suc (freed s)) (sent s) \<and> freed s < length (sent s)
   | C_indexed \<Rightarrow> got s = take (freed s) (sent s))"

definition spsc_inv :: "nat \<Rightarrow> nat \<Rightarrow> 'a spsc \<Rightarrow> bool" where
  "spsc_inv m n s \<longleftrightarrow> indices_inv m n s \<and> slots_inv m n s \<and> count_inv s \<and> read_inv n s"

lemmas spsc_inv_defs = spsc_inv_def indices_inv_def slots_inv_def count_inv_def read_inv_def

lemma mod_window: "k < l \<Longrightarrow> l - k < n \<Longrightarrow> k mod n \<noteq> l mod (n::nat)"
  by (metis dvd_imp_le less_le_not_le less_or_eq_imp_le mod_eq_dvd_iff_nat zero_less_diff)

lemma getNextToRead_indices:
  assumes "indices_inv m n s" "m < n"
  shows "getNextToRead (shared s) = (if freed s < length (sent s) then Some (freed s mod n) else None)"
proof (cases "freed s < length (sent s)")
  case True
  moreover have "length (sent s) - freed s < n" using assms by (simp add: indices_inv_def)
  ultimately have "freed s mod n \<noteq> length (sent s) mod n" by (rule mod_window)
  with True assms show ?thesis by (simp add: indices_inv_def getNextToRead_def)
next
  case False
  with assms show ?thesis by (simp add: indices_inv_def getNextToRead_def)
qed

lemma spsc_inv_init: "0 < n \<Longrightarrow> spsc_inv m n (spsc_init n d)"
  by (simp add: spsc_inv_defs spsc_init_def LFQueue_def)

lemma indices_inv_step:
  assumes "spsc_step m s t" "m < n" "spsc_inv m n s"
  shows "indices_inv m n t"
  using assms
  by (cases rule: spsc_stepE)
    (auto simp: spsc_inv_defs half_step_defs mod_Suc_eq split: consumer_pc.splits)

lemma slots_inv_step:
  assumes "spsc_step m s t" "m < n" "spsc_inv m n s"
  shows "slots_inv m n t"
  using assms(1)
proof (cases rule: spsc_step.cases)
  case (p_write v)
  have "k mod n \<noteq> length (sent s) mod n" if "freed s \<le> k" "k < length (sent s)" for k
    using that assms(2,3) by (intro mod_window) (auto simp: spsc_inv_defs)
  then show ?thesis using assms(2,3) p_write by (auto simp: spsc_inv_defs half_step_defs)
next
  case (p_index v)
  then show ?thesis using assms(2,3) by (auto simp: spsc_inv_defs half_step_defs nth_append less_Suc_eq)
qed (use assms in \<open>auto simp: spsc_inv_defs half_step_defs split: if_splits\<close>)

lemma count_inv_step:
  assumes "spsc_step m s t" "spsc_inv m n s"
  shows "count_inv t"
  using assms
  by (cases rule: spsc_stepE) (auto simp: spsc_inv_defs half_step_defs)

lemma read_inv_step:
  assumes "spsc_step m s t" "m < n" "spsc_inv m n s"
  shows "read_inv n t"
  using assms(1)
proof (cases rule: spsc_step.cases)
  case (c_peek i)
  have "indices_inv m n s" using assms(3) by (simp add: spsc_inv_def)
  from getNextToRead_indices [OF this assms(2)] c_peek assms(3) show ?thesis
    by (auto simp: spsc_inv_def read_inv_def split: if_splits)
next
  case (c_read i)
  then show ?thesis using assms(3) by (auto simp: spsc_inv_defs take_Suc_conv_app_nth)
qed (use assms in \<open>auto simp: spsc_inv_defs split: consumer_pc.splits\<close>)

lemma spsc_inv_step: "spsc_step m s t \<Longrightarrow> m < n \<Longrightarrow> spsc_inv m n s \<Longrightarrow> spsc_inv m n t"
  using indices_inv_step slots_inv_step count_inv_step read_inv_step
  unfolding spsc_inv_def by blast

text \<open>The invariant holds below capacity.\<close>

interpretation spsc: invariant_system "spsc_init n d" "spsc_step m" "\<lambda>s. m < n \<longrightarrow> spsc_inv m n s" for m n d
  by unfold_locales (auto intro: spsc_inv_init spsc_inv_step)

lemmas spsc_reach_inv = spsc.reachable_inv [rule_format]

lemma read_apart: "spsc_inv m n s \<Longrightarrow> m < n \<Longrightarrow> cpc s = C_peeked i \<Longrightarrow> i \<noteq> getNextToWriteTo (shared s)"
  using mod_window [of "freed s" "length (sent s)" n] by (auto simp: spsc_inv_defs getNextToWriteTo_def)

subsection \<open>Properties\<close>

text \<open>
  C17: safety of the lock-free hand-over. In every interleaving in which the producer never
  has more than \<open>num_elem - 1\<close> unconsumed elements, what the consumer has read is a prefix
  of what the producer has published: nothing is lost, repeated or reordered, and at most one
  read value has its slot not yet given back. The slot a consumer is about to read is never
  the one the producer writes, so no value is read half written.
\<close>

theorem spsc_fifo:
  assumes "spsc_reach m n d s" "m < n"
  shows "got s = take (length (got s)) (sent s) \<and>
    freed s \<le> length (got s) \<and> length (got s) \<le> Suc (freed s) \<and>
    (case cpc s of C_peeked i \<Rightarrow> i \<noteq> getNextToWriteTo (shared s) | _ \<Rightarrow> True)"
proof -
  have inv: "spsc_inv m n s" by (rule spsc_reach_inv [OF assms])
  then have "got s = take (length (got s)) (sent s) \<and> freed s \<le> length (got s) \<and> length (got s) \<le> Suc (freed s)"
    by (auto simp: spsc_inv_defs split: consumer_pc.splits)
  with read_apart [OF inv assms(2)] show ?thesis by (auto split: consumer_pc.splits)
qed

lemmas spsc_reach_step = reachable.step [where step = "spsc_step m" and init = "spsc_init n d" for m n d]

lemmas spsc_run = spsc_reach_step [OF _ spsc_step.p_write] spsc_reach_step [OF _ spsc_step.p_index]
  spsc_reach_step [OF _ spsc_step.c_peek] spsc_reach_step [OF _ spsc_step.c_read]
  spsc_reach_step [OF _ spsc_step.c_index] spsc_reach_step [OF _ spsc_step.c_count]

text \<open>The queue after one element was published and consumed before it was counted.\<close>

definition raced :: "nat \<Rightarrow> 'a \<Rightarrow> 'a \<Rightarrow> 'a spsc" where
  "raced n d v = \<lparr>shared = \<lparr>q_store = (\<lambda>_. d)(0 := v), q_size = n, next_read_index = 1 mod n,
     next_write_index = 1 mod n, num_elements = - 1\<rparr>,
     ppc = P_indexed, cpc = C_idle, sent = [v], got = [v], freed = 1\<rparr>"

lemma raced_reachable:
  assumes "1 < n" "0 < m"
  shows "spsc_reach m n d (raced n d v)"
proof -
  let ?s1 = "(spsc_init n d)\<lparr>shared := write_slot 0 v (LFQueue n d), ppc := P_written v\<rparr>"
  let ?s2 = "?s1\<lparr>shared := store_write_index (shared ?s1), ppc := P_indexed, sent := [v]\<rparr>"
  let ?s3 = "?s2\<lparr>cpc := C_peeked 0\<rparr>"
  let ?s4 = "?s3\<lparr>cpc := C_read, got := [v]\<rparr>"
  let ?s5 = "?s4\<lparr>shared := store_read_index (shared ?s4), cpc := C_indexed, freed := 1\<rparr>"
  let ?s6 = "?s5\<lparr>shared := count_down (shared ?s5), cpc := C_idle\<rparr>"
  note defs = half_step_defs spsc_init_def LFQueue_def getNextToRead_def
  have "spsc_reach m n d ?s1"
    using spsc_run(1) [OF reachable.start, where n = n and d = d and m = m and v = v] assms by (simp add: defs)
  then have "spsc_reach m n d ?s2" using spsc_run(2) [of n d m ?s1 v] by (simp add: defs)
  then have "spsc_reach m n d ?s3" using spsc_run(3) [of n d m ?s2 0] assms by (simp add: defs)
  then have "spsc_reach m n d ?s4" using spsc_run(4) [of n d m ?s3 0] by (simp add: defs)
  then have "spsc_reach m n d ?s5" using spsc_run(5) [of n d m ?s4] by (simp add: defs)
  then have "spsc_reach m n d ?s6" using spsc_run(6) [of n d m ?s5] by (simp add: defs)
  moreover have "?s6 = raced n d v" by (simp add: raced_def defs)
  ultimately show ?thesis by simp
qed

theorem spsc_fifo_witness:
  "got (raced 3 (0::nat) 7) = take (length (got (raced 3 (0::nat) 7))) (sent (raced 3 0 7)) \<and>
    freed (raced 3 (0::nat) 7) \<le> length (got (raced 3 (0::nat) 7)) \<and>
    length (got (raced 3 (0::nat) 7)) \<le> Suc (freed (raced 3 (0::nat) 7)) \<and>
    (case cpc (raced 3 (0::nat) 7) of C_peeked i \<Rightarrow> i \<noteq> getNextToWriteTo (shared (raced 3 (0::nat) 7)) | _ \<Rightarrow> True)"
  by (rule spsc_fifo [OF raced_reachable [of 3 2]]) simp_all

text \<open>
  When the consumer may trust \<open>size()\<close>. In every such interleaving, while the producer
  is not between its two index updates and the consumer is idle, \<open>size()\<close> is exactly the
  number of unconsumed elements, and it is positive if and only if \<open>getNextToRead\<close> returns a
  pointer.
\<close>

lemma spsc_size_exact:
  assumes "spsc_reach m n d s" "m < n" "n < 2 ^ 63" "cpc s = C_idle" "ppc s \<noteq> P_indexed"
  shows "unat (lfq_size (shared s)) = length (sent s) - freed s \<and>
    (lfq_size (shared s) \<noteq> 0 \<longleftrightarrow> getNextToRead (shared s) \<noteq> None)"
proof -
  have inv: "spsc_inv m n s" by (rule spsc_reach_inv [OF assms(1,2)])
  then have le: "freed s \<le> length (sent s)" "length (sent s) - freed s < n"
    using assms(2) by (auto simp: spsc_inv_defs)
  have "num_elements (shared s) = of_nat (length (sent s)) - of_nat (freed s)"
    using inv assms(4,5) by (simp add: spsc_inv_defs)
  then have "num_elements (shared s) = of_nat (length (sent s) - freed s)"
    using le(1) by simp
  then have u: "unat (num_elements (shared s)) = length (sent s) - freed s"
    using le(2) assms(3) by (simp add: unat_of_nat)
  moreover have "getNextToRead (shared s) \<noteq> None \<longleftrightarrow> freed s < length (sent s)"
    using getNextToRead_indices [of m n s] inv assms(2) by (simp add: spsc_inv_def)
  moreover have "num_elements (shared s) \<noteq> 0 \<longleftrightarrow> 0 < unat (num_elements (shared s))"
    by (metis neq0_conv unat_eq_zero)
  ultimately show ?thesis by (simp add: lfq_size_def)
qed

text \<open>
  C18: and when it may not. For every capacity above one there is an interleaving after
  which the consumer is idle, the queue is empty (\<open>getNextToRead\<close> is \<open>nullptr\<close>) and \<open>size()\<close>
  is \<open>2^64 - 1\<close>: the consumer took the element between the producer's store of the write
  index and its increment of the count. A consumer that loops on \<open>size()\<close> and treats
  \<open>nullptr\<close> as an error (tests/test_lfqueue.cpp) stops the process there.
\<close>

theorem spsc_size_wraps:
  assumes "1 < n" "0 < m"
  shows "\<exists>s. spsc_reach m n d s \<and> cpc s = C_idle \<and> getNextToRead (shared s) = None \<and>
    unat (lfq_size (shared s)) = 2 ^ 64 - 1"
proof -
  have "getNextToRead (shared (raced n d d)) = None" "unat (lfq_size (shared (raced n d d))) = 2 ^ 64 - 1"
    by (simp_all add: raced_def getNextToRead_def lfq_size_def unsigned_minus_1_eq_mask mask_eq_exp_minus_1)
  moreover have "cpc (raced n d d) = C_idle" by (simp add: raced_def)
  ultimately show ?thesis
    using raced_reachable [OF assms, of d d] by (intro exI [of _ "raced n d d"]) simp
qed

theorem spsc_size_wraps_witness:
  "\<exists>s. spsc_reach 1 20 (0::nat) s \<and> cpc s = C_idle \<and> getNextToRead (shared s) = None \<and>
    unat (lfq_size (shared s)) = 2 ^ 64 - 1"
  by (rule spsc_size_wraps) simp_all

end
