(* ===== verification/Logger.thy ===== *)
theory Logger
  imports LF_Queue
begin

text \<open>
  include/logger.h and src/logger.cpp: the asynchronous logger. A caller turns a format
  string and its arguments into log elements and pushes them one by one into the ring
  buffer; the logger thread pops them and writes their text to the file. The tagged union
  \<open>LogElement\<close> is a datatype with one constructor per tag (\<open>long\<close> has 64 bits, as on the
  Linux targets of the build); \<open>float\<close> and \<open>double\<close> payloads are kept as their bits, and
  the text the stream library prints for them is a parameter (\<open>ff\<close>, \<open>fd\<close>) of the
  functions that write to the file. \<open>log_arg\<close> is the type of the argument that selects a
  \<open>pushValue\<close> overload; a \<open>bool\<close> argument is promoted to \<open>int\<close> by overload resolution.
\<close>

datatype LogElement =
    LE_CHAR char
  | LE_INTEGER "32 word"
  | LE_LONG_INTEGER "64 word"
  | LE_LONG_LONG_INTEGER "64 word"
  | LE_UNSIGNED_INTEGER "32 word"
  | LE_UNSIGNED_LONG_INTEGER "64 word"
  | LE_UNSIGNED_LONG_LONG_INTEGER "64 word"
  | LE_FLOAT "32 word"
  | LE_DOUBLE "64 word"

datatype log_arg =
    A_char char
  | A_cstr string
  | A_int "32 word"
  | A_long "64 word"
  | A_long_long "64 word"
  | A_unsigned "32 word"
  | A_unsigned_long "64 word"
  | A_unsigned_long_long "64 word"
  | A_float "32 word"
  | A_double "64 word"
  | A_string string

record Logger =
  log_file :: string
  log_queue :: "LogElement LFQueue"
  running :: bool

subsection \<open>Pushing values\<close>

definition pushElement :: "LogElement \<Rightarrow> LogElement LFQueue \<Rightarrow> LogElement LFQueue" where
  "pushElement log_element q = push log_element q"

text \<open>The loop of \<open>pushValue(const char*)\<close> stops at the terminating zero byte.\<close>

fun push_cstr :: "string \<Rightarrow> LogElement LFQueue \<Rightarrow> LogElement LFQueue" where
  "push_cstr [] q = q"
| "push_cstr (c # s) q =
     (if c = CHR 0x00 then q else push_cstr s (pushElement (LE_CHAR c) q))"

fun pushValue :: "log_arg \<Rightarrow> LogElement LFQueue \<Rightarrow> LogElement LFQueue" where
  "pushValue (A_char c) q = pushElement (LE_CHAR c) q"
| "pushValue (A_cstr s) q = push_cstr s q"
| "pushValue (A_int i) q = pushElement (LE_INTEGER i) q"
| "pushValue (A_long l) q = pushElement (LE_LONG_INTEGER l) q"
| "pushValue (A_long_long ll) q = pushElement (LE_LONG_LONG_INTEGER ll) q"
| "pushValue (A_unsigned u) q = pushElement (LE_UNSIGNED_INTEGER u) q"
| "pushValue (A_unsigned_long ul) q = pushElement (LE_UNSIGNED_LONG_INTEGER ul) q"
| "pushValue (A_unsigned_long_long ull) q = pushElement (LE_UNSIGNED_LONG_LONG_INTEGER ull) q"
| "pushValue (A_float f) q = pushElement (LE_FLOAT f) q"
| "pushValue (A_double d) q = pushElement (LE_DOUBLE d) q"
| "pushValue (A_string s) q = push_cstr s q"

subsection \<open>The format string\<close>

text \<open>
  \<open>log(s, args...)\<close>: the two overloads in one recursion over the characters up to the
  terminating zero. With no argument left the overload of src/logger.cpp runs, with some
  left the template of include/logger.h; they treat \<open>%%\<close> and plain characters alike.
\<close>

fun log_fmt :: "string \<Rightarrow> log_arg list \<Rightarrow> LogElement LFQueue \<Rightarrow> LogElement LFQueue res" where
  "log_fmt [] [] q = Inr q"
| "log_fmt [] (a # as) q = FATAL ''extra arguments provided to log()''"
| "log_fmt (c # s) as q =
     (if c = CHR ''%'' then
        (case s of
           d # s' \<Rightarrow>
             if d = CHR ''%'' then log_fmt s' as (pushValue (A_char d) q)
             else (case as of [] \<Rightarrow> FATAL ''missing args to log()''
                   | a # as' \<Rightarrow> log_fmt s as' (pushValue a q))
         | [] \<Rightarrow> (case as of [] \<Rightarrow> FATAL ''missing args to log()''
                   | a # as' \<Rightarrow> log_fmt s as' (pushValue a q)))
      else log_fmt s as (pushValue (A_char c) q))"

text \<open>The overload without arguments by itself.\<close>

fun log_plain :: "string \<Rightarrow> LogElement LFQueue \<Rightarrow> LogElement LFQueue res" where
  "log_plain [] q = Inr q"
| "log_plain (c # s) q =
     (if c = CHR ''%'' then
        (case s of
           d # s' \<Rightarrow> if d = CHR ''%'' then log_plain s' (pushValue (A_char d) q) else FATAL ''missing args to log()''
         | [] \<Rightarrow> FATAL ''missing args to log()'')
      else log_plain s (pushValue (A_char c) q))"

lemma log_fmt_plain: "log_fmt s [] q = log_plain s q"
  by (induction s q rule: log_plain.induct) (auto split: list.splits)

subsection \<open>The logger thread\<close>

fun render :: "(32 word \<Rightarrow> string) \<Rightarrow> (64 word \<Rightarrow> string) \<Rightarrow> LogElement \<Rightarrow> string" where
  "render ff fd (LE_CHAR c) = [c]"
| "render ff fd (LE_INTEGER i) = to_string_int (sint i)"
| "render ff fd (LE_LONG_INTEGER l) = to_string_int (sint l)"
| "render ff fd (LE_LONG_LONG_INTEGER ll) = to_string_int (sint ll)"
| "render ff fd (LE_UNSIGNED_INTEGER u) = to_string_nat (unat u)"
| "render ff fd (LE_UNSIGNED_LONG_INTEGER ul) = to_string_nat (unat ul)"
| "render ff fd (LE_UNSIGNED_LONG_LONG_INTEGER ull) = to_string_nat (unat ull)"
| "render ff fd (LE_FLOAT f) = ff f"
| "render ff fd (LE_DOUBLE d) = fd d"

text \<open>The inner loop of \<open>flushQueue\<close>, with no push in between.\<close>

function drain :: "(32 word \<Rightarrow> string) \<Rightarrow> (64 word \<Rightarrow> string) \<Rightarrow> Logger \<Rightarrow> Logger" where
  "drain ff fd l =
     (case getNextToRead (log_queue l) of
        None \<Rightarrow> l
      | Some i \<Rightarrow>
          if lfq_size (log_queue l) \<noteq> 0
          then drain ff fd (l\<lparr>log_file := log_file l @ render ff fd (q_store (log_queue l) i),
                              log_queue := updataReadIndex (log_queue l)\<rparr>)
          else l)"
  by pat_completeness auto
termination
proof (relation "measure (\<lambda>(ff, fd, l). unat (num_elements (log_queue l)))", simp)
  fix ff fd and l :: Logger and i
  assume "lfq_size (log_queue l) \<noteq> 0"
  then have "num_elements (log_queue l) \<noteq> 0" by (simp add: lfq_size_def)
  moreover from this have "0 < unat (num_elements (log_queue l))" by (simp add: unat_gt_0)
  ultimately show "((ff, fd, l\<lparr>log_file := log_file l @ render ff fd (q_store (log_queue l) i),
      log_queue := updataReadIndex (log_queue l)\<rparr>), (ff, fd, l))
    \<in> measure (\<lambda>(ff, fd, l). unat (num_elements (log_queue l)))"
    by (simp add: unat_minus_one)
qed

declare drain.simps [simp del]

text \<open>One round of \<open>flushQueue\<close>: the guard of its outer loop, then the inner loop.\<close>

definition flush_round :: "(32 word \<Rightarrow> string) \<Rightarrow> (64 word \<Rightarrow> string) \<Rightarrow> Logger \<Rightarrow> Logger" where
  "flush_round ff fd l = (if running l then drain ff fd l else l)"

text \<open>The constructor: an open, empty file and an empty queue of \<open>LOG_QUEUE_SIZE\<close>.\<close>

definition newLogger :: "Logger" where
  "newLogger = \<lparr>log_file = [], log_queue = LFQueue LOG_QUEUE_SIZE (LE_CHAR (CHR 0x00)), running = True\<rparr>"

subsection \<open>What a format string means\<close>

text \<open>
  The specification of \<open>log\<close>, in two phases: cut the format into characters and holes,
  then fill the holes with the elements of the arguments.
\<close>

datatype fmt_token = Tok_char char | Tok_hole

fun tokens :: "string \<Rightarrow> fmt_token list" where
  "tokens [] = []"
| "tokens (c # s) =
     (if c \<noteq> CHR ''%'' then Tok_char c # tokens s
      else case s of
        d # s' \<Rightarrow> if d = CHR ''%'' then Tok_char d # tokens s' else Tok_hole # tokens s
      | [] \<Rightarrow> [Tok_hole])"

definition holes :: "string \<Rightarrow> nat" where
  "holes s = length (filter (\<lambda>t. t = Tok_hole) (tokens s))"

definition c_string :: "string \<Rightarrow> string" where
  "c_string s = takeWhile (\<lambda>c. c \<noteq> CHR 0x00) s"

fun elements :: "log_arg \<Rightarrow> LogElement list" where
  "elements (A_char c) = [LE_CHAR c]"
| "elements (A_cstr s) = map LE_CHAR (c_string s)"
| "elements (A_int i) = [LE_INTEGER i]"
| "elements (A_long l) = [LE_LONG_INTEGER l]"
| "elements (A_long_long ll) = [LE_LONG_LONG_INTEGER ll]"
| "elements (A_unsigned u) = [LE_UNSIGNED_INTEGER u]"
| "elements (A_unsigned_long ul) = [LE_UNSIGNED_LONG_INTEGER ul]"
| "elements (A_unsigned_long_long ull) = [LE_UNSIGNED_LONG_LONG_INTEGER ull]"
| "elements (A_float f) = [LE_FLOAT f]"
| "elements (A_double d) = [LE_DOUBLE d]"
| "elements (A_string s) = map LE_CHAR (c_string s)"

fun fill :: "fmt_token list \<Rightarrow> log_arg list \<Rightarrow> LogElement list" where
  "fill [] as = []"
| "fill (Tok_char c # ts) as = LE_CHAR c # fill ts as"
| "fill (Tok_hole # ts) [] = []"
| "fill (Tok_hole # ts) (a # as) = elements a @ fill ts as"

lemma push_cstr_elements: "push_cstr s q = push_list push (map LE_CHAR (c_string s)) q"
  by (induction s arbitrary: q) (auto simp: c_string_def pushElement_def)

lemma pushValue_elements: "pushValue a q = push_list push (elements a) q"
  by (cases a) (auto simp: push_cstr_elements pushElement_def)

lemma holes_simps [simp]:
  "holes [] = 0"
  "c \<noteq> CHR ''%'' \<Longrightarrow> holes (c # s) = holes s"
  "holes [CHR ''%''] = 1"
  "holes (CHR ''%'' # CHR ''%'' # s) = holes s"
  "d \<noteq> CHR ''%'' \<Longrightarrow> holes (CHR ''%'' # d # s) = Suc (holes (d # s))"
  by (simp_all add: holes_def)

lemma log_fmt_spec:
  "log_fmt s as q =
     (if holes s = length as then Inr (push_list push (fill (tokens s) as) q)
      else if length as < holes s then FATAL ''missing args to log()''
      else FATAL ''extra arguments provided to log()'')"
proof (induction s as q rule: log_fmt.induct)
  case (3 c s as q)
  show ?case
  proof (cases "c = CHR ''%''")
    case False
    with 3 show ?thesis by (simp add: pushElement_def)
  next
    case pc: True
    show ?thesis
    proof (cases "\<exists>s'. s = CHR ''%'' # s'")
      case True
      with 3 pc show ?thesis by (auto simp: pushElement_def)
    next
      case False
      then have h: "holes (c # s) = Suc (holes s)" "tokens (c # s) = Tok_hole # tokens s"
        using pc by (auto simp: neq_Nil_conv split: list.splits) (cases s; auto)+
      have l: "log_fmt (c # s) as q = (case as of [] \<Rightarrow> FATAL ''missing args to log()''
          | a # as' \<Rightarrow> log_fmt s as' (pushValue a q))"
        using pc False by (auto split: list.splits)
      show ?thesis
      proof (cases as)
        case Nil
        then show ?thesis unfolding l h by simp
      next
        case (Cons a as')
        have "log_fmt s as' (pushValue a q) =
          (if holes s = length as' then Inr (push_list push (fill (tokens s) as') (pushValue a q))
           else if length as' < holes s then FATAL ''missing args to log()''
           else FATAL ''extra arguments provided to log()'')"
          using pc False Cons 3 by (cases s) auto
        then show ?thesis unfolding l h by (simp add: Cons push_list_append pushValue_elements)
      qed
    qed
  qed
qed simp_all

subsection \<open>What the logger thread writes\<close>

definition render_all :: "(32 word \<Rightarrow> string) \<Rightarrow> (64 word \<Rightarrow> string) \<Rightarrow> LogElement list \<Rightarrow> string" where
  "render_all ff fd es = concat (map (render ff fd) es)"

lemma drain_ok:
  "lfq_ok (log_queue l) \<Longrightarrow>
   log_file (drain ff fd l) = log_file l @ render_all ff fd (items (log_queue l)) \<and>
   items (log_queue (drain ff fd l)) = [] \<and> lfq_ok (log_queue (drain ff fd l)) \<and>
   running (drain ff fd l) = running l \<and> usable (log_queue (drain ff fd l)) = usable (log_queue l)"
proof (induction ff fd l rule: drain.induct)
  case (1 ff fd l)
  let ?q = "log_queue l"
  show ?case
  proof (cases "items ?q")
    case Nil
    with 1 have "getNextToRead ?q = None" by (simp add: getNextToRead_ok)
    with Nil 1 show ?thesis by (simp add: drain.simps [of ff fd l] render_all_def)
  next
    case (Cons e es)
    let ?l = "l\<lparr>log_file := log_file l @ render ff fd e, log_queue := updataReadIndex ?q\<rparr>"
    from Cons 1 have r: "getNextToRead ?q = Some (next_read_index ?q)" "q_store ?q (next_read_index ?q) = e"
      using hd_items [of ?q] by (auto simp: getNextToRead_ok lfq_ok_def)
    from Cons have "0 < unat (num_elements ?q)" by (metis length_greater_0_conv length_items list.discI)
    moreover from this have n: "lfq_size ?q \<noteq> 0" by (auto simp: lfq_size_def)
    ultimately have q: "lfq_ok (updataReadIndex ?q)" "items (updataReadIndex ?q) = es"
      using Cons 1 pop_inv [of ?q] by (auto simp: lfq_ok_def)
    have "drain ff fd l = drain ff fd ?l" by (subst drain.simps) (simp add: r n)
    with 1 r n q Cons show ?thesis by (auto simp: render_all_def)
  qed
qed

text \<open>
  What printing the whole call puts into the file: the format with every hole replaced by
  the text of its argument.
\<close>

definition log_text :: "(32 word \<Rightarrow> string) \<Rightarrow> (64 word \<Rightarrow> string) \<Rightarrow> string \<Rightarrow> log_arg list \<Rightarrow> string" where
  "log_text ff fd s as = render_all ff fd (fill (tokens s) as)"

subsection \<open>Properties\<close>

text \<open>
  C22: \<open>log\<close> against its specification, on every input. It returns exactly if the format
  has as many holes as there are arguments, and then it has pushed the characters of the
  format (\<open>%%\<close> as one \<open>%\<close>) with each hole replaced by the elements of its argument; with
  too few or too many arguments the process ends with the matching message.
\<close>

theorem log_fmt_correct:
  "log_fmt s as q =
     (if holes s = length as then Inr (push_list push (fill (tokens s) as) q)
      else if length as < holes s then Inl (Fatal ''missing args to log()'')
      else Inl (Fatal ''extra arguments provided to log()''))"
  by (simp add: log_fmt_spec FATAL_def)

text \<open>
  From the call to the file. If the ring has room for the elements of a well-formed
  call, the next round of the running logger thread writes what was pending and then
  exactly the formatted text, and leaves the queue empty.
\<close>

lemma log_reaches_file:
  assumes "lfq_ok (log_queue l)" "running l" "holes s = length as"
    and "length (items (log_queue l)) + length (fill (tokens s) as) \<le> usable (log_queue l)"
  shows "\<exists>q. log_fmt s as (log_queue l) = Inr q \<and>
    log_file (flush_round ff fd (l\<lparr>log_queue := q\<rparr>)) =
      log_file l @ render_all ff fd (items (log_queue l)) @ log_text ff fd s as \<and>
    items (log_queue (flush_round ff fd (l\<lparr>log_queue := q\<rparr>))) = []"
proof -
  let ?q = "push_list push (fill (tokens s) as) (log_queue l)"
  have "lfq_ok ?q" "items ?q = items (log_queue l) @ fill (tokens s) as"
    using lfq.push_list_contents [OF assms(1,4)] by auto
  with drain_ok [of "l\<lparr>log_queue := ?q\<rparr>" ff fd] assms(2,3) show ?thesis
    by (intro exI [of _ ?q]) (simp add: log_fmt_spec flush_round_def log_text_def render_all_def)
qed

text \<open>
  The blind spot of the logger. Once the ring is exactly full (\<open>LOG_QUEUE_SIZE\<close>
  elements pushed and none written) no round of the logger thread writes anything: the
  reader is told the queue is empty while \<open>size()\<close> stays positive, so the wait of the
  destructor for an empty queue never ends.
\<close>

lemma full_logger_never_drains:
  assumes "lfq_inv (log_queue l)" "unat (num_elements (log_queue l)) = q_size (log_queue l)"
  shows "(flush_round ff fd ^^ k) l = l \<and> lfq_size (log_queue ((flush_round ff fd ^^ k) l)) \<noteq> 0"
proof -
  have "getNextToRead (log_queue l) = None" by (rule getNextToRead_full [OF assms])
  then have "flush_round ff fd l = l" by (simp add: flush_round_def drain.simps [of ff fd l])
  then have "(flush_round ff fd ^^ k) l = l" by (induction k) simp_all
  moreover have "num_elements (log_queue l) \<noteq> 0" using assms by (auto simp: lfq_inv_def)
  ultimately show ?thesis by (simp add: lfq_size_def)
qed

end
