(* ===== verification/Messages.thy ===== *)
theory Messages
  imports Base_Types
begin

text \<open>
  include/client_request.h, include/client_response.h and include/market_update.h: what
  travels between the order server, the matching engine and the market data publisher.
  The packed structs are records; a default-constructed message has every field at its
  reserved value. The printers of the enums return \<open>UNKNOWN\<close> for the values that have no name,
  which a message read from outside can hold.
\<close>

datatype ClientRequestType = Req_INVALID | Req_NEW | Req_CANCEL | Req_UNLISTED "8 word"

fun clientRequestTypeToString :: "ClientRequestType \<Rightarrow> string" where
  "clientRequestTypeToString Req_NEW = ''NEW''"
| "clientRequestTypeToString Req_CANCEL = ''CANCEL''"
| "clientRequestTypeToString Req_INVALID = ''INVALID''"
| "clientRequestTypeToString (Req_UNLISTED _) = ''UNKNOWN''"

record MEClientRequest =
  rq_type :: ClientRequestType
  rq_client_id :: ClientId
  rq_ticker_id :: TickerId
  rq_order_id :: OrderId
  rq_side :: Side
  rq_price :: Price
  rq_quantity :: Quantity

definition defaultRequest :: MEClientRequest where
  "defaultRequest = \<lparr>rq_type = Req_INVALID, rq_client_id = ClientId_INVALID,
     rq_ticker_id = TickerId_INVALID, rq_order_id = OrderId_INVALID, rq_side = Side_INVALID,
     rq_price = Price_INVALID, rq_quantity = Quantity_INVALID\<rparr>"

definition requestToString :: "MEClientRequest \<Rightarrow> string" where
  "requestToString r = ''MEClientRequest'' @ '' ['' @
     ''type:'' @ clientRequestTypeToString (rq_type r) @
     '' client:'' @ clientIdToString (rq_client_id r) @
     '' ticker:'' @ tickerIdToString (rq_ticker_id r) @
     '' oid:'' @ orderIdToString (rq_order_id r) @
     '' side:'' @ sideToString (rq_side r) @
     '' qty:'' @ qtyToString (rq_quantity r) @
     '' price:'' @ priceToString (rq_price r) @ '']''"

datatype ClientResponseType =
  Resp_INVALID | Resp_ACCEPTED | Resp_CANCELED | Resp_FILLED | Resp_CANCEL_REJECTED | Resp_UNLISTED "8 word"

fun clientResponseTypeToString :: "ClientResponseType \<Rightarrow> string" where
  "clientResponseTypeToString Resp_ACCEPTED = ''ACCEPTED''"
| "clientResponseTypeToString Resp_CANCELED = ''CANCELED''"
| "clientResponseTypeToString Resp_FILLED = ''FILLED''"
| "clientResponseTypeToString Resp_CANCEL_REJECTED = ''CANCEL_REJECTED''"
| "clientResponseTypeToString Resp_INVALID = ''INVALID''"
| "clientResponseTypeToString (Resp_UNLISTED _) = ''UNKNOWN''"

record MEClientResponse =
  rs_type :: ClientResponseType
  rs_client_id :: ClientId
  rs_ticker_id :: TickerId
  rs_client_order_id :: OrderId
  rs_market_order_id :: OrderId
  rs_side :: Side
  rs_price :: Price
  rs_exec_qty :: Quantity
  rs_left_qty :: Quantity

definition defaultResponse :: MEClientResponse where
  "defaultResponse = \<lparr>rs_type = Resp_INVALID, rs_client_id = ClientId_INVALID,
     rs_ticker_id = TickerId_INVALID, rs_client_order_id = OrderId_INVALID,
     rs_market_order_id = OrderId_INVALID, rs_side = Side_INVALID, rs_price = Price_INVALID,
     rs_exec_qty = Quantity_INVALID, rs_left_qty = Quantity_INVALID\<rparr>"

text \<open>The constructor with all fields, in the order of its parameters.\<close>

definition mkResponse :: "ClientResponseType \<Rightarrow> ClientId \<Rightarrow> TickerId \<Rightarrow> OrderId \<Rightarrow> OrderId \<Rightarrow> Side \<Rightarrow>
    Price \<Rightarrow> Quantity \<Rightarrow> Quantity \<Rightarrow> MEClientResponse" where
  "mkResponse type client_id ticker_id client_order_id market_order_id side price exec_qty left_qty =
     \<lparr>rs_type = type, rs_client_id = client_id, rs_ticker_id = ticker_id,
      rs_client_order_id = client_order_id, rs_market_order_id = market_order_id,
      rs_side = side, rs_price = price, rs_exec_qty = exec_qty, rs_left_qty = left_qty\<rparr>"

definition responseToString :: "MEClientResponse \<Rightarrow> string" where
  "responseToString r = ''MEClientResponse'' @ '' ['' @
     ''type:'' @ clientResponseTypeToString (rs_type r) @
     '' client:'' @ clientIdToString (rs_client_id r) @
     '' ticker:'' @ tickerIdToString (rs_ticker_id r) @
     '' coid:'' @ orderIdToString (rs_client_order_id r) @
     '' moid:'' @ orderIdToString (rs_market_order_id r) @
     '' side:'' @ sideToString (rs_side r) @
     '' exec_qty:'' @ qtyToString (rs_exec_qty r) @
     '' left_qty:'' @ qtyToString (rs_left_qty r) @
     '' price:'' @ priceToString (rs_price r) @ '']''"

datatype MarketUpdateType = Upd_INVALID | Upd_ADD | Upd_MODIFY | Upd_CANCEL | Upd_TRADE | Upd_UNLISTED "8 word"

fun marketUpdateTypeToString :: "MarketUpdateType \<Rightarrow> string" where
  "marketUpdateTypeToString Upd_ADD = ''ADD''"
| "marketUpdateTypeToString Upd_MODIFY = ''MODIFY''"
| "marketUpdateTypeToString Upd_CANCEL = ''CANCEL''"
| "marketUpdateTypeToString Upd_TRADE = ''TRADE''"
| "marketUpdateTypeToString Upd_INVALID = ''INVALID''"
| "marketUpdateTypeToString (Upd_UNLISTED _) = ''UNKNOWN''"

record MEMarketUpdate =
  mu_type :: MarketUpdateType
  mu_order_id :: OrderId
  mu_ticker_id :: TickerId
  mu_side :: Side
  mu_price :: Price
  mu_quantity :: Quantity
  mu_priority :: Priority

definition defaultUpdate :: MEMarketUpdate where
  "defaultUpdate = \<lparr>mu_type = Upd_INVALID, mu_order_id = OrderId_INVALID,
     mu_ticker_id = TickerId_INVALID, mu_side = Side_INVALID, mu_price = Price_INVALID,
     mu_quantity = Quantity_INVALID, mu_priority = Priority_INVALID\<rparr>"

definition mkUpdate :: "MarketUpdateType \<Rightarrow> OrderId \<Rightarrow> TickerId \<Rightarrow> Side \<Rightarrow> Price \<Rightarrow> Quantity \<Rightarrow> Priority \<Rightarrow>
    MEMarketUpdate" where
  "mkUpdate type order_id ticker_id side price quantity priority =
     \<lparr>mu_type = type, mu_order_id = order_id, mu_ticker_id = ticker_id, mu_side = side,
      mu_price = price, mu_quantity = quantity, mu_priority = priority\<rparr>"

definition updateToString :: "MEMarketUpdate \<Rightarrow> string" where
  "updateToString u = ''MEMarketUpdate'' @ '' ['' @
     '' type:'' @ marketUpdateTypeToString (mu_type u) @
     '' ticker:'' @ tickerIdToString (mu_ticker_id u) @
     '' oid:'' @ orderIdToString (mu_order_id u) @
     '' side:'' @ sideToString (mu_side u) @
     '' qty:'' @ qtyToString (mu_quantity u) @
     '' price:'' @ priceToString (mu_price u) @
     '' priority:'' @ priorityToString (mu_priority u) @ '']''"

lemmas message_defs = mkResponse_def mkUpdate_def

end
