(* ===== verification/Layout.thy ===== *)
theory Layout
  imports Messages
begin

text \<open>
  Where the compiler puts the members of structs and unions, on the 64-bit Linux targets of the
  build: each at the next multiple of its alignment, which \<open>#pragma pack(n)\<close> caps at \<open>n\<close>. The
  structs are those of the messages (client_request.h, client_response.h, market_update.h),
  which are packed, and those of the notes under src/preknown that print sizes and offsets.
\<close>

subsection \<open>Sizes, alignments, offsets\<close>

datatype scalar = T_char | T_int8 | T_uint8 | T_int16 | T_uint16 | T_int | T_uint32 | T_int64 | T_uint64 | T_double

fun scalar_size :: "scalar \<Rightarrow> nat" where
  "scalar_size T_char = 1"
| "scalar_size T_int8 = 1"
| "scalar_size T_uint8 = 1"
| "scalar_size T_int16 = 2"
| "scalar_size T_uint16 = 2"
| "scalar_size T_int = 4"
| "scalar_size T_uint32 = 4"
| "scalar_size T_int64 = 8"
| "scalar_size T_uint64 = 8"
| "scalar_size T_double = 8"

text \<open>The first argument of a struct or union is the value of \<open>#pragma pack\<close> in force.\<close>

datatype ctype = Scalar scalar | Struct "nat option" "(string \<times> ctype) list" | Union "nat option" "(string \<times> ctype) list"

fun capped :: "nat option \<Rightarrow> nat \<Rightarrow> nat" where
  "capped None a = a"
| "capped (Some k) a = min k a"

definition round_up :: "nat \<Rightarrow> nat \<Rightarrow> nat" where
  "round_up x a = (x + a - 1) div a * a"

fun align_of :: "ctype \<Rightarrow> nat" and aligns :: "nat option \<Rightarrow> (string \<times> ctype) list \<Rightarrow> nat" where
  "align_of (Scalar s) = scalar_size s"
| "align_of (Struct p fs) = aligns p fs"
| "align_of (Union p fs) = aligns p fs"
| "aligns p [] = 1"
| "aligns p ((n, t) # fs) = max (capped p (align_of t)) (aligns p fs)"

fun size_of :: "ctype \<Rightarrow> nat" and struct_end :: "nat option \<Rightarrow> nat \<Rightarrow> (string \<times> ctype) list \<Rightarrow> nat"
  and union_end :: "(string \<times> ctype) list \<Rightarrow> nat" where
  "size_of (Scalar s) = scalar_size s"
| "size_of (Struct p fs) = max 1 (round_up (struct_end p 0 fs) (aligns p fs))"
| "size_of (Union p fs) = max 1 (round_up (union_end fs) (aligns p fs))"
| "struct_end p e [] = e"
| "struct_end p e ((n, t) # fs) = struct_end p (round_up e (capped p (align_of t)) + size_of t) fs"
| "union_end [] = 0"
| "union_end ((n, t) # fs) = max (size_of t) (union_end fs)"

fun offsets :: "nat option \<Rightarrow> nat \<Rightarrow> (string \<times> ctype) list \<Rightarrow> nat list" where
  "offsets p e [] = []"
| "offsets p e ((n, t) # fs) =
     (let x = round_up e (capped p (align_of t)) in x # offsets p (x + size_of t) fs)"

fun offset_of :: "ctype \<Rightarrow> string \<Rightarrow> nat option" where
  "offset_of (Struct p fs) n = map_of (zip (map fst fs) (offsets p 0 fs)) n"
| "offset_of (Union p fs) n = (if n \<in> fst ` set fs then Some 0 else None)"
| "offset_of (Scalar s) n = None"

subsection \<open>What a layout promises\<close>

text \<open>
  Every member starts at the first multiple of its alignment behind the member before it; the
  size is the first multiple of the alignment of the whole that holds them all.
\<close>

definition least_multiple :: "nat \<Rightarrow> nat \<Rightarrow> nat \<Rightarrow> bool" where
  "least_multiple a e x \<longleftrightarrow> e \<le> x \<and> x < e + a \<and> a dvd x"

fun laid :: "nat option \<Rightarrow> nat \<Rightarrow> (string \<times> ctype) list \<Rightarrow> nat list \<Rightarrow> nat \<Rightarrow> bool" where
  "laid p e [] [] z \<longleftrightarrow> z = e"
| "laid p e ((n, t) # fs) (x # xs) z \<longleftrightarrow> least_multiple (capped p (align_of t)) e x \<and> laid p (x + size_of t) fs xs z"
| "laid p e _ _ z \<longleftrightarrow> False"

fun well_laid :: "ctype \<Rightarrow> bool" where
  "well_laid (Struct p fs) \<longleftrightarrow> (\<exists>z. laid p 0 fs (offsets p 0 fs) z \<and> least_multiple (align_of (Struct p fs)) z (size_of (Struct p fs)))"
| "well_laid (Union p fs) \<longleftrightarrow> least_multiple (align_of (Union p fs)) (union_end fs) (size_of (Union p fs))"
| "well_laid (Scalar s) \<longleftrightarrow> True"

definition members :: "ctype \<Rightarrow> ctype list" where
  "members t = (case t of Struct p fs \<Rightarrow> map snd fs | Union p fs \<Rightarrow> map snd fs | Scalar s \<Rightarrow> [])"

definition unpadded :: "ctype \<Rightarrow> bool" where
  "unpadded t \<longleftrightarrow> size_of t = sum_list (map size_of (members t))"

lemma scalar_size_pos: "0 < scalar_size s"
  by (cases s) simp_all

lemma aligns_pos: "0 < aligns p fs"
  by (induction fs) (auto simp: less_max_iff_disj)

lemma align_pos: "0 < align_of t"
  by (cases t) (simp_all add: aligns_pos scalar_size_pos)

lemma capped_pos: "p \<noteq> Some 0 \<Longrightarrow> 0 < capped p (align_of t)"
  using align_pos by (cases p) auto

lemma round_up_least:
  assumes "0 < a"
  shows "least_multiple a e (round_up e a)"
proof -
  let ?q = "(e + a - 1) div a"
  have "a * ?q + (e + a - 1) mod a = e + a - 1" by (rule mult_div_mod_eq)
  moreover have "(e + a - 1) mod a < a" using assms by simp
  ultimately have "e \<le> a * ?q" "a * ?q < e + a" using assms by linarith+
  then show ?thesis by (simp add: least_multiple_def round_up_def mult.commute)
qed

lemma offsets_laid: "p \<noteq> Some 0 \<Longrightarrow> laid p e fs (offsets p e fs) (struct_end p e fs)"
  by (induction p e fs rule: offsets.induct) (auto simp: Let_def round_up_least capped_pos)

lemma size_pos: "0 < size_of t"
  by (cases t) (simp_all add: scalar_size_pos)

lemma struct_end_pos: "p \<noteq> Some 0 \<Longrightarrow> e \<le> struct_end p e fs" "p \<noteq> Some 0 \<Longrightarrow> fs \<noteq> [] \<Longrightarrow> 0 < struct_end p e fs"
proof -
  have step: "e < round_up e (capped p (align_of t)) + size_of t" if "p \<noteq> Some 0" for p e t
    using round_up_least [OF capped_pos [OF that, of t], of e] size_pos [of t] by (simp add: least_multiple_def)
  show le: "e \<le> struct_end p e fs" if "p \<noteq> Some 0" for p e fs
    using that
  proof (induction fs arbitrary: e)
    case (Cons f fs)
    obtain n t where f: "f = (n, t)" by (cases f)
    show ?case
      using Cons.IH [OF Cons.prems, of "round_up e (capped p (align_of t)) + size_of t"] step [OF Cons.prems, of e t]
      by (simp add: f)
  qed simp
  show "0 < struct_end p e fs" if "p \<noteq> Some 0" "fs \<noteq> []"
  proof -
    note ne = that(2)
    obtain n t gs where fs: "fs = (n, t) # gs" using ne by (cases fs) auto
    show ?thesis
      using step [OF that(1), of e t] le [OF that(1), of "round_up e (capped p (align_of t)) + size_of t" gs] by (simp add: fs)
  qed
qed

lemma round_up_pos: "0 < a \<Longrightarrow> 0 < e \<Longrightarrow> max (Suc 0) (round_up e a) = round_up e a"
  using round_up_least [of a e] by (simp add: least_multiple_def)

lemma struct_well_laid: "p \<noteq> Some 0 \<Longrightarrow> fs \<noteq> [] \<Longrightarrow> well_laid (Struct p fs)"
  using offsets_laid [of p 0 fs] round_up_least [OF aligns_pos, where e = "struct_end p 0 fs"] struct_end_pos(2) [of p fs 0]
  by (auto simp: round_up_pos aligns_pos intro!: exI [of _ "struct_end p 0 fs"])

lemma union_well_laid: "fs \<noteq> [] \<Longrightarrow> well_laid (Union p fs)"
proof -
  assume "fs \<noteq> []"
  then have "0 < union_end fs" using size_pos by (cases fs) (auto simp: less_max_iff_disj)
  then show ?thesis using round_up_least [OF aligns_pos, where e = "union_end fs"] by (simp add: round_up_pos aligns_pos)
qed

text \<open>A class with one member, or one base, is as large as that.\<close>

lemma size_multiple: "well_laid t \<Longrightarrow> align_of t dvd size_of t"
  by (cases t) (auto simp: least_multiple_def)

lemma round_up_id: "0 < a \<Longrightarrow> a dvd x \<Longrightarrow> round_up x a = x"
proof -
  assume a: "0 < a" "a dvd x"
  from round_up_least [OF a(1), of x] have "x \<le> round_up x a" "round_up x a < x + a" "a dvd round_up x a"
    by (simp_all add: least_multiple_def)
  moreover from this a(2) have "a dvd round_up x a - x" by simp
  ultimately show ?thesis using nat_dvd_not_less [of "round_up x a - x" a] by linarith
qed

lemma wrapper_size: "well_laid t \<Longrightarrow> size_of (Struct None [(n, t)]) = size_of t"
  using size_multiple [of t] size_pos [of t] align_pos [of t] round_up_id [of "align_of t" 0] scalar_size_pos
  by (auto simp: round_up_id max_def)

text \<open>Packed to one byte there is no padding at all.\<close>

lemma round_up_1 [simp]: "round_up e (Suc 0) = e"
  by (simp add: round_up_def)

lemma capped_1 [simp]: "min (Suc 0) (align_of t) = Suc 0"
  using align_pos [of t] by simp

lemma packed_aligns [simp]: "aligns (Some (Suc 0)) fs = Suc 0"
  by (induction fs) auto

lemma packed_end [simp]: "struct_end (Some (Suc 0)) e fs = e + sum_list (map (size_of \<circ> snd) fs)"
  by (induction fs arbitrary: e) auto

lemma packed_size: "size_of (Struct (Some 1) fs) = max 1 (sum_list (map (size_of \<circ> snd) fs))"
  by simp

subsection \<open>The messages\<close>

definition request_struct :: "nat option \<Rightarrow> ctype" where
  "request_struct pack = Struct pack [(''type_'', Scalar T_uint8), (''client_id_'', Scalar T_uint32),
     (''ticker_id_'', Scalar T_uint32), (''order_id_'', Scalar T_uint64), (''side_'', Scalar T_int8),
     (''price_'', Scalar T_int64), (''quantity_'', Scalar T_uint32)]"

definition response_struct :: "nat option \<Rightarrow> ctype" where
  "response_struct pack = Struct pack [(''type_'', Scalar T_uint8), (''client_id_'', Scalar T_uint32),
     (''ticker_id_'', Scalar T_uint32), (''client_order_id_'', Scalar T_uint64),
     (''market_order_id_'', Scalar T_uint64), (''side_'', Scalar T_int8), (''price_'', Scalar T_int64),
     (''exec_qty_'', Scalar T_uint32), (''left_qty_'', Scalar T_uint32)]"

definition update_struct :: "nat option \<Rightarrow> ctype" where
  "update_struct pack = Struct pack [(''type_'', Scalar T_uint8), (''order_id_'', Scalar T_uint64),
     (''ticker_id_'', Scalar T_uint32), (''side_'', Scalar T_int8), (''price_'', Scalar T_int64),
     (''quantity_'', Scalar T_uint32), (''priority_'', Scalar T_uint64)]"

subsection \<open>The notes\<close>

definition newline :: string where
  "newline = [CHR 0x0A]"

text \<open>alignment.cpp: three structs with the same members, and what the program prints of them.\<close>

definition PoorlyAligned :: ctype where
  "PoorlyAligned = Struct None [(''a'', Scalar T_char), (''b'', Scalar T_uint16), (''c'', Scalar T_double), (''d'', Scalar T_int16)]"

definition WellAligned :: ctype where
  "WellAligned = Struct None [(''c'', Scalar T_double), (''d'', Scalar T_int16), (''b'', Scalar T_uint16), (''a'', Scalar T_char)]"

definition Packed :: ctype where
  "Packed = Struct (Some 1) [(''a'', Scalar T_char), (''b'', Scalar T_uint16), (''c'', Scalar T_double), (''d'', Scalar T_int16)]"

definition print_layout :: "string \<Rightarrow> ctype \<Rightarrow> string" where
  "print_layout name t =
     ''offset a '' @ to_string_nat (the (offset_of t ''a'')) @ '', offset b '' @ to_string_nat (the (offset_of t ''b'')) @
     '', offset c '' @ to_string_nat (the (offset_of t ''c'')) @ '', offset d '' @ to_string_nat (the (offset_of t ''d'')) @
     newline @ '' size of '' @ name @ '' '' @ to_string_nat (size_of t) @ newline"

definition alignment_main :: string where
  "alignment_main = print_layout ''PoorlyAligned'' PoorlyAligned @ print_layout ''WellAligned'' WellAligned @
     print_layout ''Packed'' Packed"

text \<open>pack.cpp: packed and unpacked structs of packed and unpacked unions.\<close>

definition pack_A :: ctype where
  "pack_A = Union (Some 1) [(''i'', Scalar T_int), (''c'', Scalar T_char)]"

definition pack_B :: ctype where
  "pack_B = Struct (Some 1) [(''a'', pack_A), (''c'', Scalar T_char)]"

definition pack_AA :: ctype where
  "pack_AA = Union None [(''i'', Scalar T_int), (''c'', Scalar T_char)]"

definition pack_BB :: ctype where
  "pack_BB = Struct None [(''a'', pack_AA), (''c'', Scalar T_char)]"

definition pack_BBB :: ctype where
  "pack_BBB = Struct None [(''a'', pack_A), (''c'', Scalar T_char)]"

definition pack_BBBB :: ctype where
  "pack_BBBB = Struct (Some 1) [(''a'', pack_AA), (''c'', Scalar T_char)]"

definition pack_main :: string where
  "pack_main = to_string_nat (size_of pack_B) @ '' '' @ to_string_nat (size_of pack_BB) @ '' '' @
     to_string_nat (size_of pack_BBB) @ '' '' @ to_string_nat (size_of pack_BBBB) @ newline"

text \<open>
  address.cpp: where the elements of a vector lie. The address of the first one and the text of
  an address are arguments.
\<close>

definition address_Obj :: ctype where
  "address_Obj = Struct None [(''x'', Scalar T_int16), (''y'', Scalar T_int)]"

definition element_address :: "64 word \<Rightarrow> ctype \<Rightarrow> nat \<Rightarrow> 64 word" where
  "element_address base t i = base + of_nat (i * size_of t)"

definition pointer_difference :: "ctype \<Rightarrow> 64 word \<Rightarrow> 64 word \<Rightarrow> int" where
  "pointer_difference t p q = sint (p - q) div int (size_of t)"

definition address_main :: "(64 word \<Rightarrow> string) \<Rightarrow> 64 word \<Rightarrow> string" where
  "address_main hex base =
     (let p = element_address base address_Obj 3; q = element_address base address_Obj 0 in
      to_string_nat (size_of address_Obj) @ newline @ hex p @ '' '' @ hex q @ newline @
      to_string_int (pointer_difference address_Obj p q) @ newline)"

text \<open>
  composition.cpp: a class derived from a vector and one that has a vector are laid out like
  the vector, whose own layout is an argument.
\<close>

definition composition_Order :: ctype where
  "composition_Order = Struct None [(''id'', Scalar T_int), (''price'', Scalar T_double)]"

definition InheritanceOrderBook :: "ctype \<Rightarrow> ctype" where
  "InheritanceOrderBook vec = Struct None [(''std::vector<Order>'', vec)]"

definition CompositionOrderBook :: "ctype \<Rightarrow> ctype" where
  "CompositionOrderBook vec = Struct None [(''orders'', vec)]"

definition composition_main :: "ctype \<Rightarrow> string" where
  "composition_main vec =
     ''InheritanceOrderBook::size '' @ to_string_nat (size_of (InheritanceOrderBook vec)) @
     '', CompositionOrderBook::size '' @ to_string_nat (size_of (CompositionOrderBook vec)) @ newline @
     ''std::vector<Order>::size '' @ to_string_nat (size_of vec) @ newline @
     ''Order size '' @ to_string_nat (size_of composition_Order) @ newline @
     ''int size '' @ to_string_nat (scalar_size T_int) @ '', double size '' @ to_string_nat (scalar_size T_double) @ newline"

text \<open>rvo.cpp: a struct returned by value; the double is kept as its bits.\<close>

record RVO =
  rvo_a :: "32 word"
  rvo_b :: char
  rvo_c :: "64 word"

definition createRVO :: "32 word \<Rightarrow> char \<Rightarrow> 64 word \<Rightarrow> RVO" where
  "createRVO a b c = \<lparr>rvo_a = a, rvo_b = b, rvo_c = c\<rparr>"

text \<open>
  crtp.cpp and runtime.cpp: a call through the base class, bound by the template argument in
  the first and by the dynamic type of the object in the second.
\<close>

definition Derived_placeHolderImpl :: string where
  "Derived_placeHolderImpl = ''Derived::placeHolderImpl'' @ newline"

definition Base_placeHolder :: "string \<Rightarrow> string" where
  "Base_placeHolder impl = impl"

definition crtp_main :: string where
  "crtp_main = Base_placeHolder Derived_placeHolderImpl"

datatype dynamic_type = Dyn_Base | Dyn_Derived

fun virtual_placeHolder :: "dynamic_type \<Rightarrow> string" where
  "virtual_placeHolder Dyn_Base = ''Base::placeHolder'' @ newline"
| "virtual_placeHolder Dyn_Derived = ''Derived::placeHolder'' @ newline"

definition runtime_main :: string where
  "runtime_main = (let basePtr = Dyn_Derived in virtual_placeHolder basePtr)"

subsection \<open>What the notes print\<close>

lemma notes_print:
  "alignment_main =
     ''offset a 0, offset b 2, offset c 8, offset d 16'' @ newline @ '' size of PoorlyAligned 24'' @ newline @
     ''offset a 12, offset b 10, offset c 0, offset d 8'' @ newline @ '' size of WellAligned 16'' @ newline @
     ''offset a 0, offset b 1, offset c 3, offset d 11'' @ newline @ '' size of Packed 13'' @ newline"
  "pack_main = ''5 8 5 5'' @ newline"
  "crtp_main = ''Derived::placeHolderImpl'' @ newline"
  "runtime_main = ''Derived::placeHolder'' @ newline"
  by code_simp+

text \<open>The distance of two elements, in elements: exact unless the address wraps.\<close>

lemma address_print:
  "address_main hex base = ''8'' @ newline @ hex (base + 24) @ '' '' @ hex base @ newline @ ''3'' @ newline"
proof -
  have "size_of address_Obj = 8" by code_simp
  moreover have "to_string_nat 8 = ''8''" "to_string_int 3 = ''3''" by code_simp+
  ultimately show ?thesis by (simp add: address_main_def element_address_def pointer_difference_def)
qed

lemma composition_print:
  assumes "well_laid vec" "size_of vec = 24"
  shows "composition_main vec = ''InheritanceOrderBook::size 24, CompositionOrderBook::size 24'' @ newline @
    ''std::vector<Order>::size 24'' @ newline @ ''Order size 16'' @ newline @ ''int size 4, double size 8'' @ newline"
proof -
  have "size_of composition_Order = 16" by code_simp
  moreover have "to_string_nat 24 = ''24''" "to_string_nat 16 = ''16''" "to_string_nat 4 = ''4''" "to_string_nat 8 = ''8''"
    by code_simp+
  ultimately show ?thesis
    using assms wrapper_size [OF assms(1)]
    by (simp add: composition_main_def InheritanceOrderBook_def CompositionOrderBook_def del: size_of.simps)
qed

subsection \<open>The structs the program declares\<close>

definition program_structs :: "ctype list" where
  "program_structs = [request_struct (Some 1), response_struct (Some 1), update_struct (Some 1), PoorlyAligned, WellAligned,
     Packed, pack_A, pack_B, pack_AA, pack_BB, pack_BBB, pack_BBBB, address_Obj, composition_Order]"

text \<open>
  The layout of the structs the program declares. In all of them each member starts at
  the first multiple of its (capped) alignment behind the member before it and the size is the
  first multiple of the alignment of the whole; the three messages, packed, have no padding
  and 30, 42 and 34 bytes, where natural alignment would take 48, 56 and 48.
\<close>

lemma struct_layouts:
  "list_all well_laid program_structs \<and>
   list_all unpadded [request_struct (Some 1), response_struct (Some 1), update_struct (Some 1), Packed] \<and>
   map (\<lambda>s. (size_of (s (Some 1)), size_of (s None))) [request_struct, response_struct, update_struct] =
     [(30, 48), (42, 56), (34, 48)]"
proof (intro conjI)
  show "list_all well_laid program_structs"
    unfolding program_structs_def request_struct_def response_struct_def update_struct_def PoorlyAligned_def WellAligned_def
      Packed_def pack_A_def pack_B_def pack_AA_def pack_BB_def pack_BBB_def pack_BBBB_def address_Obj_def composition_Order_def
    by (simp add: struct_well_laid union_well_laid del: well_laid.simps)
  show "list_all unpadded [request_struct (Some 1), response_struct (Some 1), update_struct (Some 1), Packed]"
    by (simp add: unpadded_def members_def request_struct_def response_struct_def update_struct_def Packed_def)
  show "map (\<lambda>s. (size_of (s (Some 1)), size_of (s None))) [request_struct, response_struct, update_struct] =
     [(30, 48), (42, 56), (34, 48)]"
    by code_simp
qed

end
