(* ===== verification/Engine_IO.thy ===== *)
theory Engine_IO
  imports Logger Messages
begin

text \<open>
  The part of the matching engine an order book reaches through its \<open>matching_engine_\<close>
  pointer: \<open>sendClientResponse\<close> and \<open>sendMarketUpdate\<close> of src/matching_engine.cpp, with the
  state they change (the engine's logger, its time string and its two outgoing rings), and
  \<open>getCurrentTimeStr\<close> of include/time_utils.h, which they call for the log line.

  The environment is part of the state: \<open>io_ctime\<close> gives the text \<open>ctime\<close> returns at the
  k-th reading of the clock and \<open>io_ticks\<close> counts the readings; \<open>io_file\<close> is what the build
  makes of \<open>__FILE__\<close> in src/matching_engine.cpp.
\<close>

record EngineIO =
  outgoing_response :: "MEClientResponse LFQueue"
  outgoing_md_updates :: "MEMarketUpdate LFQueue"
  io_logger :: Logger
  io_time_str :: string
  io_ctime :: "nat \<Rightarrow> string"
  io_ticks :: nat
  io_file :: string

text \<open>
  \<open>time_str->assign(ctime(&time))\<close>, then the last character (the line feed of \<open>ctime\<close>) is
  overwritten with a zero byte.
\<close>

definition getCurrentTimeStr :: "string \<Rightarrow> string" where
  "getCurrentTimeStr ctime_text =
     (if ctime_text \<noteq> [] then ctime_text[length ctime_text - 1 := CHR 0x00] else ctime_text)"

definition read_time :: "EngineIO \<Rightarrow> EngineIO" where
  "read_time io = io\<lparr>io_time_str := getCurrentTimeStr (io_ctime io (io_ticks io)), io_ticks := Suc (io_ticks io)\<rparr>"

text \<open>\<open>logger_.log("%:% %() % Sending %\n", __FILE__, __LINE__, __FUNCTION__, time, text)\<close>\<close>

definition sending_fmt :: string where
  "sending_fmt = ''%:% %() % Sending %'' @ [CHR 0x0A]"

definition log_sending :: "32 word \<Rightarrow> string \<Rightarrow> string \<Rightarrow> EngineIO \<Rightarrow> EngineIO res" where
  "log_sending line function text io =
     (let io1 = read_time io in
      bnd (log_fmt sending_fmt
             [A_cstr (io_file io1), A_int line, A_cstr function, A_string (io_time_str io1), A_string text]
             (log_queue (io_logger io1)))
        (\<lambda>q. Inr (io1\<lparr>io_logger := (io_logger io1)\<lparr>log_queue := q\<rparr>\<rparr>)))"

definition sendClientResponse :: "MEClientResponse \<Rightarrow> EngineIO \<Rightarrow> EngineIO res" where
  "sendClientResponse client_response io =
     bnd (log_sending 59 ''sendClientResponse'' (responseToString client_response) io) (\<lambda>io.
     Inr (io\<lparr>outgoing_response := push client_response (outgoing_response io)\<rparr>))"

definition sendMarketUpdate :: "MEMarketUpdate \<Rightarrow> EngineIO \<Rightarrow> EngineIO res" where
  "sendMarketUpdate market_update io =
     bnd (log_sending 67 ''sendMarketUpdate'' (updateToString market_update) io) (\<lambda>io.
     Inr (io\<lparr>outgoing_md_updates := push market_update (outgoing_md_updates io)\<rparr>))"

subsection \<open>What a send does\<close>

text \<open>
  What is left of the engine when its log is put aside: the two outgoing rings. The log
  call of a send never fails, because its format has as many holes as it has arguments.
\<close>

definition same_rings :: "EngineIO \<Rightarrow> EngineIO \<Rightarrow> bool" where
  "same_rings io io' \<longleftrightarrow> outgoing_response io' = outgoing_response io \<and>
     outgoing_md_updates io' = outgoing_md_updates io"

lemma holes_sending_fmt: "holes sending_fmt = 5"
  by (simp add: sending_fmt_def holes_def)

lemma log_sending_total: "\<exists>io'. log_sending line fn text io = Inr io' \<and> same_rings io io'"
  by (simp add: log_sending_def Let_def log_fmt_spec holes_sending_fmt same_rings_def read_time_def)

definition sent_messages :: "MEClientResponse list \<Rightarrow> MEMarketUpdate list \<Rightarrow> EngineIO \<Rightarrow> EngineIO \<Rightarrow> bool" where
  "sent_messages rs us io io' \<longleftrightarrow>
     outgoing_response io' = push_list push rs (outgoing_response io) \<and>
     outgoing_md_updates io' = push_list push us (outgoing_md_updates io)"

lemma sent_messages_refl [simp]: "sent_messages [] [] io io"
  by (simp add: sent_messages_def)

lemma sent_messages_trans:
  "sent_messages rs us io io1 \<Longrightarrow> sent_messages rs' us' io1 io2 \<Longrightarrow>
   sent_messages (rs @ rs') (us @ us') io io2"
  by (simp add: sent_messages_def push_list_append)

lemma sendClientResponse_sends:
  "\<exists>io'. sendClientResponse r io = Inr io' \<and> sent_messages [r] [] io io'"
  using log_sending_total [of 59 "''sendClientResponse''" "responseToString r" io]
  by (auto simp: sendClientResponse_def sent_messages_def same_rings_def)

lemma sendMarketUpdate_sends:
  "\<exists>io'. sendMarketUpdate u io = Inr io' \<and> sent_messages [] [u] io io'"
  using log_sending_total [of 67 "''sendMarketUpdate''" "updateToString u" io]
  by (auto simp: sendMarketUpdate_def sent_messages_def same_rings_def)

text \<open>The text of a log line stops at the byte \<open>getCurrentTimeStr\<close> wrote over the line feed.\<close>

lemma c_string_time:
  "CHR 0x00 \<notin> set t \<Longrightarrow> c_string (getCurrentTimeStr (t @ [CHR 0x0A])) = t"
  by (induction t) (auto simp: getCurrentTimeStr_def c_string_def)

end
