(* ===== verification/Order_Book.thy ===== *)
theory Order_Book
  imports Mem_Pool Engine_IO
begin

text \<open>
  The limit order book of one ticker: include/me_order.h, include/me_order_book.h and
  src/me_order_book.cpp. Orders live in \<open>order_pool\<close> and price levels in
  \<open>orders_at_price_pool\<close>; every \<open>MEOrder*\<close> and \<open>MEOrdersAtPrice*\<close> of the program points
  into one of these pools, so a pointer is \<open>None\<close> (\<open>nullptr\<close>) or the index of a block.
  Orders of a level form a circular doubly linked list through \<open>prev_order\<close> and
  \<open>next_order\<close>, levels of a side another one through \<open>prev_entry\<close> and \<open>next_entry\<close>.
  A read or write through a null pointer is a fault; a block that was freed can still be
  read and written, as in the code.

  An operation takes the book (and the engine's rings where it sends) and returns the new
  one, or the fault that ended the run. The pointers \<open>matching_engine_\<close> and \<open>logger_\<close> are
  not fields: what lies behind the first is the \<open>EngineIO\<close> argument, the second is only
  used by the destructor.
\<close>

type_synonym ptr = "nat option"

record MEOrder =
  o_ticker_id :: TickerId
  o_client_id :: ClientId
  o_client_order_id :: OrderId
  o_market_order_id :: OrderId
  o_side :: Side
  o_price :: Price
  o_quantity :: Quantity
  o_priority :: Priority
  prev_order :: ptr
  next_order :: ptr

definition defaultOrder :: MEOrder where
  "defaultOrder = \<lparr>o_ticker_id = TickerId_INVALID, o_client_id = ClientId_INVALID,
     o_client_order_id = OrderId_INVALID, o_market_order_id = OrderId_INVALID,
     o_side = Side_INVALID, o_price = Price_INVALID, o_quantity = Quantity_INVALID,
     o_priority = Priority_INVALID, prev_order = None, next_order = None\<rparr>"

abbreviation mkOrder :: "TickerId \<Rightarrow> ClientId \<Rightarrow> OrderId \<Rightarrow> OrderId \<Rightarrow> Side \<Rightarrow> Price \<Rightarrow> Quantity \<Rightarrow> Priority \<Rightarrow>
    ptr \<Rightarrow> ptr \<Rightarrow> MEOrder" where
  "mkOrder ticker_id client_id client_order_id market_order_id side price quantity priority prev next \<equiv>
     \<lparr>o_ticker_id = ticker_id, o_client_id = client_id, o_client_order_id = client_order_id,
      o_market_order_id = market_order_id, o_side = side, o_price = price, o_quantity = quantity,
      o_priority = priority, prev_order = prev, next_order = next\<rparr>"

record MEOrdersAtPrice =
  l_side :: Side
  l_price :: Price
  first_me_order :: ptr
  prev_entry :: ptr
  next_entry :: ptr

definition defaultLevel :: MEOrdersAtPrice where
  "defaultLevel = \<lparr>l_side = Side_INVALID, l_price = Price_INVALID, first_me_order = None,
     prev_entry = None, next_entry = None\<rparr>"

abbreviation mkLevel :: "Side \<Rightarrow> Price \<Rightarrow> ptr \<Rightarrow> ptr \<Rightarrow> ptr \<Rightarrow> MEOrdersAtPrice" where
  "mkLevel side price first_order prev next \<equiv>
     \<lparr>l_side = side, l_price = price, first_me_order = first_order, prev_entry = prev, next_entry = next\<rparr>"

text \<open>The arrays of pointers, by client and order number and by price slot.\<close>

type_synonym OrderHashMap = "nat \<Rightarrow> ptr"
type_synonym ClientOrderHashMap = "nat \<Rightarrow> OrderHashMap"
type_synonym OrdersAtPriceHashMap = "nat \<Rightarrow> ptr"

record MEOrderBook =
  b_ticker_id :: TickerId
  cid_oid_to_order :: ClientOrderHashMap
  orders_at_price_pool :: "MEOrdersAtPrice MemPool"
  bids_by_price :: ptr
  asks_by_price :: ptr
  price_orders_at_price :: OrdersAtPriceHashMap
  order_pool :: "MEOrder MemPool"
  b_client_response :: MEClientResponse
  b_market_update :: MEMarketUpdate
  next_market_order_id :: OrderId

text \<open>
  The constructor. The two pointer arrays are members of class type without an initializer,
  so they hold what the memory held: the arguments \<open>raw_orders\<close> and \<open>raw_levels\<close>.
\<close>

definition newMEOrderBook :: "(nat \<Rightarrow> nat \<Rightarrow> ptr) \<Rightarrow> (nat \<Rightarrow> ptr) \<Rightarrow> TickerId \<Rightarrow> MEOrderBook" where
  "newMEOrderBook raw_orders raw_levels ticker_id =
     \<lparr>b_ticker_id = ticker_id, cid_oid_to_order = raw_orders,
      orders_at_price_pool = MemPool ME_MAX_PRICE_LEVELS defaultLevel,
      bids_by_price = None, asks_by_price = None, price_orders_at_price = raw_levels,
      order_pool = MemPool ME_MAX_ORDER_IDS defaultOrder,
      b_client_response = defaultResponse, b_market_update = defaultUpdate,
      next_market_order_id = 1\<rparr>"

subsection \<open>Reading and writing through pointers\<close>

definition set_obj :: "nat \<Rightarrow> 'a \<Rightarrow> 'a MemPool \<Rightarrow> 'a MemPool" where
  "set_obj i v p = set_block i ((pool_store p i)\<lparr>object := v\<rparr>) p"

definition ord :: "ptr \<Rightarrow> MEOrderBook \<Rightarrow> MEOrder res" where
  "ord p b = (case p of None \<Rightarrow> Inl Null_deref
     | Some i \<Rightarrow> if i < pool_size (order_pool b) then Inr (obj (order_pool b) i) else Inl Out_of_bounds)"

definition upd_ord :: "ptr \<Rightarrow> (MEOrder \<Rightarrow> MEOrder) \<Rightarrow> MEOrderBook \<Rightarrow> MEOrderBook res" where
  "upd_ord p f b = (case p of None \<Rightarrow> Inl Null_deref
     | Some i \<Rightarrow> if i < pool_size (order_pool b)
         then Inr (b\<lparr>order_pool := set_obj i (f (obj (order_pool b) i)) (order_pool b)\<rparr>)
         else Inl Out_of_bounds)"

definition lvl :: "ptr \<Rightarrow> MEOrderBook \<Rightarrow> MEOrdersAtPrice res" where
  "lvl p b = (case p of None \<Rightarrow> Inl Null_deref
     | Some i \<Rightarrow> if i < pool_size (orders_at_price_pool b) then Inr (obj (orders_at_price_pool b) i)
         else Inl Out_of_bounds)"

definition upd_lvl :: "ptr \<Rightarrow> (MEOrdersAtPrice \<Rightarrow> MEOrdersAtPrice) \<Rightarrow> MEOrderBook \<Rightarrow> MEOrderBook res" where
  "upd_lvl p f b = (case p of None \<Rightarrow> Inl Null_deref
     | Some i \<Rightarrow> if i < pool_size (orders_at_price_pool b)
         then Inr (b\<lparr>orders_at_price_pool :=
           set_obj i (f (obj (orders_at_price_pool b) i)) (orders_at_price_pool b)\<rparr>)
         else Inl Out_of_bounds)"

text \<open>
  \<open>order_pool_.deallocate(p)\<close> and \<open>orders_at_price_pool_.deallocate(p)\<close>: the index of the
  pointer is its distance from the first block, so a null pointer is outside the pool.
\<close>

definition ptr_index :: "ptr \<Rightarrow> int" where
  "ptr_index p = (case p of None \<Rightarrow> - 1 | Some i \<Rightarrow> int i)"

definition free_order :: "ptr \<Rightarrow> MEOrderBook \<Rightarrow> MEOrderBook res" where
  "free_order p b = bnd (deallocate (ptr_index p) (order_pool b)) (\<lambda>q. Inr (b\<lparr>order_pool := q\<rparr>))"

definition free_level :: "ptr \<Rightarrow> MEOrderBook \<Rightarrow> MEOrderBook res" where
  "free_level p b =
     bnd (deallocate (ptr_index p) (orders_at_price_pool b)) (\<lambda>q. Inr (b\<lparr>orders_at_price_pool := q\<rparr>))"

text \<open>
  \<open>cid_oid_to_order_\<close>: the store through \<open>operator[]\<close> is unchecked, \<open>at()\<close> throws.
\<close>

definition in_hash :: "ClientId \<Rightarrow> OrderId \<Rightarrow> bool" where
  "in_hash c k \<longleftrightarrow> unat c < ME_MAX_NUM_CLIENTS \<and> unat k < ME_MAX_ORDER_IDS"

definition hash_upd :: "ClientId \<Rightarrow> OrderId \<Rightarrow> ptr \<Rightarrow> MEOrderBook \<Rightarrow> MEOrderBook" where
  "hash_upd c k p b = b\<lparr>cid_oid_to_order :=
     (cid_oid_to_order b)(unat c := (cid_oid_to_order b (unat c))(unat k := p))\<rparr>"

definition hash_store :: "ClientId \<Rightarrow> OrderId \<Rightarrow> ptr \<Rightarrow> MEOrderBook \<Rightarrow> MEOrderBook res" where
  "hash_store c k p b = (if in_hash c k then Inr (hash_upd c k p b) else Inl Out_of_bounds)"

definition hash_at_store :: "ClientId \<Rightarrow> OrderId \<Rightarrow> ptr \<Rightarrow> MEOrderBook \<Rightarrow> MEOrderBook res" where
  "hash_at_store c k p b = (if in_hash c k then Inr (hash_upd c k p b) else Inl Out_of_range)"

subsection \<open>Prices\<close>

definition generateNewMarketOrderId :: "MEOrderBook \<Rightarrow> OrderId \<times> MEOrderBook" where
  "generateNewMarketOrderId b =
     (next_market_order_id b, b\<lparr>next_market_order_id := next_market_order_id b + 1\<rparr>)"

text \<open>
  \<open>price % ME_MAX_PRICE_LEVELS\<close>: the capacity is a \<open>size_t\<close>, so the price is converted to
  unsigned and the remainder is never negative.
\<close>

definition priceToIndex :: "Price \<Rightarrow> Price" where
  "priceToIndex price = price mod of_nat ME_MAX_PRICE_LEVELS"

definition getOrdersAtPrice :: "Price \<Rightarrow> MEOrderBook \<Rightarrow> ptr" where
  "getOrdersAtPrice price b = price_orders_at_price b (unat (priceToIndex price))"

definition set_level_slot :: "Price \<Rightarrow> ptr \<Rightarrow> MEOrderBook \<Rightarrow> MEOrderBook" where
  "set_level_slot price p b =
     b\<lparr>price_orders_at_price := (price_orders_at_price b)(unat (priceToIndex price) := p)\<rparr>"

definition getNextPriority :: "Price \<Rightarrow> MEOrderBook \<Rightarrow> Priority res" where
  "getNextPriority price b =
     bnd (lvl (getOrdersAtPrice price b) b) (\<lambda>order_at_price.
     if first_me_order order_at_price = None then Inr 1
     else bnd (ord (first_me_order order_at_price) b) (\<lambda>first.
          bnd (ord (prev_order first) b) (\<lambda>last. Inr (o_priority last))))"

end
