(* ===== verification/Order_Book_Ops.thy ===== *)
theory Order_Book_Ops
  imports Order_Book
begin

text \<open>
  The operations of src/me_order_book.cpp that change the book: inserting and removing an
  order, inserting and removing a price level, matching, and the two requests \<open>add\<close> and
  \<open>cancel\<close>. Each definition follows its function statement by statement.
\<close>

subsection \<open>Inserting a price level\<close>

text \<open>The test \<open>add_after\<close> of the new level \<open>n\<close> against a level \<open>t\<close>.\<close>

definition add_after :: "MEOrdersAtPrice \<Rightarrow> MEOrdersAtPrice \<Rightarrow> bool" where
  "add_after n t \<longleftrightarrow> (l_side n = Side_BUY \<and> sint (l_price n) < sint (l_price t)) \<or>
     (l_side n = Side_SELL \<and> sint (l_price n) > sint (l_price t))"

text \<open>
  Inside the loop the code declares a second \<open>add_after\<close>, which hides the outer one: the
  new value is computed, reading \<open>target->price_\<close>, and dropped. What remains of it is the
  read, which faults if \<open>target\<close> is null. The outer flag stays true, so the loop is left
  only when \<open>target\<close> is back at the best level.
\<close>

definition shadowed_test :: "MEOrdersAtPrice \<Rightarrow> ptr \<Rightarrow> MEOrderBook \<Rightarrow> unit res" where
  "shadowed_test n target b =
     (if l_side n = Side_BUY \<or> l_side n = Side_SELL then bnd (lvl target b) (\<lambda>_. Inr ()) else Inr ())"

text \<open>
  The walk \<open>while (add_after && target != best)\<close> with the flag true. The fuel is one more
  than the number of blocks of the level pool: \<open>next_entry\<close> is a function on these blocks,
  so a walk that has not met the best level by then has entered a cycle without it.
\<close>

fun walk :: "nat \<Rightarrow> MEOrdersAtPrice \<Rightarrow> ptr \<Rightarrow> ptr \<Rightarrow> MEOrderBook \<Rightarrow> ptr res" where
  "walk 0 n best target b = Inl Diverges"
| "walk (Suc fuel) n best target b =
     (if target = best then Inr target
      else bnd (lvl target b) (\<lambda>t.
           bnd (shadowed_test n (next_entry t) b) (\<lambda>_.
           walk fuel n best (next_entry t) b)))"

definition find_target :: "MEOrdersAtPrice \<Rightarrow> ptr \<Rightarrow> MEOrdersAtPrice \<Rightarrow> MEOrderBook \<Rightarrow> ptr res" where
  "find_target n best t b =
     (if add_after n t then
        bnd (shadowed_test n (next_entry t) b) (\<lambda>_.
        walk (Suc (pool_size (orders_at_price_pool b))) n best (next_entry t) b)
      else Inr best)"

text \<open>The four pointer writes after \<open>target\<close> and before \<open>target\<close>.\<close>

definition link_after :: "ptr \<Rightarrow> ptr \<Rightarrow> MEOrderBook \<Rightarrow> MEOrderBook res" where
  "link_after nw target b =
     bnd (lvl target b) (\<lambda>t.
     bnd (upd_lvl (next_entry t) (\<lambda>l. l\<lparr>prev_entry := nw\<rparr>) b) (\<lambda>b.
     bnd (lvl target b) (\<lambda>t.
     bnd (upd_lvl nw (\<lambda>l. l\<lparr>next_entry := next_entry t\<rparr>) b) (\<lambda>b.
     bnd (upd_lvl target (\<lambda>l. l\<lparr>next_entry := nw\<rparr>) b) (\<lambda>b.
     upd_lvl nw (\<lambda>l. l\<lparr>prev_entry := target\<rparr>) b)))))"

definition link_before :: "ptr \<Rightarrow> ptr \<Rightarrow> MEOrderBook \<Rightarrow> MEOrderBook res" where
  "link_before nw target b =
     bnd (lvl target b) (\<lambda>t.
     bnd (upd_lvl (prev_entry t) (\<lambda>l. l\<lparr>next_entry := nw\<rparr>) b) (\<lambda>b.
     bnd (lvl target b) (\<lambda>t.
     bnd (upd_lvl nw (\<lambda>l. l\<lparr>prev_entry := prev_entry t\<rparr>) b) (\<lambda>b.
     bnd (upd_lvl nw (\<lambda>l. l\<lparr>next_entry := target\<rparr>) b) (\<lambda>b.
     upd_lvl target (\<lambda>l. l\<lparr>prev_entry := nw\<rparr>) b)))))"

definition addOrderAtPrice :: "ptr \<Rightarrow> MEOrderBook \<Rightarrow> MEOrderBook res" where
  "addOrderAtPrice nw b =
     bnd (lvl nw b) (\<lambda>n.
     let b = set_level_slot (l_price n) nw b;
         best = (if l_side n = Side_BUY then asks_by_price b else bids_by_price b) in
     if best = None then
       (let b = (if l_side n = Side_BUY then b\<lparr>asks_by_price := nw\<rparr> else b\<lparr>bids_by_price := nw\<rparr>) in
        upd_lvl nw (\<lambda>l. l\<lparr>prev_entry := nw, next_entry := nw\<rparr>) b)
     else
       bnd (lvl best b) (\<lambda>t.
       bnd (find_target n best t b) (\<lambda>target.
       if add_after n t then
         bnd (if target = best then bnd (lvl target b) (\<lambda>x. Inr (prev_entry x)) else Inr target)
           (\<lambda>target. link_after nw target b)
       else
         bnd (link_before nw target b) (\<lambda>b.
         let b = (if l_side n = Side_BUY \<and> sint (l_price n) > sint (l_price t)
                  then b\<lparr>asks_by_price := nw\<rparr> else b);
             b = (if l_side n = Side_SELL \<and> sint (l_price n) > sint (l_price t)
                  then b\<lparr>bids_by_price := nw\<rparr> else b)
         in Inr b))))"

subsection \<open>Inserting an order\<close>

definition addOrder :: "ptr \<Rightarrow> MEOrderBook \<Rightarrow> MEOrderBook res" where
  "addOrder order b =
     bnd (ord order b) (\<lambda>o1.
     let orders_at_price = getOrdersAtPrice (o_price o1) b in
     bnd (if orders_at_price = None then
            bnd (upd_ord order (\<lambda>x. x\<lparr>prev_order := order, next_order := order\<rparr>) b) (\<lambda>b.
            bnd (allocate (mkLevel (o_side o1) (o_price o1) order None None) (orders_at_price_pool b)) (\<lambda>(i, lp).
            addOrderAtPrice (Some i) (b\<lparr>orders_at_price_pool := lp\<rparr>)))
          else
            bnd (lvl orders_at_price b) (\<lambda>l.
            let first_order = first_me_order l in
            bnd (ord first_order b) (\<lambda>f.
            bnd (upd_ord (prev_order f) (\<lambda>x. x\<lparr>next_order := order\<rparr>) b) (\<lambda>b.
            bnd (ord first_order b) (\<lambda>f.
            bnd (upd_ord order (\<lambda>x. x\<lparr>prev_order := prev_order f\<rparr>) b) (\<lambda>b.
            bnd (upd_ord order (\<lambda>x. x\<lparr>next_order := first_order\<rparr>) b) (\<lambda>b.
            upd_ord first_order (\<lambda>x. x\<lparr>prev_order := order\<rparr>) b)))))))
       (\<lambda>b. hash_store (o_client_id o1) (o_client_order_id o1) order b))"

subsection \<open>Removing a price level and an order\<close>

text \<open>
  Here \<open>BUY\<close> levels are looked up under \<open>bids_by_price_\<close>, the other way round from
  \<open>addOrderAtPrice\<close>.
\<close>

definition unlink_level :: "ptr \<Rightarrow> MEOrderBook \<Rightarrow> MEOrderBook res" where
  "unlink_level p b =
     bnd (lvl p b) (\<lambda>l.
     bnd (upd_lvl (prev_entry l) (\<lambda>x. x\<lparr>next_entry := next_entry l\<rparr>) b) (\<lambda>b.
     bnd (lvl p b) (\<lambda>l.
     upd_lvl (next_entry l) (\<lambda>x. x\<lparr>prev_entry := prev_entry l\<rparr>) b)))"

definition set_best :: "Side \<Rightarrow> ptr \<Rightarrow> MEOrderBook \<Rightarrow> MEOrderBook" where
  "set_best side p b = (if side = Side_BUY then b\<lparr>bids_by_price := p\<rparr> else b\<lparr>asks_by_price := p\<rparr>)"

definition removeOrdersAtPrice :: "Side \<Rightarrow> Price \<Rightarrow> MEOrderBook \<Rightarrow> MEOrderBook res" where
  "removeOrdersAtPrice side price b = noexcept (
     let best = (if side = Side_BUY then bids_by_price b else asks_by_price b);
         p = getOrdersAtPrice price b in
     bnd (lvl p b) (\<lambda>l.
     bnd (if next_entry l = p then Inr (set_best side None b)
          else bnd (unlink_level p b) (\<lambda>b.
               bnd (lvl p b) (\<lambda>l.
               let b = (if p = best then set_best side (next_entry l) b else b) in
               upd_lvl p (\<lambda>x. x\<lparr>prev_entry := None, next_entry := None\<rparr>) b)))
       (\<lambda>b. free_level p (set_level_slot price None b))))"

definition removeOrder :: "ptr \<Rightarrow> MEOrderBook \<Rightarrow> MEOrderBook res" where
  "removeOrder order b = noexcept (
     bnd (ord order b) (\<lambda>o1.
     let orders_at_price = getOrdersAtPrice (o_price o1) b in
     bnd (if prev_order o1 = order then removeOrdersAtPrice (o_side o1) (o_price o1) b
          else
            (let order_before = prev_order o1; order_after = next_order o1 in
             bnd (upd_ord order_before (\<lambda>x. x\<lparr>next_order := order_after\<rparr>) b) (\<lambda>b.
             bnd (upd_ord order_after (\<lambda>x. x\<lparr>prev_order := order_before\<rparr>) b) (\<lambda>b.
             bnd (lvl orders_at_price b) (\<lambda>l.
             bnd (if first_me_order l = order
                  then upd_lvl orders_at_price (\<lambda>x. x\<lparr>first_me_order := order_after\<rparr>) b
                  else Inr b) (\<lambda>b.
             upd_ord order (\<lambda>x. x\<lparr>prev_order := None, next_order := None\<rparr>) b)))))
          ) (\<lambda>b.
     bnd (ord order b) (\<lambda>o2.
     bnd (hash_at_store (o_client_id o2) (o_client_order_id o2) None b) (\<lambda>b.
     free_order order b)))))"

subsection \<open>Requests\<close>

text \<open>
  \<open>add\<close> calls the member function \<open>checkForMatch()\<close> without arguments, which
  include/me_order_book.h declares and no source file defines: it is the parameter
  \<open>checkForMatch0\<close>, a function of the state to the quantity left and the new state.
\<close>

definition add :: "(MEOrderBook \<Rightarrow> EngineIO \<Rightarrow> (Quantity \<times> MEOrderBook \<times> EngineIO) res) \<Rightarrow>
    ClientId \<Rightarrow> OrderId \<Rightarrow> TickerId \<Rightarrow> Side \<Rightarrow> Price \<Rightarrow> Quantity \<Rightarrow> MEOrderBook \<Rightarrow> EngineIO \<Rightarrow>
    (MEOrderBook \<times> EngineIO) res" where
  "add checkForMatch0 client_id order_id ticker_id side price qty b io =
     (let (new_market_order_id, b) = generateNewMarketOrderId b in
      bnd (sendClientResponse (mkResponse Resp_ACCEPTED client_id ticker_id order_id
             new_market_order_id side price 0 qty) io) (\<lambda>io.
      bnd (checkForMatch0 b io) (\<lambda>(left_quantity, b, io).
      if left_quantity \<noteq> 0 then
        bnd (getNextPriority price b) (\<lambda>priority.
        bnd (allocate (mkOrder ticker_id client_id order_id new_market_order_id side price left_quantity
               priority None None) (order_pool b)) (\<lambda>(i, op).
        bnd (addOrder (Some i) (b\<lparr>order_pool := op\<rparr>)) (\<lambda>b.
        bnd (sendMarketUpdate (mkUpdate Upd_ADD new_market_order_id ticker_id side price
               left_quantity priority) io) (\<lambda>io.
        Inr (b, io)))))
      else Inr (b, io))))"

definition cancel :: "ClientId \<Rightarrow> OrderId \<Rightarrow> TickerId \<Rightarrow> MEOrderBook \<Rightarrow> EngineIO \<Rightarrow>
    (MEOrderBook \<times> EngineIO) res" where
  "cancel client_id order_id ticker_id b io =
     bnd (if unat client_id < ME_MAX_NUM_CLIENTS
          then if unat order_id < ME_MAX_ORDER_IDS
               then Inr (cid_oid_to_order b (unat client_id) (unat order_id)) else Inl Out_of_range
          else Inr None) (\<lambda>exchange_order.
     bnd (if exchange_order = None
          then Inr (b\<lparr>b_client_response := mkResponse Resp_CANCEL_REJECTED client_id ticker_id order_id
                 OrderId_INVALID Side_INVALID Price_INVALID Quantity_INVALID Quantity_INVALID\<rparr>, io)
          else
            bnd (ord exchange_order b) (\<lambda>x.
            let b = b\<lparr>b_client_response := mkResponse Resp_CANCELED client_id ticker_id order_id
                        (o_market_order_id x) (o_side x) (o_price x) Quantity_INVALID (o_quantity x),
                      b_market_update := mkUpdate Upd_CANCEL (o_market_order_id x) ticker_id
                        (o_side x) (o_price x) 0 (o_priority x)\<rparr> in
            bnd (removeOrder exchange_order b) (\<lambda>b.
            bnd (sendMarketUpdate (b_market_update b) io) (\<lambda>io. Inr (b, io)))))
       (\<lambda>(b, io).
     bnd (sendClientResponse (b_client_response b) io) (\<lambda>io. Inr (b, io))))"

subsection \<open>Matching\<close>

definition match_responses :: "TickerId \<Rightarrow> ClientId \<Rightarrow> Side \<Rightarrow> OrderId \<Rightarrow> OrderId \<Rightarrow> MEOrder \<Rightarrow> Quantity \<Rightarrow>
    Quantity \<Rightarrow> MEClientResponse \<times> MEClientResponse" where
  "match_responses ticker_id client_id side client_order_id new_market_order_id x fill_qty leaves =
     (mkResponse Resp_FILLED client_id ticker_id client_order_id new_market_order_id side
        (o_price x) fill_qty leaves,
      mkResponse Resp_FILLED (o_client_id x) ticker_id (o_client_order_id x) (o_market_order_id x)
        (o_side x) (o_price x) fill_qty (o_quantity x))"

definition match :: "TickerId \<Rightarrow> ClientId \<Rightarrow> Side \<Rightarrow> OrderId \<Rightarrow> OrderId \<Rightarrow> ptr \<Rightarrow> Quantity \<Rightarrow>
    MEOrderBook \<Rightarrow> EngineIO \<Rightarrow> (Quantity \<times> MEOrderBook \<times> EngineIO) res" where
  "match ticker_id client_id side client_order_id new_market_order_id itr leaves_qty b io = noexcept (
     bnd (ord itr b) (\<lambda>order.
     let order_qty = o_quantity order;
         fill_qty = min leaves_qty order_qty;
         leaves = leaves_qty - fill_qty in
     bnd (upd_ord itr (\<lambda>x. x\<lparr>o_quantity := o_quantity x - fill_qty\<rparr>) b) (\<lambda>b.
     bnd (ord itr b) (\<lambda>x.
     let (r1, r2) = match_responses ticker_id client_id side client_order_id new_market_order_id
           x fill_qty leaves;
         trade = mkUpdate Upd_TRADE OrderId_INVALID ticker_id side (o_price x) fill_qty Priority_INVALID in
     bnd (sendClientResponse r1 io) (\<lambda>io.
     bnd (sendClientResponse r2 io) (\<lambda>io.
     bnd (sendMarketUpdate trade io) (\<lambda>io.
     if o_quantity x = 0 then
       (let u = mkUpdate Upd_CANCEL (o_market_order_id x) ticker_id (o_side x) (o_price x) order_qty
              Priority_INVALID in
        bnd (sendMarketUpdate u io) (\<lambda>io.
        bnd (removeOrder itr (b\<lparr>b_client_response := r2, b_market_update := u\<rparr>)) (\<lambda>b.
        Inr (leaves, b, io))))
     else
       (let u = mkUpdate Upd_MODIFY (o_market_order_id x) ticker_id (o_side x) (o_price x)
              (o_quantity x) (o_priority x) in
        bnd (sendMarketUpdate u io) (\<lambda>io.
        Inr (leaves, b\<lparr>b_client_response := r2, b_market_update := u\<rparr>, io))))))))))"

end
