(* ===== verification/Matching.thy ===== *)
theory Matching
  imports Order_Book_Ops
begin

text \<open>
  The matching loop \<open>checkForMatch\<close> of src/me_order_book.cpp and its termination on every
  heap, well formed or not: an iteration that leaves quantity to match has given an order
  back to the pool, so the number of live orders decreases.
\<close>

subsection \<open>What the operations keep of the order pool\<close>

lemma set_obj_simps [simp]:
  "pool_size (set_obj i v p) = pool_size p"
  "next_free_index (set_obj i v p) = next_free_index p"
  "obj (set_obj i v p) j = (if j = i then v else obj p j)"
  "is_free (pool_store (set_obj i v p) j) = is_free (pool_store p j)"
  "live (set_obj i v p) = live p"
  "pool_inv (set_obj i v p) = pool_inv p"
  by (auto simp: set_obj_def set_block_def live_def pool_inv_def)

definition same_orders_live :: "MEOrderBook \<Rightarrow> MEOrderBook \<Rightarrow> bool" where
  "same_orders_live b b' \<longleftrightarrow> live (order_pool b') = live (order_pool b)"

lemma same_orders_live_refl [simp]: "same_orders_live b b"
  by (simp add: same_orders_live_def)

lemma same_orders_live_trans: "same_orders_live a b \<Longrightarrow> same_orders_live b c \<Longrightarrow> same_orders_live a c"
  by (simp add: same_orders_live_def)

lemma upd_ord_live: "upd_ord p f b = Inr b' \<Longrightarrow> same_orders_live b b'"
  by (auto simp: upd_ord_def same_orders_live_def split: option.splits if_splits)

lemma upd_lvl_orders: "upd_lvl p f b = Inr b' \<Longrightarrow> order_pool b' = order_pool b"
  by (auto simp: upd_lvl_def split: option.splits if_splits)

lemma unlink_level_orders: "unlink_level p b = Inr b' \<Longrightarrow> order_pool b' = order_pool b"
  by (auto simp: unlink_level_def res_simps dest!: upd_lvl_orders)

lemma set_best_orders [simp]: "order_pool (set_best s p b) = order_pool b"
  by (simp add: set_best_def)

lemma set_level_slot_orders [simp]: "order_pool (set_level_slot s p b) = order_pool b"
  by (simp add: set_level_slot_def)

lemma free_level_orders: "free_level p b = Inr b' \<Longrightarrow> order_pool b' = order_pool b"
  by (auto simp: free_level_def res_simps)

lemma removeOrdersAtPrice_orders:
  "removeOrdersAtPrice s p b = Inr b' \<Longrightarrow> order_pool b' = order_pool b"
  by (auto simp: removeOrdersAtPrice_def res_simps Let_def split: if_splits
      dest!: upd_lvl_orders unlink_level_orders free_level_orders)

lemma hash_at_store_orders: "hash_at_store c k p b = Inr b' \<Longrightarrow> order_pool b' = order_pool b"
  by (auto simp: hash_at_store_def hash_upd_def split: if_splits)

lemma free_order_live:
  "free_order p b = Inr b' \<Longrightarrow> \<exists>i. p = Some i \<and> i \<in> live (order_pool b) \<and>
     live (order_pool b') = live (order_pool b) - {i}"
  by (cases p) (auto simp: free_order_def ptr_index_def res_simps deallocate_Inr_iff
      live_set_block live_bound, auto simp: deallocate_def res_simps)

lemma removeOrder_live:
  assumes "removeOrder p b = Inr b'"
  shows "\<exists>i. p = Some i \<and> i \<in> live (order_pool b) \<and> live (order_pool b') = live (order_pool b) - {i}"
proof -
  obtain b1 b2 where keep: "same_orders_live b b1" and o2: "order_pool b2 = order_pool b1"
    and fr: "free_order p b2 = Inr b'"
    using assms
    by (auto simp: removeOrder_def res_simps Let_def split: if_splits
        dest!: upd_ord_live upd_lvl_orders removeOrdersAtPrice_orders hash_at_store_orders)
      (metis same_orders_live_def)+
  from free_order_live [OF fr] keep o2 show ?thesis by (simp add: same_orders_live_def)
qed

lemma upd_ord_size: "upd_ord p f b = Inr b' \<Longrightarrow> pool_size (order_pool b') = pool_size (order_pool b)"
  by (auto simp: upd_ord_def split: option.splits if_splits)

lemma free_order_size: "free_order p b = Inr b' \<Longrightarrow> pool_size (order_pool b') = pool_size (order_pool b)"
  by (auto simp: free_order_def deallocate_def res_simps)

lemma removeOrder_size: "removeOrder p b = Inr b' \<Longrightarrow> pool_size (order_pool b') = pool_size (order_pool b)"
  by (auto simp: removeOrder_def res_simps Let_def split: if_splits
      dest!: upd_ord_size upd_lvl_orders removeOrdersAtPrice_orders hash_at_store_orders free_order_size)

lemma upd_ord_Inr_obj:
  "upd_ord p f b = Inr b' \<Longrightarrow> \<exists>i. p = Some i \<and> i < pool_size (order_pool b) \<and>
     ord p b = Inr (obj (order_pool b) i) \<and> ord p b' = Inr (f (obj (order_pool b) i))"
  by (auto simp: upd_ord_def ord_def split: option.splits if_splits)

lemma min_fill: "leaves - min leaves q \<noteq> (0 :: 'a::len word) \<Longrightarrow> min leaves q = q"
  by (auto simp: min_def split: if_splits)

lemma match_live:
  assumes "match tk c sd k moid itr leaves b io = Inr (leaves', b', io')"
  shows "same_orders_live b b' \<and> leaves' = 0 \<or>
    (\<exists>i. i \<in> live (order_pool b) \<and> live (order_pool b') = live (order_pool b) - {i})"
proof -
  obtain ordr b1 x where o1: "ord itr b = Inr ordr"
    and l: "leaves' = leaves - min leaves (o_quantity ordr)"
    and u: "upd_ord itr (\<lambda>y. y\<lparr>o_quantity := o_quantity y - min leaves (o_quantity ordr)\<rparr>) b = Inr b1"
    and x: "ord itr b1 = Inr x"
    and fin: "o_quantity x = 0 \<and> (\<exists>r m. removeOrder itr (b1\<lparr>b_client_response := r, b_market_update := m\<rparr>) = Inr b')
      \<or> o_quantity x \<noteq> 0 \<and> order_pool b' = order_pool b1"
    using assms
    by (simp add: match_def res_simps Let_def match_responses_def split: if_splits) force+
  from upd_ord_Inr_obj [OF u] o1 x have xq: "o_quantity x = o_quantity ordr - min leaves (o_quantity ordr)"
    by auto
  have keep: "same_orders_live b b1" by (rule upd_ord_live [OF u])
  show ?thesis
  proof (cases "o_quantity x = 0")
    case True
    with fin removeOrder_live keep show ?thesis by (fastforce simp: same_orders_live_def)
  next
    case False
    then have "leaves' = 0" using xq l min_fill [of leaves "o_quantity ordr"] by auto
    with False fin keep show ?thesis by (auto simp: same_orders_live_def)
  qed
qed

lemma match_decreases:
  assumes "match tk c sd k moid itr leaves b io = Inr (leaves', b', io')" "leaves' \<noteq> 0"
  shows "card (live (order_pool b')) < card (live (order_pool b))"
proof -
  obtain i where i: "i \<in> live (order_pool b)" "live (order_pool b') = live (order_pool b) - {i}"
    using match_live [OF assms(1)] assms(2) by blast
  show ?thesis unfolding i(2) by (rule card_Diff1_less [OF finite_live i(1)])
qed

subsection \<open>The loop\<close>

text \<open>
  The two \<open>while\<close> loops of \<open>checkForMatch\<close>, which differ in the list they follow and in
  the comparison that ends them: a buy order looks at \<open>asks_by_price_\<close> and stops when its
  price is below the resting order's, a sell order looks at \<open>bids_by_price_\<close> and stops
  when its price is above.
\<close>

definition opposite_best :: "Side \<Rightarrow> MEOrderBook \<Rightarrow> ptr" where
  "opposite_best side b = (if side = Side_BUY then asks_by_price b else bids_by_price b)"

definition no_cross :: "Side \<Rightarrow> Price \<Rightarrow> Price \<Rightarrow> bool" where
  "no_cross side price resting =
     (if side = Side_BUY then sint price < sint resting else sint price > sint resting)"

function match_loop :: "ClientId \<Rightarrow> OrderId \<Rightarrow> TickerId \<Rightarrow> Side \<Rightarrow> Price \<Rightarrow> OrderId \<Rightarrow> Quantity \<Rightarrow>
    MEOrderBook \<Rightarrow> EngineIO \<Rightarrow> (Quantity \<times> MEOrderBook \<times> EngineIO) res" where
  "match_loop client_id client_order_id ticker_id side price new_market_order_id leaves_qty b io =
     (if leaves_qty = 0 \<or> opposite_best side b = None then Inr (leaves_qty, b, io)
      else
        bnd (lvl (opposite_best side b) b) (\<lambda>best.
        bnd (ord (first_me_order best) b) (\<lambda>itr.
        if no_cross side price (o_price itr) then Inr (leaves_qty, b, io)
        else
          bnd (match ticker_id client_id side client_order_id new_market_order_id
                 (first_me_order best) leaves_qty b io) (\<lambda>r.
          match_loop client_id client_order_id ticker_id side price new_market_order_id
            (fst r) (fst (snd r)) (snd (snd r))))))"
  by pat_completeness auto
termination
proof (relation "measure (\<lambda>(c, k, tk, sd, p, m, l, b, io). if l = 0 then 0 else Suc (card (live (order_pool b))))",
    simp, goal_cases)
  case (1 c k tk sd p m l b io best itr r)
  then have "match tk c sd k m (first_me_order best) l b io = Inr (fst r, fst (snd r), snd (snd r))"
    by simp
  from match_decreases [OF this] 1 show ?case by (auto split: prod.splits)
qed

declare match_loop.simps [simp del]

definition checkForMatch :: "ClientId \<Rightarrow> OrderId \<Rightarrow> TickerId \<Rightarrow> Side \<Rightarrow> Price \<Rightarrow> Quantity \<Rightarrow> OrderId \<Rightarrow>
    MEOrderBook \<Rightarrow> EngineIO \<Rightarrow> (Quantity \<times> MEOrderBook \<times> EngineIO) res" where
  "checkForMatch client_id client_order_id ticker_id side price qty new_market_order_id b io = noexcept (
     if side = Side_BUY \<or> side = Side_SELL
     then match_loop client_id client_order_id ticker_id side price new_market_order_id qty b io
     else Inr (qty, b, io))"

end
