(* ===== verification/Ring.thy ===== *)
theory Ring
  imports Prelude
begin

text \<open>
  Circular doubly linked lists as the order book builds them twice, for the orders of a
  level and for the levels of a side: the list of nodes in order, related to a \<open>next\<close> and a
  \<open>prev\<close> pointer function. \<open>links\<close> relates the neighbours of a segment, \<open>ring\<close> closes the
  segment at its head. The lemmas say what the pointer writes of an insertion and of a
  removal do to the list of nodes.
\<close>

fun links :: "(nat \<Rightarrow> nat option) \<Rightarrow> (nat \<Rightarrow> nat option) \<Rightarrow> nat list \<Rightarrow> bool" where
  "links n p (x # y # zs) = (n x = Some y \<and> p y = Some x \<and> links n p (y # zs))"
| "links n p xs = True"

definition ring :: "(nat \<Rightarrow> nat option) \<Rightarrow> (nat \<Rightarrow> nat option) \<Rightarrow> nat list \<Rightarrow> bool" where
  "ring n p xs \<longleftrightarrow> xs \<noteq> [] \<and> distinct xs \<and> links n p (xs @ [hd xs])"

lemma links_append [ring_simps]:
  "links n p (xs @ y # zs) \<longleftrightarrow> links n p (xs @ [y]) \<and> links n p (y # zs)"
proof (induction xs)
  case Nil
  then show ?case by simp
next
  case (Cons x xs)
  then show ?case by (cases xs) auto
qed

lemma links_snoc2 [ring_simps]:
  "links n p (xs @ [x, y]) \<longleftrightarrow> links n p (xs @ [x]) \<and> n x = Some y \<and> p y = Some x"
  by (simp add: links_append [of n p xs x "[y]"])

lemma links_cong:
  "links n p xs \<Longrightarrow> (\<And>x. x \<in> set (butlast xs) \<Longrightarrow> n' x = n x) \<Longrightarrow>
   (\<And>x. x \<in> set (tl xs) \<Longrightarrow> p' x = p x) \<Longrightarrow> links n' p' xs"
proof (induction n p xs rule: links.induct)
  case (1 n p x y zs)
  have "links n' p' (y # zs)"
    using 1 by (intro "1.IH") (auto split: if_splits dest: list.set_sel(2) [rotated])
  with 1 show ?case by auto
qed simp_all

lemma ring_Cons: "ring n p (x # xs) \<longleftrightarrow> distinct (x # xs) \<and> links n p (x # xs @ [x])"
  by (simp add: ring_def)

lemma ring_rotate1: "ring n p (x # xs) \<longleftrightarrow> ring n p (xs @ [x])"
proof (cases xs)
  case Nil
  then show ?thesis by simp
next
  case (Cons y ys)
  have "links n p ((y # ys) @ [x, y]) \<longleftrightarrow> links n p ((y # ys) @ [x]) \<and> n x = Some y \<and> p y = Some x"
    by (rule links_snoc2)
  then show ?thesis by (auto simp: ring_def Cons)
qed

lemma ring_rotate: "ring n p (xs @ ys) \<longleftrightarrow> ring n p (ys @ xs)"
proof (induction xs arbitrary: ys)
  case Nil
  then show ?case by simp
next
  case (Cons x xs)
  have "ring n p ((x # xs) @ ys) \<longleftrightarrow> ring n p (xs @ ys @ [x])"
    by (simp add: ring_rotate1)
  also have "\<dots> \<longleftrightarrow> ring n p ((ys @ [x]) @ xs)" by (rule Cons.IH)
  finally show ?case by simp
qed

lemma ring_single [simp]: "ring n p [x] \<longleftrightarrow> n x = Some x \<and> p x = Some x"
  by (simp add: ring_def)

lemma ring_not_Nil [simp]: "\<not> ring n p []"
  by (simp add: ring_def)

lemma ring_distinct: "ring n p xs \<Longrightarrow> distinct xs"
  by (simp add: ring_def)

lemma ring_cong:
  "ring n p xs \<Longrightarrow> (\<And>x. x \<in> set xs \<Longrightarrow> n' x = n x) \<Longrightarrow> (\<And>x. x \<in> set xs \<Longrightarrow> p' x = p x) \<Longrightarrow>
   ring n' p' xs"
  unfolding ring_def by (auto elim!: links_cong dest: in_set_butlastD simp: tl_append split: list.splits)

lemma ring_ends:
  assumes "ring n p xs"
  shows "n (last xs) = Some (hd xs)" "p (hd xs) = Some (last xs)"
proof -
  from assms have "xs = butlast xs @ [last xs]" by (simp add: ring_def)
  then have "xs @ [hd xs] = butlast xs @ [last xs, hd xs]" by (metis append.assoc append_Cons append_Nil)
  with assms have "links n p (butlast xs @ [last xs, hd xs])" by (simp add: ring_def)
  then show "n (last xs) = Some (hd xs)" "p (hd xs) = Some (last xs)" by (simp_all add: links_snoc2)
qed

text \<open>The list rotated to start at a given node, and the neighbours of that node.\<close>

lemma ring_head_ends:
  assumes "ring n p (x # zs)"
  shows "n x = Some (if zs = [] then x else hd zs)" "p x = Some (if zs = [] then x else last zs)"
  using assms ring_ends(2) [OF assms] by (cases zs; simp add: ring_Cons)+

lemma ring_rotate_to:
  assumes "ring n p xs" "x \<in> set xs"
  obtains zs where "ring n p (x # zs)" "set xs = insert x (set zs)" "x \<notin> set zs"
    "xs = [x] \<longleftrightarrow> zs = []" "\<And>n' p'. ring n' p' (remove1 x xs) \<longleftrightarrow> ring n' p' zs"
proof -
  obtain as bs where xs: "xs = as @ x # bs" "x \<notin> set as" using assms(2) by (meson split_list_first)
  show thesis
  proof (rule that [of "bs @ as"])
    show "ring n p (x # bs @ as)" using assms(1) ring_rotate [of n p as "x # bs"] by (simp add: xs)
    then show "x \<notin> set (bs @ as)" using ring_distinct by fastforce
    show "set xs = insert x (set (bs @ as))" by (auto simp: xs)
    show "xs = [x] \<longleftrightarrow> bs @ as = []" by (auto simp: xs append_eq_Cons_conv)
    show "ring n' p' (remove1 x xs) \<longleftrightarrow> ring n' p' (bs @ as)" for n' p'
      using xs by (simp add: remove1_append ring_rotate)
  qed
qed

lemma ring_in:
  assumes "ring n p xs" "x \<in> set xs"
  shows "\<exists>y \<in> set xs. n x = Some y" "\<exists>y \<in> set xs. p x = Some y"
proof -
  obtain zs where z: "ring n p (x # zs)" "set xs = insert x (set zs)"
    using ring_rotate_to [OF assms] by metis
  show "\<exists>y \<in> set xs. n x = Some y" "\<exists>y \<in> set xs. p x = Some y"
    using ring_head_ends [OF z(1)] z(2) hd_in_set [of zs] last_in_set [of zs] by auto
qed

lemma ring_self_iff:
  assumes "ring n p xs" "x \<in> set xs"
  shows "p x = Some x \<longleftrightarrow> xs = [x]" "n x = Some x \<longleftrightarrow> xs = [x]"
proof -
  obtain zs where z: "ring n p (x # zs)" "x \<notin> set zs" "xs = [x] \<longleftrightarrow> zs = []"
    using ring_rotate_to [OF assms] by metis
  show "p x = Some x \<longleftrightarrow> xs = [x]" "n x = Some x \<longleftrightarrow> xs = [x]"
    using ring_head_ends [OF z(1)] z(2,3) hd_in_set [of zs] last_in_set [of zs] by auto
qed

subsection \<open>Insertion between the last node and the head\<close>

lemma ring_insert:
  assumes "ring n p xs" "x \<notin> set xs"
  shows "ring (n(last xs := Some x, x := Some (hd xs))) (p(x := Some (last xs), hd xs := Some x)) (xs @ [x])"
proof -
  let ?n = "n(last xs := Some x, x := Some (hd xs))"
  let ?p = "p(x := Some (last xs), hd xs := Some x)"
  from assms have ne: "xs \<noteq> []" and d: "distinct xs" by (auto simp: ring_def)
  have bl: "xs = butlast xs @ [last xs]" using ne by simp
  have hx: "hd xs \<noteq> x" "last xs \<noteq> x" using assms(2) ne by auto
  from assms(1) have "links n p (xs @ [hd xs])" by (simp add: ring_def)
  then have l: "links n p xs" using ne links_append [of n p "butlast xs" "last xs" "[hd xs]"] bl
    by (metis append.assoc append_Cons append_Nil)
  have "links ?n ?p xs"
  proof (rule links_cong [OF l])
    fix y assume y: "y \<in> set (butlast xs)"
    then have "y \<noteq> last xs" using d bl by (metis disjoint_insert(1) distinct_append list.set(2))
    then show "?n y = n y" using y assms(2) by (auto dest: in_set_butlastD)
  next
    fix y assume y: "y \<in> set (tl xs)"
    then have "y \<noteq> hd xs" using d by (cases xs) auto
    then show "?p y = p y" using y assms(2) by (auto dest: list.set_sel(2) [OF ne])
  qed
  moreover have "?n (last xs) = Some x" "?p x = Some (last xs)" "?n x = Some (hd xs)" "?p (hd xs) = Some x"
    using hx by auto
  ultimately have "links ?n ?p (butlast xs @ [last xs, x, hd xs])"
    using bl links_append [of ?n ?p "butlast xs" "last xs" "[x, hd xs]"] by simp
  then have "links ?n ?p ((xs @ [x]) @ [hd (xs @ [x])])"
    using bl ne by (metis append.assoc append_Cons append_Nil hd_append2)
  with d assms(2) show ?thesis by (simp add: ring_def)
qed

lemma ring_insert_front:
  assumes "ring n p xs" "x \<notin> set xs"
  shows "ring (n(last xs := Some x, x := Some (hd xs))) (p(x := Some (last xs), hd xs := Some x)) (x # xs)"
  using ring_insert [OF assms] by (simp add: ring_rotate1)

subsection \<open>Removal\<close>

lemma ring_remove_head:
  assumes "ring n p (x # xs)" "xs \<noteq> []"
    and "n' (last xs) = Some (hd xs)" "p' (hd xs) = Some (last xs)"
    and "\<And>y. y \<in> set xs \<Longrightarrow> y \<noteq> last xs \<Longrightarrow> n' y = n y"
    and "\<And>y. y \<in> set xs \<Longrightarrow> y \<noteq> hd xs \<Longrightarrow> p' y = p y"
  shows "ring n' p' xs"
proof -
  from assms(1) have d: "distinct xs" and "links n p (x # xs @ [x])" by (auto simp: ring_Cons)
  moreover have bl: "xs = butlast xs @ [last xs]" using assms(2) by simp
  ultimately have "links n p xs"
    using links_append [of n p "[]" "hd xs" "tl xs @ [x]"] links_append [of n p "butlast xs" "last xs" "[x]"]
      links.simps(1) [of n p x "hd xs" "tl xs @ [x]"]
    by (metis append.assoc append_Cons append_Nil assms(2) list.collapse)
  then have "links n' p' xs"
  proof (rule links_cong)
    fix y assume y: "y \<in> set (butlast xs)"
    then have "y \<noteq> last xs" using d bl by (metis disjoint_insert(1) distinct_append list.set(2))
    then show "n' y = n y" using y assms(5) by (auto dest: in_set_butlastD)
  next
    fix y assume y: "y \<in> set (tl xs)"
    then have "y \<noteq> hd xs" using d by (cases xs) auto
    then show "p' y = p y" using y assms(6) by (auto dest: list.set_sel(2) [OF assms(2)])
  qed
  then have "links n' p' (butlast xs @ [last xs, hd xs])"
    using bl assms(3,4) by (simp add: links_snoc2)
  then have "links n' p' (xs @ [hd xs])" using bl by (metis append.assoc append_Cons append_Nil)
  with d assms(2) show ?thesis by (simp add: ring_def)
qed

text \<open>
  The two writes of a removal, \<open>pred->next = succ\<close> and \<open>succ->prev = pred\<close>, followed by any
  write to the removed node itself.
\<close>

lemma ring_remove:
  assumes "ring n p xs" "x \<in> set xs" "xs \<noteq> [x]" "p x = Some a" "n x = Some b"
  shows "ring (n(a := Some b, x := u)) (p(b := Some a, x := v)) (remove1 x xs)"
    "a \<in> set xs" "b \<in> set xs" "a \<noteq> x" "b \<noteq> x"
proof -
  obtain zs where z: "ring n p (x # zs)" "set xs = insert x (set zs)" "x \<notin> set zs"
    "xs = [x] \<longleftrightarrow> zs = []" "\<And>n' p'. ring n' p' (remove1 x xs) \<longleftrightarrow> ring n' p' zs"
    using ring_rotate_to [OF assms(1,2)] by metis
  have ne: "zs \<noteq> []" using assms(3) z(4) by simp
  have a: "a = last zs" and b: "b = hd zs"
    using ring_head_ends [OF z(1)] assms(4,5) ne by auto
  show ab: "a \<in> set xs" "b \<in> set xs" "a \<noteq> x" "b \<noteq> x"
    using ne z(2,3) last_in_set [OF ne] hd_in_set [OF ne] a b by auto
  have "ring (n(a := Some b, x := u)) (p(b := Some a, x := v)) zs"
    by (rule ring_remove_head [OF z(1) ne]) (use a b ab z(3) in auto)
  then show "ring (n(a := Some b, x := u)) (p(b := Some a, x := v)) (remove1 x xs)"
    using z(5) by simp
qed

end
