(* ===== verification/Book_Inv.thy ===== *)
theory Book_Inv
  imports Order_Book_Ops Ring Matching
begin

text \<open>
  The representation invariant of the order book. The fields of pool objects are read
  through views (\<open>pnext\<close>, \<open>qprice\<close>, ...), functions on block indices that a pointer write
  changes at one index, so that the ring lemmas apply to them. \<open>book_rep swp b S\<close> relates
  a book to its shape \<open>S\<close>: for each side the list of its levels, best first, each with the
  list of its orders, oldest first. The flag \<open>swp\<close> is the convention for the two head
  pointers: with \<open>False\<close> buy levels hang off \<open>bids_by_price_\<close>, as \<open>removeOrdersAtPrice\<close>
  and \<open>checkForMatch\<close> assume; with \<open>True\<close> they hang off \<open>asks_by_price_\<close>, as
  \<open>addOrderAtPrice\<close> arranges.
\<close>

subsection \<open>Views of the two pools\<close>

definition pnext :: "MEOrder MemPool \<Rightarrow> nat \<Rightarrow> ptr" where "pnext p = (\<lambda>i. next_order (obj p i))"
definition pprev :: "MEOrder MemPool \<Rightarrow> nat \<Rightarrow> ptr" where "pprev p = (\<lambda>i. prev_order (obj p i))"

definition strip :: "MEOrder \<Rightarrow> MEOrder" where
  "strip x = x\<lparr>prev_order := None, next_order := None\<rparr>"

definition pdata :: "MEOrder MemPool \<Rightarrow> nat \<Rightarrow> MEOrder" where "pdata p = (\<lambda>i. strip (obj p i))"

definition qnext :: "MEOrdersAtPrice MemPool \<Rightarrow> nat \<Rightarrow> ptr" where "qnext p = (\<lambda>i. next_entry (obj p i))"
definition qprev :: "MEOrdersAtPrice MemPool \<Rightarrow> nat \<Rightarrow> ptr" where "qprev p = (\<lambda>i. prev_entry (obj p i))"
definition qfirst :: "MEOrdersAtPrice MemPool \<Rightarrow> nat \<Rightarrow> ptr" where "qfirst p = (\<lambda>i. first_me_order (obj p i))"
definition qside :: "MEOrdersAtPrice MemPool \<Rightarrow> nat \<Rightarrow> Side" where "qside p = (\<lambda>i. l_side (obj p i))"
definition qprice :: "MEOrdersAtPrice MemPool \<Rightarrow> nat \<Rightarrow> Price" where "qprice p = (\<lambda>i. l_price (obj p i))"

lemmas pool_view_defs =
  pnext_def pprev_def pdata_def qnext_def qprev_def qfirst_def qside_def qprice_def

named_theorems views \<open>fields of pool objects as views\<close>

lemma strip_fields [simp]:
  "o_ticker_id (strip x) = o_ticker_id x" "o_client_id (strip x) = o_client_id x"
  "o_client_order_id (strip x) = o_client_order_id x"
  "o_market_order_id (strip x) = o_market_order_id x" "o_side (strip x) = o_side x"
  "o_price (strip x) = o_price x" "o_quantity (strip x) = o_quantity x"
  "o_priority (strip x) = o_priority x"
  "strip (x\<lparr>prev_order := v\<rparr>) = strip x" "strip (x\<lparr>next_order := v\<rparr>) = strip x"
  "strip (x\<lparr>o_quantity := q\<rparr>) = (strip x)\<lparr>o_quantity := q\<rparr>"
  by (simp_all add: strip_def)

lemma order_field_views [views]:
  "next_order (obj p i) = pnext p i" "prev_order (obj p i) = pprev p i"
  "o_ticker_id (obj p i) = o_ticker_id (pdata p i)" "o_client_id (obj p i) = o_client_id (pdata p i)"
  "o_client_order_id (obj p i) = o_client_order_id (pdata p i)"
  "o_market_order_id (obj p i) = o_market_order_id (pdata p i)"
  "o_side (obj p i) = o_side (pdata p i)" "o_price (obj p i) = o_price (pdata p i)"
  "o_quantity (obj p i) = o_quantity (pdata p i)" "o_priority (obj p i) = o_priority (pdata p i)"
  "strip (obj p i) = pdata p i"
  by (simp_all add: pool_view_defs)

lemma level_field_views [views]:
  "next_entry (obj q i) = qnext q i" "prev_entry (obj q i) = qprev q i"
  "first_me_order (obj q i) = qfirst q i" "l_side (obj q i) = qside q i" "l_price (obj q i) = qprice q i"
  by (simp_all add: pool_view_defs)

lemma order_set_obj_views [views]:
  "pnext (set_obj i v p) = (pnext p)(i := next_order v)"
  "pprev (set_obj i v p) = (pprev p)(i := prev_order v)"
  "pdata (set_obj i v p) = (pdata p)(i := strip v)"
  by (auto simp: pool_view_defs fun_eq_iff)

lemma level_set_obj_views [views]:
  "qnext (set_obj i w q) = (qnext q)(i := next_entry w)"
  "qprev (set_obj i w q) = (qprev q)(i := prev_entry w)"
  "qfirst (set_obj i w q) = (qfirst q)(i := first_me_order w)"
  "qside (set_obj i w q) = (qside q)(i := l_side w)"
  "qprice (set_obj i w q) = (qprice q)(i := l_price w)"
  by (auto simp: pool_view_defs fun_eq_iff)

lemma deallocate_views:
  "deallocate (int i) p = Inr p' \<Longrightarrow> pnext p' = pnext p \<and> pprev p' = pprev p \<and> pdata p' = pdata p"
  "deallocate (int i) q = Inr q' \<Longrightarrow> qnext q' = qnext q \<and> qprev q' = qprev q \<and> qfirst q' = qfirst q \<and>
     qside q' = qside q \<and> qprice q' = qprice q"
  by (auto simp: deallocate_Inr_iff pool_view_defs fun_eq_iff)

lemma allocate_views:
  "allocate v p = Inr (i, p') \<Longrightarrow> pnext p' = (pnext p)(i := next_order v) \<and>
     pprev p' = (pprev p)(i := prev_order v) \<and> pdata p' = (pdata p)(i := strip v)"
  "allocate w q = Inr (i, q') \<Longrightarrow> qnext q' = (qnext q)(i := next_entry w) \<and>
     qprev q' = (qprev q)(i := prev_entry w) \<and> qfirst q' = (qfirst q)(i := first_me_order w) \<and>
     qside q' = (qside q)(i := l_side w) \<and> qprice q' = (qprice q)(i := l_price w)"
  using allocate_live(4,5) [of v p i p'] allocate_live(4,5) [of w q i q']
  by (auto simp: pool_view_defs fun_eq_iff)

text \<open>A pointer to a block of the pool can be read and written.\<close>

lemma ord_Some [simp]: "i < pool_size (order_pool b) \<Longrightarrow> ord (Some i) b = Inr (obj (order_pool b) i)"
  by (simp add: ord_def)

lemma lvl_Some [simp]:
  "i < pool_size (orders_at_price_pool b) \<Longrightarrow> lvl (Some i) b = Inr (obj (orders_at_price_pool b) i)"
  by (simp add: lvl_def)

lemma upd_ord_Some [simp]: "i < pool_size (order_pool b) \<Longrightarrow> upd_ord (Some i) f b =
    Inr (b\<lparr>order_pool := set_obj i (f (obj (order_pool b) i)) (order_pool b)\<rparr>)"
  by (simp add: upd_ord_def)

lemma upd_lvl_Some [simp]: "i < pool_size (orders_at_price_pool b) \<Longrightarrow> upd_lvl (Some i) f b =
    Inr (b\<lparr>orders_at_price_pool := set_obj i (f (obj (orders_at_price_pool b) i)) (orders_at_price_pool b)\<rparr>)"
  by (simp add: upd_lvl_def)

lemma null_deref [simp]:
  "ord None b = Inl Null_deref" "lvl None b = Inl Null_deref"
  "upd_ord None f b = Inl Null_deref" "upd_lvl None g b = Inl Null_deref"
  by (simp_all add: ord_def lvl_def upd_ord_def upd_lvl_def)

subsection \<open>The invariant\<close>

type_synonym shape = "Side \<Rightarrow> (nat \<times> nat list) list"

definition entries :: "shape \<Rightarrow> (nat \<times> nat list) set" where
  "entries S = set (S Side_BUY) \<union> set (S Side_SELL)"

definition resting :: "shape \<Rightarrow> nat set" where
  "resting S = (\<Union>(l, os) \<in> entries S. set os)"

definition lidx :: "MEOrdersAtPrice MemPool \<Rightarrow> nat \<Rightarrow> nat" where
  "lidx q l = unat (priceToIndex (qprice q l))"

definition order_ok :: "MEOrder MemPool \<Rightarrow> Side \<Rightarrow> Price \<Rightarrow> nat \<Rightarrow> bool" where
  "order_ok p s price i \<longleftrightarrow> i \<in> live p \<and> o_side (pdata p i) = s \<and> o_price (pdata p i) = price \<and>
     in_hash (o_client_id (pdata p i)) (o_client_order_id (pdata p i))"

fun level_ok :: "MEOrder MemPool \<Rightarrow> MEOrdersAtPrice MemPool \<Rightarrow> Side \<Rightarrow> nat \<times> nat list \<Rightarrow> bool" where
  "level_ok p q s (l, os) \<longleftrightarrow> l \<in> live q \<and> qside q l = s \<and> qfirst q l = Some (hd os) \<and>
     ring (pnext p) (pprev p) os \<and> (\<forall>i \<in> set os. order_ok p s (qprice q l) i)"

definition head_of :: "bool \<Rightarrow> Side \<Rightarrow> MEOrderBook \<Rightarrow> ptr" where
  "head_of swp s b = (if (s = Side_BUY) \<noteq> swp then bids_by_price b else asks_by_price b)"

definition side_ring :: "MEOrdersAtPrice MemPool \<Rightarrow> ptr \<Rightarrow> nat list \<Rightarrow> bool" where
  "side_ring q head ls \<longleftrightarrow> (if ls = [] then head = None else head = Some (hd ls) \<and> ring (qnext q) (qprev q) ls)"

fun apart :: "MEOrdersAtPrice MemPool \<Rightarrow> nat \<times> nat list \<Rightarrow> nat \<times> nat list \<Rightarrow> bool" where
  "apart q (l, os) (m, ps) \<longleftrightarrow> l \<noteq> m \<and> set os \<inter> set ps = {} \<and> lidx q l \<noteq> lidx q m"

definition slots_ok :: "MEOrderBook \<Rightarrow> (nat \<times> nat list) set \<Rightarrow> bool" where
  "slots_ok b E \<longleftrightarrow> (\<forall>k < ME_MAX_PRICE_LEVELS. \<forall>l. price_orders_at_price b k = Some l \<longleftrightarrow>
     l \<in> fst ` E \<and> lidx (orders_at_price_pool b) l = k)"

definition hash_ok :: "MEOrderBook \<Rightarrow> nat set \<Rightarrow> bool" where
  "hash_ok b R \<longleftrightarrow> (\<forall>c < ME_MAX_NUM_CLIENTS. \<forall>k < ME_MAX_ORDER_IDS. \<forall>i. cid_oid_to_order b c k = Some i \<longleftrightarrow>
     i \<in> R \<and> unat (o_client_id (pdata (order_pool b) i)) = c \<and>
     unat (o_client_order_id (pdata (order_pool b) i)) = k)"

definition sides_ok :: "bool \<Rightarrow> MEOrderBook \<Rightarrow> shape \<Rightarrow> bool" where
  "sides_ok swp b S \<longleftrightarrow> (\<forall>s \<in> {Side_BUY, Side_SELL}.
     (\<forall>e \<in> set (S s). level_ok (order_pool b) (orders_at_price_pool b) s e) \<and>
     side_ring (orders_at_price_pool b) (head_of swp s b) (map fst (S s)))"

definition book_rep :: "bool \<Rightarrow> MEOrderBook \<Rightarrow> shape \<Rightarrow> bool" where
  "book_rep swp b S \<longleftrightarrow> sides_ok swp b S \<and>
     pairwise (apart (orders_at_price_pool b)) (entries S) \<and>
     slots_ok b (entries S) \<and> hash_ok b (resting S) \<and>
     pool_inv (order_pool b) \<and> pool_inv (orders_at_price_pool b)"

lemma priceToIndex_bound: "unat (priceToIndex p) < ME_MAX_PRICE_LEVELS"
  by (simp add: priceToIndex_def ME_MAX_PRICE_LEVELS_def unat_mod)

lemma lidx_bound: "lidx q l < ME_MAX_PRICE_LEVELS"
  by (simp add: lidx_def priceToIndex_bound)

lemma entriesI: "e \<in> set (S s) \<Longrightarrow> s \<in> {Side_BUY, Side_SELL} \<Longrightarrow> e \<in> entries S"
  by (auto simp: entries_def)

lemma entriesE: "e \<in> entries S \<Longrightarrow> (\<And>s. s \<in> {Side_BUY, Side_SELL} \<Longrightarrow> e \<in> set (S s) \<Longrightarrow> P) \<Longrightarrow> P"
  by (auto simp: entries_def)

lemma resting_iff: "i \<in> resting S \<longleftrightarrow> (\<exists>l os. (l, os) \<in> entries S \<and> i \<in> set os)"
  by (auto simp: resting_def)

lemma restingE:
  assumes "i \<in> resting S"
  obtains s l os where "s \<in> {Side_BUY, Side_SELL}" "(l, os) \<in> set (S s)" "i \<in> set os"
  using assms by (auto simp: resting_iff elim!: entriesE)

text \<open>An empty book, with both arrays cleared, satisfies the invariant under both conventions.\<close>

lemma book_rep_new:
  "book_rep swp (newMEOrderBook (\<lambda>_ _. None) (\<lambda>_. None) tk) (\<lambda>_. [])"
  by (simp add: book_rep_def sides_ok_def newMEOrderBook_def side_ring_def head_of_def entries_def
      resting_def slots_ok_def hash_ok_def pool_inv_MemPool ME_MAX_ORDER_IDS_def ME_MAX_PRICE_LEVELS_def)

subsection \<open>Consequences and frame rules\<close>

lemma level_ok_cong:
  assumes "level_ok p q s (l, os)"
    and "l \<in> live q'" "qside q' l = qside q l" "qfirst q' l = qfirst q l" "qprice q' l = qprice q l"
    and "\<And>i. i \<in> set os \<Longrightarrow> pnext p' i = pnext p i \<and> pprev p' i = pprev p i \<and> i \<in> live p' \<and>
      o_side (pdata p' i) = o_side (pdata p i) \<and> o_price (pdata p' i) = o_price (pdata p i) \<and>
      o_client_id (pdata p' i) = o_client_id (pdata p i) \<and>
      o_client_order_id (pdata p' i) = o_client_order_id (pdata p i)"
  shows "level_ok p' q' s (l, os)"
  using assms by (auto simp: order_ok_def elim!: ring_cong)

lemma book_rep_level:
  assumes "book_rep swp b S" "s \<in> {Side_BUY, Side_SELL}" "(l, os) \<in> set (S s)"
  shows "level_ok (order_pool b) (orders_at_price_pool b) s (l, os)"
  using assms unfolding book_rep_def sides_ok_def by blast

lemma book_rep_side:
  assumes "book_rep swp b S" "s \<in> {Side_BUY, Side_SELL}"
  shows "side_ring (orders_at_price_pool b) (head_of swp s b) (map fst (S s))"
  using assms unfolding book_rep_def sides_ok_def by blast

lemma book_rep_slot:
  assumes "book_rep swp b S" "(l, os) \<in> entries S" "qprice (orders_at_price_pool b) l = price"
  shows "getOrdersAtPrice price b = Some l"
  using assms lidx_bound [of "orders_at_price_pool b" l]
  by (force simp: book_rep_def slots_ok_def getOrdersAtPrice_def lidx_def)

lemma book_rep_slot_free:
  assumes "book_rep swp b S" "(l, os) \<in> entries S" "getOrdersAtPrice price b = None"
  shows "lidx (orders_at_price_pool b) l \<noteq> unat (priceToIndex price)"
proof
  assume "lidx (orders_at_price_pool b) l = unat (priceToIndex price)"
  moreover have "l \<in> fst ` entries S" using assms(2) by force
  ultimately have "price_orders_at_price b (unat (priceToIndex price)) = Some l"
    using assms(1) priceToIndex_bound [of price] by (simp add: book_rep_def slots_ok_def)
  with assms(3) show False by (simp add: getOrdersAtPrice_def)
qed

lemma book_rep_unique:
  assumes "book_rep swp b S" "(l, os) \<in> entries S" "(m, ps) \<in> entries S" "l = m \<or> set os \<inter> set ps \<noteq> {}"
  shows "(l, os) = (m, ps)"
  using assms by (fastforce simp: book_rep_def pairwise_def)

lemma side_ring_distinct: "side_ring q h ls \<Longrightarrow> distinct ls"
  by (auto simp: side_ring_def ring_distinct split: if_splits)

end
