(* ===== verification/Book_Remove.thy ===== *)
theory Book_Remove
  imports Book_Inv
begin

text \<open>
  Removal of an order from a well-formed book: the state \<open>removeOrder\<close> and
  \<open>removeOrdersAtPrice\<close> leave behind, computed through the views, and the proof that it
  represents the shape with that order taken out (and its level, when it was the last one).
\<close>

lemma free_order_Some:
  assumes "i \<in> live (order_pool b)"
  shows "\<exists>p'. free_order (Some i) b = Inr (b\<lparr>order_pool := p'\<rparr>) \<and> live p' = live (order_pool b) - {i} \<and>
    pnext p' = pnext (order_pool b) \<and> pprev p' = pprev (order_pool b) \<and> pdata p' = pdata (order_pool b) \<and>
    (pool_inv (order_pool b) \<longrightarrow> pool_inv p')"
proof -
  obtain p' where d: "deallocate (int i) (order_pool b) = Inr p'"
    using assms deallocate_Inr_iff by blast
  show ?thesis
    using deallocate_live [OF d] deallocate_views(1) [OF d] d
    by (intro exI [of _ p']) (simp add: free_order_def ptr_index_def)
qed

lemma free_level_Some:
  assumes "l \<in> live (orders_at_price_pool b)"
  shows "\<exists>q'. free_level (Some l) b = Inr (b\<lparr>orders_at_price_pool := q'\<rparr>) \<and>
    live q' = live (orders_at_price_pool b) - {l} \<and>
    qnext q' = qnext (orders_at_price_pool b) \<and> qprev q' = qprev (orders_at_price_pool b) \<and>
    qfirst q' = qfirst (orders_at_price_pool b) \<and> qside q' = qside (orders_at_price_pool b) \<and>
    qprice q' = qprice (orders_at_price_pool b) \<and> (pool_inv (orders_at_price_pool b) \<longrightarrow> pool_inv q')"
proof -
  obtain q' where d: "deallocate (int l) (orders_at_price_pool b) = Inr q'"
    using assms deallocate_Inr_iff by blast
  show ?thesis
    using deallocate_live [OF d] deallocate_views(2) [OF d] d
    by (intro exI [of _ q']) (simp add: free_level_def ptr_index_def)
qed

lemma book_pool_upds [simp]:
  "b\<lparr>orders_at_price_pool := x, order_pool := y\<rparr> = b\<lparr>order_pool := y, orders_at_price_pool := x\<rparr>"
  by simp

lemma book_pool_same [simp]: "orders_at_price_pool b = q \<Longrightarrow> b\<lparr>order_pool := y, orders_at_price_pool := q\<rparr> = b\<lparr>order_pool := y\<rparr>"
  by auto

subsection \<open>The order has neighbours\<close>

lemma removeOrder_many:
  assumes pq [simp]: "order_pool b = p" "orders_at_price_pool b = q"
    and live: "i \<in> live p" and h: "in_hash (o_client_id (pdata p i)) (o_client_order_id (pdata p i))"
    and nb: "pprev p i = Some a" "pnext p i = Some c" "a \<noteq> i" "c \<noteq> i" "a < pool_size p" "c < pool_size p"
    and slot: "getOrdersAtPrice (o_price (pdata p i)) b = Some l" "l < pool_size q"
  shows "\<exists>p' q'. removeOrder (Some i) b = Inr (hash_upd (o_client_id (pdata p i))
      (o_client_order_id (pdata p i)) None (b\<lparr>order_pool := p', orders_at_price_pool := q'\<rparr>)) \<and>
    pnext p' = (pnext p)(a := Some c, i := None) \<and> pprev p' = (pprev p)(c := Some a, i := None) \<and>
    pdata p' = pdata p \<and> live p' = live p - {i} \<and> (pool_inv p \<longrightarrow> pool_inv p') \<and>
    qnext q' = qnext q \<and> qprev q' = qprev q \<and> qside q' = qside q \<and> qprice q' = qprice q \<and>
    qfirst q' = (if qfirst q l = Some i then (qfirst q)(l := Some c) else qfirst q) \<and>
    live q' = live q \<and> (pool_inv q \<longrightarrow> pool_inv q')"
proof -
  define p1 where "p1 = set_obj a ((obj p a)\<lparr>next_order := Some c\<rparr>) p"
  define p2 where "p2 = set_obj c ((obj p1 c)\<lparr>prev_order := Some a\<rparr>) p1"
  define p3 where "p3 = set_obj i ((obj p2 i)\<lparr>prev_order := None, next_order := None\<rparr>) p2"
  define q1 where "q1 = (if qfirst q l = Some i then set_obj l ((obj q l)\<lparr>first_me_order := Some c\<rparr>) q else q)"
  define cid where "cid = o_client_id (pdata p i)"
  define oid where "oid = o_client_order_id (pdata p i)"
  define b1 where "b1 = hash_upd cid oid None (b\<lparr>order_pool := p3, orders_at_price_pool := q1\<rparr>)"
  have i [simp]: "i < pool_size p" using live by (rule live_bound)
  have v: "pnext p3 = (pnext p)(a := Some c, i := None)" "pprev p3 = (pprev p)(c := Some a, i := None)"
    "pdata p3 = pdata p" "live p3 = live p" "pool_inv p3 = pool_inv p"
    using nb by (auto simp: p1_def p2_def p3_def views)
  have w: "qnext q1 = qnext q" "qprev q1 = qprev q" "qside q1 = qside q" "qprice q1 = qprice q"
    "qfirst q1 = (if qfirst q l = Some i then (qfirst q)(l := Some c) else qfirst q)"
    "live q1 = live q" "pool_inv q1 = pool_inv q"
    by (auto simp: q1_def views)
  have sz: "pool_size p1 = pool_size p" "pool_size p2 = pool_size p" "pool_size p3 = pool_size p"
    by (simp_all add: p1_def p2_def p3_def)
  have "removeOrder (Some i) b = noexcept (free_order (Some i) b1)"
    using nb slot h v(3)
    by (simp add: removeOrder_def views p1_def [symmetric] p2_def [symmetric] p3_def [symmetric] sz
        hash_at_store_def cid_def [symmetric] oid_def [symmetric] b1_def q1_def)
  moreover obtain p' where "free_order (Some i) b1 = Inr (b1\<lparr>order_pool := p'\<rparr>)"
    "live p' = live p3 - {i}" "pnext p' = pnext p3" "pprev p' = pprev p3" "pdata p' = pdata p3"
    "pool_inv p3 \<longrightarrow> pool_inv p'"
    using free_order_Some [of i b1] live v(4) by (auto simp: b1_def hash_upd_def)
  ultimately show ?thesis
    using v w by (intro exI [of _ p'] exI [of _ q1]) (simp add: b1_def hash_upd_def cid_def oid_def)
qed

subsection \<open>The order is the last of its level\<close>

lemma set_best_pools [simp]:
  "orders_at_price_pool (set_best s h b) = orders_at_price_pool b"
  "orders_at_price_pool (set_level_slot price h b) = orders_at_price_pool b"
  by (simp_all add: set_best_def set_level_slot_def)

lemma getOrdersAtPrice_frame [simp]:
  "getOrdersAtPrice price (b\<lparr>orders_at_price_pool := q\<rparr>) = getOrdersAtPrice price b"
  "getOrdersAtPrice price (b\<lparr>order_pool := p\<rparr>) = getOrdersAtPrice price b"
  by (simp_all add: getOrdersAtPrice_def)

lemma removeOrdersAtPrice_single:
  assumes q [simp]: "orders_at_price_pool b = q"
    and slot: "getOrdersAtPrice price b = Some l" and live: "l \<in> live q" and self: "qnext q l = Some l"
  shows "\<exists>q'. removeOrdersAtPrice side price b =
      Inr ((set_level_slot price None (set_best side None b))\<lparr>orders_at_price_pool := q'\<rparr>) \<and>
    qnext q' = qnext q \<and> qprev q' = qprev q \<and> qside q' = qside q \<and> qprice q' = qprice q \<and>
    qfirst q' = qfirst q \<and> live q' = live q - {l} \<and> (pool_inv q \<longrightarrow> pool_inv q')"
proof -
  let ?b1 = "set_level_slot price None (set_best side None b)"
  have [simp]: "l < pool_size q" using live by (rule live_bound)
  have "removeOrdersAtPrice side price b = noexcept (free_level (Some l) ?b1)"
    using slot self by (simp add: removeOrdersAtPrice_def views)
  with free_level_Some [of l ?b1] live show ?thesis by auto
qed

lemma removeOrdersAtPrice_many:
  assumes q [simp]: "orders_at_price_pool b = q"
    and slot: "getOrdersAtPrice price b = Some l" and live: "l \<in> live q"
    and nb: "qprev q l = Some a" "qnext q l = Some c" "a \<noteq> l" "c \<noteq> l" "a < pool_size q" "c < pool_size q"
  shows "\<exists>q'. removeOrdersAtPrice side price b =
      Inr ((set_level_slot price None (if head_of False side b = Some l then set_best side (Some c) b else b))
        \<lparr>orders_at_price_pool := q'\<rparr>) \<and>
    qnext q' = (qnext q)(a := Some c, l := None) \<and> qprev q' = (qprev q)(c := Some a, l := None) \<and>
    qside q' = qside q \<and> qprice q' = qprice q \<and> qfirst q' = qfirst q \<and>
    live q' = live q - {l} \<and> (pool_inv q \<longrightarrow> pool_inv q')"
proof -
  define q1 where "q1 = set_obj a ((obj q a)\<lparr>next_entry := Some c\<rparr>) q"
  define q2 where "q2 = set_obj c ((obj q1 c)\<lparr>prev_entry := Some a\<rparr>) q1"
  define q3 where "q3 = set_obj l ((obj q2 l)\<lparr>prev_entry := None, next_entry := None\<rparr>) q2"
  let ?h = "\<lambda>b. if head_of False side b = Some l then set_best side (Some c) b else b"
  define b1 where "b1 = set_level_slot price None ((?h b)\<lparr>orders_at_price_pool := q3\<rparr>)"
  have [simp]: "l < pool_size q" using live by (rule live_bound)
  have v: "qnext q3 = (qnext q)(a := Some c, l := None)" "qprev q3 = (qprev q)(c := Some a, l := None)"
    "qside q3 = qside q" "qprice q3 = qprice q" "qfirst q3 = qfirst q" "live q3 = live q" "pool_inv q3 = pool_inv q"
    using nb by (auto simp: q1_def q2_def q3_def views)
  have u: "qnext q1 = (qnext q)(a := Some c)" "qprev q1 = qprev q" "qnext q2 l = qnext q l"
    using nb by (auto simp: q1_def q2_def views)
  have sz: "pool_size q1 = pool_size q" "pool_size q2 = pool_size q" "pool_size q3 = pool_size q"
    by (simp_all add: q1_def q2_def q3_def)
  have ul: "unlink_level (Some l) b = Inr (b\<lparr>orders_at_price_pool := q2\<rparr>)"
    using nb u by (simp add: unlink_level_def views q1_def [symmetric] q2_def [symmetric] sz)
  have "removeOrdersAtPrice side price b = noexcept (free_level (Some l) b1)"
    using slot nb u ul by (simp add: removeOrdersAtPrice_def views sz q3_def [symmetric] b1_def head_of_def
        set_best_def set_level_slot_def)
  moreover obtain q' where "free_level (Some l) b1 = Inr (b1\<lparr>orders_at_price_pool := q'\<rparr>)"
    "live q' = live q3 - {l}" "qnext q' = qnext q3" "qprev q' = qprev q3" "qfirst q' = qfirst q3"
    "qside q' = qside q3" "qprice q' = qprice q3" "pool_inv q3 \<longrightarrow> pool_inv q'"
    using free_level_Some [of l b1] live v(6) by (auto simp: b1_def set_level_slot_def)
  ultimately show ?thesis
    using v by (intro exI [of _ q']) (simp add: b1_def set_level_slot_def set_best_def)
qed

lemma removeOrder_last:
  assumes p [simp]: "order_pool b = p"
    and live: "i \<in> live p" and h: "in_hash (o_client_id (pdata p i)) (o_client_order_id (pdata p i))"
    and self: "pprev p i = Some i"
    and rm: "removeOrdersAtPrice (o_side (pdata p i)) (o_price (pdata p i)) b = Inr b1"
  shows "\<exists>p'. removeOrder (Some i) b = Inr ((hash_upd (o_client_id (pdata p i))
      (o_client_order_id (pdata p i)) None b1)\<lparr>order_pool := p'\<rparr>) \<and>
    pnext p' = pnext p \<and> pprev p' = pprev p \<and> pdata p' = pdata p \<and> live p' = live p - {i} \<and>
    (pool_inv p \<longrightarrow> pool_inv p')"
proof -
  let ?b2 = "hash_upd (o_client_id (pdata p i)) (o_client_order_id (pdata p i)) None b1"
  have [simp]: "i < pool_size p" using live by (rule live_bound)
  have p1 [simp]: "order_pool b1 = p" using removeOrdersAtPrice_orders [OF rm] by simp
  have p2: "order_pool ?b2 = p" by (simp add: hash_upd_def)
  have "removeOrder (Some i) b = noexcept (free_order (Some i) ?b2)"
    using self rm h by (simp add: removeOrder_def views hash_at_store_def)
  with free_order_Some [of i ?b2] live p2 show ?thesis by auto
qed

subsection \<open>The shape without an order\<close>

definition remove_from :: "nat \<Rightarrow> (nat \<times> nat list) list \<Rightarrow> (nat \<times> nat list) list" where
  "remove_from i ls = filter (\<lambda>e. snd e \<noteq> []) (map (\<lambda>e. (fst e, remove1 i (snd e))) ls)"

lemma remove_from_simps [simp]:
  "remove_from i [] = []"
  "remove_from i (e # ls) =
     (if remove1 i (snd e) = [] then remove_from i ls else (fst e, remove1 i (snd e)) # remove_from i ls)"
  by (simp_all add: remove_from_def)

lemma remove_from_append [simp]: "remove_from i (xs @ ys) = remove_from i xs @ remove_from i ys"
  by (simp add: remove_from_def)

lemma remove_from_id: "\<forall>e \<in> set ls. snd e \<noteq> [] \<and> i \<notin> set (snd e) \<Longrightarrow> remove_from i ls = ls"
  by (induction ls) (auto simp: remove1_idem)

lemma remove1_Nil_iff: "x \<in> set xs \<Longrightarrow> remove1 x xs = [] \<longleftrightarrow> xs = [x]"
  by (cases xs) auto

lemma book_rep_not_Nil:
  assumes "book_rep swp b S" "e \<in> entries S"
  shows "snd e \<noteq> []"
proof -
  obtain l os where e: "e = (l, os)" by (cases e)
  with assms(2) obtain s where "s \<in> {Side_BUY, Side_SELL}" "(l, os) \<in> set (S s)" by (auto elim: entriesE)
  from book_rep_level [OF assms(1) this] show ?thesis by (auto simp: e)
qed

lemma book_rep_others:
  assumes "book_rep swp b S" "(l, os) \<in> entries S" "i \<in> set os" "(m, ps) \<in> entries S" "(m, ps) \<noteq> (l, os)"
  shows "i \<notin> set ps" "m \<noteq> l" "set ps \<inter> set os = {}"
    "lidx (orders_at_price_pool b) m \<noteq> lidx (orders_at_price_pool b) l"
  using assms unfolding book_rep_def pairwise_def by fastforce+

text \<open>What the list of a side becomes, level by level.\<close>

lemma remove_from_side:
  assumes rep: "book_rep swp b S" and s: "s \<in> {Side_BUY, Side_SELL}"
    and lo: "(l, os) \<in> set (S s)" "i \<in> set os"
  shows "t \<in> {Side_BUY, Side_SELL} \<Longrightarrow> t \<noteq> s \<Longrightarrow> remove_from i (S t) = S t"
    "map fst (remove_from i (S s)) = (if os = [i] then remove1 l (map fst (S s)) else map fst (S s))"
    "set (remove_from i (S s)) =
       (if os = [i] then {} else {(l, remove1 i os)}) \<union> (set (S s) - {(l, os)})"
proof -
  have E: "(l, os) \<in> entries S" using entriesI [of _ S s] lo(1) s by blast
  have other: "remove_from i ls = ls" if "set ls \<subseteq> entries S" "(l, os) \<notin> set ls" for ls
    using that book_rep_not_Nil [OF rep] book_rep_others(1) [OF rep E lo(2)]
    by (intro remove_from_id) (metis prod.collapse subsetD)
  show "remove_from i (S t) = S t" if t: "t \<in> {Side_BUY, Side_SELL}" "t \<noteq> s"
  proof (rule other)
    show "set (S t) \<subseteq> entries S" using entriesI [of _ S t] t(1) by blast
    show "(l, os) \<notin> set (S t)"
      using book_rep_level [OF rep t(1), of l os] book_rep_level [OF rep s lo(1)] t(2) by auto
  qed
  obtain xs ys where S: "S s = xs @ (l, os) # ys" using lo(1) by (meson split_list)
  have d: "distinct (map fst (S s))" using side_ring_distinct [OF book_rep_side [OF rep s]] .
  have sub: "set xs \<subseteq> entries S" "set ys \<subseteq> entries S"
    using entriesI [of _ S s] s by (auto simp: S)
  have no: "(l, os) \<notin> set xs" "(l, os) \<notin> set ys" "l \<notin> fst ` set xs" using d S by (force simp: S)+
  have r: "remove_from i (S s) = xs @ (if os = [i] then ys else (l, remove1 i os) # ys)"
    using other [OF sub(1) no(1)] other [OF sub(2) no(2)] lo(2) by (simp add: S remove1_Nil_iff)
  show "map fst (remove_from i (S s)) = (if os = [i] then remove1 l (map fst (S s)) else map fst (S s))"
    using no(3) by (simp add: r) (simp add: S remove1_append)
  show "set (remove_from i (S s)) =
       (if os = [i] then {} else {(l, remove1 i os)}) \<union> (set (S s) - {(l, os)})"
    unfolding r using no by (auto simp: S)
qed

lemma remove_from_entries:
  assumes rep: "book_rep swp b S" and E: "(l, os) \<in> entries S" and i: "i \<in> set os"
  shows "entries (\<lambda>s. remove_from i (S s)) =
      (if os = [i] then {} else {(l, remove1 i os)}) \<union> (entries S - {(l, os)})"
    "resting (\<lambda>s. remove_from i (S s)) = resting S - {i}"
proof -
  obtain s where s: "s \<in> {Side_BUY, Side_SELL}" "(l, os) \<in> set (S s)" using E by (auto elim: entriesE)
  note side = remove_from_side [OF rep s i]
  have no: "(l, os) \<notin> set (S t)" if "t \<in> {Side_BUY, Side_SELL}" "t \<noteq> s" for t
    using book_rep_level [OF rep that(1), of l os] book_rep_level [OF rep s] that(2) by auto
  show ent: "entries (\<lambda>s. remove_from i (S s)) =
      (if os = [i] then {} else {(l, remove1 i os)}) \<union> (entries S - {(l, os)})"
    using s(1) side no by (auto simp: entries_def)
  have "distinct os" using book_rep_level [OF rep s] ring_distinct by auto
  moreover have "i \<notin> set ps" if "(m, ps) \<in> entries S" "(m, ps) \<noteq> (l, os)" for m ps
    using book_rep_others(1) [OF rep E i that] .
  ultimately show "resting (\<lambda>s. remove_from i (S s)) = resting S - {i}"
    using E unfolding resting_def ent by (auto split: if_splits)
qed

subsection \<open>The new state represents the new shape\<close>

lemma head_of_frame [simp]:
  "head_of swp s (b\<lparr>order_pool := x\<rparr>) = head_of swp s b"
  "head_of swp s (b\<lparr>orders_at_price_pool := y\<rparr>) = head_of swp s b"
  "head_of swp s (set_level_slot price h b) = head_of swp s b"
  "head_of swp s (hash_upd c k h b) = head_of swp s b"
  by (simp_all add: head_of_def set_level_slot_def hash_upd_def)

lemma head_of_set_best:
  "s \<in> {Side_BUY, Side_SELL} \<Longrightarrow> t \<in> {Side_BUY, Side_SELL} \<Longrightarrow>
   head_of False t (set_best s h b) = (if t = s then h else head_of False t b)"
  by (auto simp: head_of_def set_best_def)

lemma hash_upd_pools [simp]:
  "order_pool (hash_upd c k h b) = order_pool b"
  "orders_at_price_pool (hash_upd c k h b) = orders_at_price_pool b"
  "price_orders_at_price (hash_upd c k h b) = price_orders_at_price b"
  by (simp_all add: hash_upd_def)

lemma hash_ok_remove:
  assumes "hash_ok b R" "i \<in> R"
    and "in_hash (o_client_id (pdata (order_pool b) i)) (o_client_order_id (pdata (order_pool b) i))"
    and "cid_oid_to_order b' = cid_oid_to_order (hash_upd (o_client_id (pdata (order_pool b) i))
      (o_client_order_id (pdata (order_pool b) i)) None b)"
    and "pdata (order_pool b') = pdata (order_pool b)"
  shows "hash_ok b' (R - {i})"
proof -
  let ?c = "\<lambda>j. unat (o_client_id (pdata (order_pool b) j))" and ?k = "\<lambda>j. unat (o_client_order_id (pdata (order_pool b) j))"
  have key: "cid_oid_to_order b c k = Some j \<longleftrightarrow> j \<in> R \<and> ?c j = c \<and> ?k j = k"
    if "c < ME_MAX_NUM_CLIENTS" "k < ME_MAX_ORDER_IDS" for c k j
    using assms(1) that by (auto simp: hash_ok_def)
  have self: "cid_oid_to_order b (?c i) (?k i) = Some i"
    using key [of "?c i" "?k i" i] assms(2,3) by (simp add: in_hash_def)
  show ?thesis unfolding hash_ok_def
  proof (intro allI impI)
    fix c k j assume ck: "c < ME_MAX_NUM_CLIENTS" "k < ME_MAX_ORDER_IDS"
    have upd: "cid_oid_to_order b' c k = (if c = ?c i \<and> k = ?k i then None else cid_oid_to_order b c k)"
      by (simp add: assms(4) hash_upd_def)
    show "cid_oid_to_order b' c k = Some j \<longleftrightarrow> j \<in> R - {i} \<and>
       unat (o_client_id (pdata (order_pool b') j)) = c \<and> unat (o_client_order_id (pdata (order_pool b') j)) = k"
    proof (cases "c = ?c i \<and> k = ?k i")
      case True
      then have "cid_oid_to_order b c k = Some i" using self by simp
      with key [OF ck, of j] have "j \<in> R \<and> ?c j = c \<and> ?k j = k \<longleftrightarrow> j = i" by auto
      with True show ?thesis unfolding upd assms(5) by auto
    next
      case False
      then show ?thesis unfolding upd assms(5) using key [OF ck, of j] by auto
    qed
  qed
qed

lemma apart_cong: "lidx q' = lidx q \<Longrightarrow> apart q' = apart q"
  by (auto simp: fun_eq_iff)

lemma apart_replace:
  assumes "pairwise (apart q) E" "(l, os) \<in> E" "set os' \<subseteq> set os"
  shows "pairwise (apart q) (insert (l, os') (E - {(l, os)}))"
proof -
  have "apart q (l, os') e \<and> apart q e (l, os')" if "e \<in> E" "e \<noteq> (l, os)" for e
  proof -
    obtain m ps where e: "e = (m, ps)" by (cases e)
    have "apart q (l, os) e" using pairwiseD [OF assms(1,2) that(1)] that(2) by simp
    with assms(3) show ?thesis by (auto simp: e)
  qed
  moreover have "pairwise (apart q) (E - {(l, os)})" using assms(1) by (rule pairwise_subset) auto
  ultimately show ?thesis by (simp add: pairwise_insert)
qed

text \<open>With its level changed and all others kept, the levels of both sides are as they should be.\<close>

lemma levels_replaced:
  assumes rep: "book_rep swp b S" and s: "s \<in> {Side_BUY, Side_SELL}"
    and lo: "(l, os) \<in> set (S s)" "i \<in> set os" "os \<noteq> [i]"
    and mine: "level_ok p' q' s (l, remove1 i os)"
    and others: "\<And>t m ps. t \<in> {Side_BUY, Side_SELL} \<Longrightarrow> (m, ps) \<in> set (S t) \<Longrightarrow> (m, ps) \<noteq> (l, os) \<Longrightarrow> level_ok p' q' t (m, ps)"
    and t: "t \<in> {Side_BUY, Side_SELL}" and e: "e \<in> set (remove_from i (S t))"
  shows "level_ok p' q' t e"
proof (cases "t = s")
  case True
  then have "e = (l, remove1 i os) \<or> e \<in> set (S t) \<and> e \<noteq> (l, os)"
    using e lo(3) remove_from_side(3) [OF rep s lo(1,2)] by auto
  then show ?thesis
  proof
    assume "e = (l, remove1 i os)" then show ?thesis using mine True by simp
  next
    assume o: "e \<in> set (S t) \<and> e \<noteq> (l, os)"
    show ?thesis using others [OF t, of "fst e" "snd e"] o unfolding prod.collapse by blast
  qed
next
  case False
  have o: "e \<in> set (S t)" using e remove_from_side(1) [OF rep s lo(1,2) t False] by simp
  have "e \<noteq> (l, os)" using book_rep_level [OF rep t, of "fst e" "snd e"] o book_rep_level [OF rep s lo(1)] False
    unfolding prod.collapse by auto
  with o show ?thesis using others [OF t, of "fst e" "snd e"] unfolding prod.collapse by blast
qed

lemma rep_remove_many:
  fixes b i
  defines "p \<equiv> order_pool b" and "q \<equiv> orders_at_price_pool b"
  assumes rep: "book_rep swp b S" and s: "s \<in> {Side_BUY, Side_SELL}"
    and lo: "(l, os) \<in> set (S s)" "i \<in> set os" "os \<noteq> [i]"
    and ac: "pprev p i = Some a" "pnext p i = Some c"
    and p': "pnext p' = (pnext p)(a := Some c, i := None)" "pprev p' = (pprev p)(c := Some a, i := None)"
      "pdata p' = pdata p" "live p' = live p - {i}" "pool_inv p'"
    and q': "qnext q' = qnext q" "qprev q' = qprev q" "qside q' = qside q" "qprice q' = qprice q"
      "qfirst q' = (if qfirst q l = Some i then (qfirst q)(l := Some c) else qfirst q)"
      "live q' = live q" "pool_inv q'"
  shows "book_rep swp (hash_upd (o_client_id (pdata p i)) (o_client_order_id (pdata p i)) None
      (b\<lparr>order_pool := p', orders_at_price_pool := q'\<rparr>)) (\<lambda>t. remove_from i (S t))"
proof -
  let ?b' = "hash_upd (o_client_id (pdata p i)) (o_client_order_id (pdata p i)) None
      (b\<lparr>order_pool := p', orders_at_price_pool := q'\<rparr>)"
  have E: "(l, os) \<in> entries S" using entriesI [of _ S s] lo(1) s by blast
  have lev: "level_ok p q s (l, os)" using book_rep_level [OF rep s lo(1)] by (simp add: p_def q_def)
  then have r: "ring (pnext p) (pprev p) os" and f: "qfirst q l = Some (hd os)"
    and os: "\<And>x. x \<in> set os \<Longrightarrow> order_ok p s (qprice q l) x" by auto
  note rm = ring_remove [OF r lo(2,3) ac]
  have hd': "qfirst q' l = Some (hd (remove1 i os))"
  proof (cases os)
    case (Cons x zs)
    with lo(3) r f ring_head_ends(1) [of "pnext p" "pprev p" x zs] ac(2) q'(5) show ?thesis
      by (cases "x = i") auto
  qed (use lo(2) in simp)
  have lev': "level_ok p' q' s (l, remove1 i os)"
    using lev hd' rm(1) [of None None] p' q' os
    by (auto simp: order_ok_def set_remove1_eq [OF ring_distinct [OF r]])
  have levo: "level_ok p' q' t (m, ps)" if "t \<in> {Side_BUY, Side_SELL}" "(m, ps) \<in> set (S t)" "(m, ps) \<noteq> (l, os)" for t m ps
  proof (rule level_ok_cong)
    show lv: "level_ok p q t (m, ps)" using book_rep_level [OF rep that(1,2)] by (simp add: p_def q_def)
    have "(m, ps) \<in> entries S" using entriesI [of _ S t] that by blast
    note o = book_rep_others [OF rep E lo(2) this that(3)]
    show "m \<in> live q'" "qside q' m = qside q m" "qfirst q' m = qfirst q m" "qprice q' m = qprice q m"
      using lv q' o by auto
    fix x assume "x \<in> set ps"
    then show "pnext p' x = pnext p x \<and> pprev p' x = pprev p x \<and> x \<in> live p' \<and>
        o_side (pdata p' x) = o_side (pdata p x) \<and> o_price (pdata p' x) = o_price (pdata p x) \<and>
        o_client_id (pdata p' x) = o_client_id (pdata p x) \<and>
        o_client_order_id (pdata p' x) = o_client_order_id (pdata p x)"
      using o lv rm(2,3) p' by (auto simp: order_ok_def)
  qed
  have levels: "level_ok p' q' t e" if "t \<in> {Side_BUY, Side_SELL}" "e \<in> set (remove_from i (S t))" for t e
    by (rule levels_replaced [OF rep s lo lev' levo that])
  have fsts: "map fst (remove_from i (S t)) = map fst (S t)" if "t \<in> {Side_BUY, Side_SELL}" for t
    using remove_from_side [OF rep s lo(1,2)] lo(3) that by (cases "t = s") auto
  have sides: "sides_ok swp ?b' (\<lambda>t. remove_from i (S t))"
    unfolding sides_ok_def
  proof (intro ballI conjI)
    fix t assume t: "t \<in> {Side_BUY, Side_SELL}"
    show "level_ok (order_pool ?b') (orders_at_price_pool ?b') t e" if "e \<in> set (remove_from i (S t))" for e
      using levels [OF t that] by simp
    show "side_ring (orders_at_price_pool ?b') (head_of swp t ?b') (map fst (remove_from i (S t)))"
      using book_rep_side [OF rep t] fsts [OF t] q' by (simp add: side_ring_def q_def)
  qed
  note ent = remove_from_entries [OF rep E lo(2)]
  have idx: "lidx q' = lidx q" using q' by (simp add: lidx_def fun_eq_iff)
  have "pairwise (apart q) (entries S)" using rep by (simp add: book_rep_def q_def)
  then have "pairwise (apart q') (entries (\<lambda>t. remove_from i (S t)))"
    using apart_replace [OF _ E, of q "remove1 i os"] lo(3)
    by (simp add: ent(1) idx apart_cong [OF idx] set_remove1_subset)
  moreover have "fst ` entries (\<lambda>t. remove_from i (S t)) = fst ` entries S"
    using E lo(3) unfolding ent by (force simp: image_iff)
  then have "slots_ok ?b' (entries (\<lambda>t. remove_from i (S t)))"
    using rep idx by (simp add: book_rep_def slots_ok_def q_def)
  moreover have "hash_ok ?b' (resting (\<lambda>t. remove_from i (S t)))"
    unfolding ent
  proof (rule hash_ok_remove)
    show "hash_ok b (resting S)" using rep by (simp add: book_rep_def)
    show "i \<in> resting S" using E lo(2) by (auto simp: resting_iff)
    show "in_hash (o_client_id (pdata (order_pool b) i)) (o_client_order_id (pdata (order_pool b) i))"
      using os [OF lo(2)] by (simp add: order_ok_def p_def)
  qed (simp_all add: hash_upd_def p_def p')
  ultimately show ?thesis using sides p'(5) q'(7) by (simp add: book_rep_def)
qed

lemma rep_remove_last:
  fixes b i
  defines "p \<equiv> order_pool b" and "q \<equiv> orders_at_price_pool b"
  assumes rep: "book_rep swp b S" and s: "s \<in> {Side_BUY, Side_SELL}" and lo: "(l, [i]) \<in> set (S s)"
    and p': "pnext (order_pool b') = pnext p" "pprev (order_pool b') = pprev p"
      "pdata (order_pool b') = pdata p" "live (order_pool b') = live p - {i}" "pool_inv (order_pool b')"
    and q': "qside q' = qside q" "qprice q' = qprice q" "qfirst q' = qfirst q" "live q' = live q - {l}"
      "pool_inv q'" "orders_at_price_pool b' = q'"
    and slot: "price_orders_at_price b' = (price_orders_at_price b)(lidx q l := None)"
    and hash: "cid_oid_to_order b' = cid_oid_to_order (hash_upd (o_client_id (pdata p i))
      (o_client_order_id (pdata p i)) None b)"
    and rings: "\<And>t. t \<in> {Side_BUY, Side_SELL} \<Longrightarrow>
      side_ring q' (head_of swp t b') (map fst (remove_from i (S t)))"
  shows "book_rep swp b' (\<lambda>t. remove_from i (S t))"
proof -
  let ?S = "\<lambda>t. remove_from i (S t)"
  have E: "(l, [i]) \<in> entries S" using entriesI [of _ S s] lo s by blast
  have i: "i \<in> set [i]" by simp
  note ent = remove_from_entries [OF rep E i]
  have ent1: "entries ?S = entries S - {(l, [i])}" unfolding ent(1) by simp
  have levels: "level_ok (order_pool b') q' t (m, ps)"
    if t: "t \<in> {Side_BUY, Side_SELL}" and m: "(m, ps) \<in> set (?S t)" for t m ps
  proof (rule level_ok_cong)
    have "(m, ps) \<in> entries ?S" using entriesI [of _ ?S t] t m by blast
    then have mE: "(m, ps) \<in> entries S" "(m, ps) \<noteq> (l, [i])" unfolding ent1 by auto
    have "(m, ps) \<in> set (S t)"
      using m remove_from_side(1) [OF rep s lo i t] remove_from_side(3) [OF rep s lo i]
      by (cases "t = s") auto
    then show lv: "level_ok p q t (m, ps)" using book_rep_level [OF rep t] by (simp add: p_def q_def)
    note o = book_rep_others [OF rep E i mE]
    show "m \<in> live q'" "qside q' m = qside q m" "qfirst q' m = qfirst q m" "qprice q' m = qprice q m"
      using lv q' o by auto
    fix x assume "x \<in> set ps"
    then show "pnext (order_pool b') x = pnext p x \<and> pprev (order_pool b') x = pprev p x \<and>
        x \<in> live (order_pool b') \<and>
        o_side (pdata (order_pool b') x) = o_side (pdata p x) \<and> o_price (pdata (order_pool b') x) = o_price (pdata p x) \<and>
        o_client_id (pdata (order_pool b') x) = o_client_id (pdata p x) \<and>
        o_client_order_id (pdata (order_pool b') x) = o_client_order_id (pdata p x)"
      using o lv p' by (auto simp: order_ok_def)
  qed
  have sides: "sides_ok swp b' ?S"
    unfolding sides_ok_def using levels rings q'(6) by (metis prod.collapse)
  have idx: "lidx q' = lidx q" using q' by (simp add: lidx_def fun_eq_iff)
  have "pairwise (apart q) (entries S)" using rep by (simp add: book_rep_def q_def)
  then have pw: "pairwise (apart q') (entries ?S)"
    unfolding ent1 apart_cong [OF idx] by (rule pairwise_subset) auto
  have uniq: "m = l" if "(m, ps) \<in> entries S" "lidx q m = lidx q l" for m ps
    using book_rep_others(4) [OF rep E i that(1)] that by (auto simp: q_def)
  have fst: "m \<in> fst ` entries ?S \<longleftrightarrow> m \<in> fst ` entries S \<and> m \<noteq> l" for m
    unfolding ent1 using book_rep_others(2) [OF rep E i] E by (force simp: image_iff)
  have slots: "slots_ok b' (entries ?S)"
    unfolding slots_ok_def
  proof (intro allI impI)
    fix k m assume k: "k < ME_MAX_PRICE_LEVELS"
    have "price_orders_at_price b k = Some m \<longleftrightarrow> m \<in> fst ` entries S \<and> lidx q m = k"
      using rep k by (simp add: book_rep_def slots_ok_def q_def)
    then show "price_orders_at_price b' k = Some m \<longleftrightarrow>
        m \<in> fst ` entries ?S \<and> lidx (orders_at_price_pool b') m = k"
      unfolding slot fst q'(6) idx using uniq by (auto simp: image_iff)
  qed
  have "hash_ok b' (resting ?S)"
    unfolding ent(2)
  proof (rule hash_ok_remove)
    show "hash_ok b (resting S)" using rep by (simp add: book_rep_def)
    show "i \<in> resting S" using E by (metis list.set_intros(1) resting_iff)
    show "in_hash (o_client_id (pdata (order_pool b) i)) (o_client_order_id (pdata (order_pool b) i))"
      using book_rep_level [OF rep s lo] by (simp add: order_ok_def)
  qed (use hash p' in \<open>simp_all add: p_def\<close>)
  with sides pw slots p'(5) q'(5,6) show ?thesis by (simp add: book_rep_def)
qed

text \<open>The rings of the two sides after a level was unlinked.\<close>

lemma side_ring_other:
  "side_ring q h ls \<Longrightarrow> (\<And>m. m \<in> set ls \<Longrightarrow> qnext q' m = qnext q m \<and> qprev q' m = qprev q m) \<Longrightarrow>
   side_ring q' h ls"
  by (auto simp: side_ring_def elim!: ring_cong split: if_splits)

lemma side_ring_remove:
  assumes sr: "side_ring q h ls" and l: "l \<in> set ls" and ne: "ls \<noteq> [l]"
    and ac: "qprev q l = Some a" "qnext q l = Some c"
    and q': "qnext q' = (qnext q)(a := Some c, l := None)" "qprev q' = (qprev q)(c := Some a, l := None)"
  shows "side_ring q' (if h = Some l then Some c else h) (remove1 l ls)"
    "a \<noteq> l" "c \<noteq> l" "a \<in> set ls" "c \<in> set ls"
proof -
  from sr l have r: "ring (qnext q) (qprev q) ls" and h: "h = Some (hd ls)" by (auto simp: side_ring_def split: if_splits)
  note rm = ring_remove [OF r l ne ac]
  show "a \<noteq> l" "c \<noteq> l" "a \<in> set ls" "c \<in> set ls" using rm by auto
  have ne': "remove1 l ls \<noteq> []" using ne l by (cases ls) auto
  have "(if h = Some l then Some c else h) = Some (hd (remove1 l ls))"
  proof (cases ls)
    case (Cons x zs)
    with ne r h ring_head_ends(1) [of "qnext q" "qprev q" x zs] ac(2) l show ?thesis
      by (cases "x = l") auto
  qed (use l in simp)
  then show "side_ring q' (if h = Some l then Some c else h) (remove1 l ls)"
    using ne' rm(1) [of None None] by (simp add: side_ring_def q')
qed


subsection \<open>Removal from a well-formed book\<close>

definition same_messages :: "MEOrderBook \<Rightarrow> MEOrderBook \<Rightarrow> bool" where
  "same_messages b b' \<longleftrightarrow> b_ticker_id b' = b_ticker_id b \<and> b_client_response b' = b_client_response b \<and>
     b_market_update b' = b_market_update b \<and> next_market_order_id b' = next_market_order_id b"

lemma removeOrder_rep_many:
  assumes rep: "book_rep False b S" and s: "s \<in> {Side_BUY, Side_SELL}"
    and lo: "(l, os) \<in> set (S s)" "i \<in> set os" "os \<noteq> [i]"
  shows "\<exists>b'. removeOrder (Some i) b = Inr b' \<and> book_rep False b' (\<lambda>t. remove_from i (S t)) \<and>
    pdata (order_pool b') = pdata (order_pool b) \<and> qprice (orders_at_price_pool b') = qprice (orders_at_price_pool b) \<and>
    live (order_pool b') = live (order_pool b) - {i} \<and> same_messages b b'"
proof -
  let ?p = "order_pool b" and ?q = "orders_at_price_pool b"
  have E: "(l, os) \<in> entries S" using entriesI [of _ S s] lo(1) s by blast
  have lev: "level_ok ?p ?q s (l, os)" using book_rep_level [OF rep s lo(1)] .
  then have r: "ring (pnext ?p) (pprev ?p) os"
    and os: "\<And>x. x \<in> set os \<Longrightarrow> order_ok ?p s (qprice ?q l) x" by auto
  obtain a c where ac: "pprev ?p i = Some a" "pnext ?p i = Some c" using ring_in [OF r lo(2)] by blast
  note rm = ring_remove [OF r lo(2,3) ac]
  have bd: "a < pool_size ?p" "c < pool_size ?p" "l < pool_size ?q"
    using os [OF rm(2)] os [OF rm(3)] lev live_bound by (auto simp: order_ok_def)
  have slot: "getOrdersAtPrice (o_price (pdata ?p i)) b = Some l"
    using book_rep_slot [OF rep E] os [OF lo(2)] by (simp add: order_ok_def)
  have h: "in_hash (o_client_id (pdata ?p i)) (o_client_order_id (pdata ?p i))" "i \<in> live ?p"
    using os [OF lo(2)] by (auto simp: order_ok_def)
  obtain p' q' where x: "removeOrder (Some i) b = Inr (hash_upd (o_client_id (pdata ?p i))
      (o_client_order_id (pdata ?p i)) None (b\<lparr>order_pool := p', orders_at_price_pool := q'\<rparr>))"
    and p': "pnext p' = (pnext ?p)(a := Some c, i := None)" "pprev p' = (pprev ?p)(c := Some a, i := None)"
      "pdata p' = pdata ?p" "live p' = live ?p - {i}" "pool_inv ?p \<longrightarrow> pool_inv p'"
    and q': "qnext q' = qnext ?q" "qprev q' = qprev ?q" "qside q' = qside ?q" "qprice q' = qprice ?q"
      "qfirst q' = (if qfirst ?q l = Some i then (qfirst ?q)(l := Some c) else qfirst ?q)"
      "live q' = live ?q" "pool_inv ?q \<longrightarrow> pool_inv q'"
    using removeOrder_many [OF refl refl h(2,1) ac rm(4,5) bd(1,2) slot bd(3)] by blast
  have inv: "pool_inv p'" "pool_inv q'" using rep p'(5) q'(7) by (auto simp: book_rep_def)
  note rp = rep_remove_many [OF rep s lo ac p'(1-4) inv(1) q'(1-6) inv(2)]
  show ?thesis
    by (intro exI conjI, rule x, rule rp) (simp_all add: p' q' same_messages_def hash_upd_def)
qed

lemma level_removed:
  assumes rep: "book_rep False b S" and s: "s \<in> {Side_BUY, Side_SELL}" and l: "(l, [i]) \<in> set (S s)"
    and price: "price = qprice (orders_at_price_pool b) l"
  shows "\<exists>b' q'. removeOrdersAtPrice s price b = Inr b' \<and> orders_at_price_pool b' = q' \<and>
    order_pool b' = order_pool b \<and> cid_oid_to_order b' = cid_oid_to_order b \<and>
    price_orders_at_price b' = (price_orders_at_price b)(lidx (orders_at_price_pool b) l := None) \<and>
    qside q' = qside (orders_at_price_pool b) \<and> qprice q' = qprice (orders_at_price_pool b) \<and>
    qfirst q' = qfirst (orders_at_price_pool b) \<and> live q' = live (orders_at_price_pool b) - {l} \<and>
    pool_inv q' \<and> same_messages b b' \<and>
    (\<forall>t \<in> {Side_BUY, Side_SELL}. side_ring q' (head_of False t b') (map fst (remove_from i (S t))))"
proof -
  let ?q = "orders_at_price_pool b"
  let ?ls = "map fst (S s)"
  have i: "i \<in> set [i]" by simp
  have E: "(l, [i]) \<in> entries S" using entriesI [of _ S s] l s by blast
  have lev: "level_ok (order_pool b) ?q s (l, [i])" using book_rep_level [OF rep s l] .
  then have live: "l \<in> live ?q" by simp
  have slot: "getOrdersAtPrice price b = Some l" using book_rep_slot [OF rep E] price by simp
  have sr: "side_ring ?q (head_of False s b) ?ls" using book_rep_side [OF rep s] .
  have lin: "l \<in> set ?ls" using l by force
  then have r: "ring (qnext ?q) (qprev ?q) ?ls" and hd: "head_of False s b = Some (hd ?ls)"
    using sr by (auto simp: side_ring_def split: if_splits)
  have lv: "m < pool_size ?q" if "m \<in> set ?ls" for m
    using that book_rep_level [OF rep s, of m] live_bound [of m ?q] by fastforce
  note rs = remove_from_side [OF rep s l i]
  have disj: "set (map fst (S t)) \<inter> set ?ls = {}" if t: "t \<in> {Side_BUY, Side_SELL}" "t \<noteq> s" for t
    using book_rep_level [OF rep t(1)] book_rep_level [OF rep s] t(2) by fastforce
  have pi: "pool_inv ?q" using rep by (simp add: book_rep_def)
  have idx: "lidx ?q l = unat (priceToIndex price)" by (simp add: lidx_def price)
  show ?thesis
  proof (cases "?ls = [l]")
    case True
    then have self: "qnext ?q l = Some l" using ring_self_iff(2) [OF r lin] by simp
    obtain q' where x: "removeOrdersAtPrice s price b =
        Inr ((set_level_slot price None (set_best s None b))\<lparr>orders_at_price_pool := q'\<rparr>)"
      and q': "qnext q' = qnext ?q" "qprev q' = qprev ?q" "qside q' = qside ?q" "qprice q' = qprice ?q"
        "qfirst q' = qfirst ?q" "live q' = live ?q - {l}" "pool_inv ?q \<longrightarrow> pool_inv q'"
      using removeOrdersAtPrice_single [OF refl slot live self] by blast
    have "side_ring q' (head_of False t ((set_level_slot price None (set_best s None b))
        \<lparr>orders_at_price_pool := q'\<rparr>)) (map fst (remove_from i (S t)))" if t: "t \<in> {Side_BUY, Side_SELL}" for t
    proof (cases "t = s")
      case True
      then show ?thesis using rs(2) \<open>?ls = [l]\<close> s by (simp add: head_of_set_best side_ring_def)
    next
      case False
      then show ?thesis using rs(1) [OF t False] book_rep_side [OF rep t] q' s t
        by (simp add: head_of_set_best side_ring_def)
    qed
    with x q' pi idx show ?thesis
      by (intro exI conjI ballI) (assumption | simp add: set_level_slot_def set_best_def same_messages_def)+
  next
    case False
    obtain a c where ac: "qprev ?q l = Some a" "qnext ?q l = Some c" using ring_in [OF r lin] by blast
    have nb: "a \<noteq> l" "c \<noteq> l" "a \<in> set ?ls" "c \<in> set ?ls" using ring_remove [OF r lin False ac] by auto
    let ?b = "if head_of False s b = Some l then set_best s (Some c) b else b"
    obtain q' where x: "removeOrdersAtPrice s price b =
        Inr ((set_level_slot price None ?b)\<lparr>orders_at_price_pool := q'\<rparr>)"
      and q': "qnext q' = (qnext ?q)(a := Some c, l := None)" "qprev q' = (qprev ?q)(c := Some a, l := None)"
        "qside q' = qside ?q" "qprice q' = qprice ?q" "qfirst q' = qfirst ?q" "live q' = live ?q - {l}"
        "pool_inv ?q \<longrightarrow> pool_inv q'"
      using removeOrdersAtPrice_many [OF refl slot live ac nb(1,2) lv [OF nb(3)] lv [OF nb(4)]] by blast
    have "side_ring q' (head_of False t ((set_level_slot price None ?b)\<lparr>orders_at_price_pool := q'\<rparr>))
        (map fst (remove_from i (S t)))" if t: "t \<in> {Side_BUY, Side_SELL}" for t
    proof (cases "t = s")
      case True
      then show ?thesis using rs(2) side_ring_remove(1) [OF sr lin False ac q'(1,2)] s
        by (simp add: head_of_set_best split: if_splits)
    next
      case False
      have "side_ring q' (head_of False t b) (map fst (S t))"
        by (rule side_ring_other [OF book_rep_side [OF rep t]]) (use disj [OF t False] nb lin q' in \<open>auto simp: image_iff\<close>)
      then show ?thesis using rs(1) [OF t False] False s t by (simp add: head_of_set_best)
    qed
    with x q' pi idx show ?thesis
      by (intro exI conjI ballI) (assumption | simp add: set_level_slot_def set_best_def same_messages_def)+
  qed
qed

lemma removeOrder_rep_last:
  assumes rep: "book_rep False b S" and s: "s \<in> {Side_BUY, Side_SELL}" and lo: "(l, [i]) \<in> set (S s)"
  shows "\<exists>b'. removeOrder (Some i) b = Inr b' \<and> book_rep False b' (\<lambda>t. remove_from i (S t)) \<and>
    pdata (order_pool b') = pdata (order_pool b) \<and> qprice (orders_at_price_pool b') = qprice (orders_at_price_pool b) \<and>
    live (order_pool b') = live (order_pool b) - {i} \<and> same_messages b b'"
proof -
  let ?p = "order_pool b" and ?q = "orders_at_price_pool b"
  let ?c = "o_client_id (pdata ?p i)" and ?k = "o_client_order_id (pdata ?p i)"
  have lev: "level_ok ?p ?q s (l, [i])" using book_rep_level [OF rep s lo] .
  then have self: "pprev ?p i = Some i" and o: "order_ok ?p s (qprice ?q l) i" by auto
  then have live: "i \<in> live ?p" and h: "in_hash ?c ?k" and sd: "o_side (pdata ?p i) = s"
    and pr: "o_price (pdata ?p i) = qprice ?q l" by (auto simp: order_ok_def)
  obtain b1 q' where x: "removeOrdersAtPrice s (o_price (pdata ?p i)) b = Inr b1"
    and q': "orders_at_price_pool b1 = q'" "order_pool b1 = ?p" "cid_oid_to_order b1 = cid_oid_to_order b"
      "price_orders_at_price b1 = (price_orders_at_price b)(lidx ?q l := None)"
      "qside q' = qside ?q" "qprice q' = qprice ?q" "qfirst q' = qfirst ?q" "live q' = live ?q - {l}"
      "pool_inv q'" "same_messages b b1"
    and rings: "\<forall>t \<in> {Side_BUY, Side_SELL}. side_ring q' (head_of False t b1) (map fst (remove_from i (S t)))"
    using level_removed [OF rep s lo pr] by blast
  obtain p' where y: "removeOrder (Some i) b = Inr ((hash_upd ?c ?k None b1)\<lparr>order_pool := p'\<rparr>)"
    and p': "pnext p' = pnext ?p" "pprev p' = pprev ?p" "pdata p' = pdata ?p" "live p' = live ?p - {i}"
      "pool_inv ?p \<longrightarrow> pool_inv p'"
    using removeOrder_last [OF refl live h self x [folded sd]] by blast
  let ?b' = "(hash_upd ?c ?k None b1)\<lparr>order_pool := p'\<rparr>"
  have inv: "pool_inv p'" using rep p'(5) by (simp add: book_rep_def)
  have "book_rep False ?b' (\<lambda>t. remove_from i (S t))"
  proof (rule rep_remove_last [OF rep s lo])
    show "side_ring q' (head_of False t ?b') (map fst (remove_from i (S t)))" if "t \<in> {Side_BUY, Side_SELL}" for t
      using bspec [OF rings that] by simp
  qed (use p' q' inv in \<open>simp_all add: hash_upd_def\<close>)
  with y p' q' show ?thesis
    by (intro exI conjI) (assumption | simp add: same_messages_def hash_upd_def)+
qed

lemma removeOrder_rep:
  assumes rep: "book_rep False b S" and i: "i \<in> resting S"
  shows "\<exists>b'. removeOrder (Some i) b = Inr b' \<and> book_rep False b' (\<lambda>t. remove_from i (S t)) \<and>
    pdata (order_pool b') = pdata (order_pool b) \<and> qprice (orders_at_price_pool b') = qprice (orders_at_price_pool b) \<and>
    live (order_pool b') = live (order_pool b) - {i} \<and> same_messages b b'"
proof -
  obtain s l os where s: "s \<in> {Side_BUY, Side_SELL}" "(l, os) \<in> set (S s)" "i \<in> set os"
    using i by (rule restingE)
  show ?thesis
    using removeOrder_rep_many [OF rep s] removeOrder_rep_last [OF rep s(1)] s(2) by blast
qed

text \<open>
  The blocks of the order pool that are in use but hold no resting order. No operation on a
  well-formed book changes them, the size of the pool or the counter of order ids.
\<close>

definition accounted :: "MEOrderBook \<Rightarrow> shape \<Rightarrow> MEOrderBook \<Rightarrow> shape \<Rightarrow> bool" where
  "accounted b S b' S' \<longleftrightarrow> live (order_pool b') - resting S' = live (order_pool b) - resting S \<and>
     pool_size (order_pool b') = pool_size (order_pool b) \<and> next_market_order_id b' = next_market_order_id b"

lemma accounted_refl [simp]: "accounted b S b S"
  and accounted_trans: "accounted b S b1 S1 \<Longrightarrow> accounted b1 S1 b2 S2 \<Longrightarrow> accounted b S b2 S2"
  by (simp_all add: accounted_def)

lemma removeOrder_accounted:
  assumes rep: "book_rep False b S" and i: "i \<in> resting S" and rm: "removeOrder (Some i) b = Inr b'"
  shows "accounted b S b' (\<lambda>t. remove_from i (S t))"
proof -
  obtain l os where lo: "(l, os) \<in> entries S" "i \<in> set os" using i by (auto simp: resting_iff)
  have "resting (\<lambda>t. remove_from i (S t)) = resting S - {i}" by (rule remove_from_entries(2) [OF rep lo])
  moreover have "live (order_pool b') = live (order_pool b) - {i}" using removeOrder_live [OF rm] by auto
  moreover have "next_market_order_id b' = next_market_order_id b"
    using removeOrder_rep [OF rep i] rm by (auto simp: same_messages_def)
  ultimately show ?thesis using removeOrder_size [OF rm] i by (auto simp: accounted_def)
qed

end
