(* ===== verification/Book_Match.thy ===== *)
theory Book_Match
  imports Book_Remove
begin

text \<open>
  Matching on a well-formed book: \<open>match\<close> fills one resting order, and the loop of
  \<open>checkForMatch\<close> refines \<open>spec_match\<close>, a function on the list of resting orders the
  incoming order meets. The properties of the exchange (which orders are filled, at whose
  price, how much, which messages go out) are proved of \<open>spec_match\<close> by induction on that
  list and carried over to the code by the refinement.
\<close>

subsection \<open>Writes that keep the representation\<close>

lemma level_ok_data:
  assumes "level_ok p q s e" "pnext p' = pnext p" "pprev p' = pprev p" "live p' = live p"
    "\<And>j. o_side (pdata p' j) = o_side (pdata p j) \<and> o_price (pdata p' j) = o_price (pdata p j) \<and>
      o_client_id (pdata p' j) = o_client_id (pdata p j) \<and>
      o_client_order_id (pdata p' j) = o_client_order_id (pdata p j)"
  shows "level_ok p' q s e"
  using assms by (cases e) (auto simp: order_ok_def)

lemma book_rep_data:
  assumes rep: "book_rep swp b S"
    and p': "pnext (order_pool b') = pnext (order_pool b)" "pprev (order_pool b') = pprev (order_pool b)"
      "live (order_pool b') = live (order_pool b)" "pool_inv (order_pool b')"
      "\<And>j. o_side (pdata (order_pool b') j) = o_side (pdata (order_pool b) j) \<and>
        o_price (pdata (order_pool b') j) = o_price (pdata (order_pool b) j) \<and>
        o_client_id (pdata (order_pool b') j) = o_client_id (pdata (order_pool b) j) \<and>
        o_client_order_id (pdata (order_pool b') j) = o_client_order_id (pdata (order_pool b) j)"
    and same: "orders_at_price_pool b' = orders_at_price_pool b" "bids_by_price b' = bids_by_price b"
      "asks_by_price b' = asks_by_price b" "price_orders_at_price b' = price_orders_at_price b"
      "cid_oid_to_order b' = cid_oid_to_order b"
  shows "book_rep swp b' S"
proof -
  have h: "head_of swp s b' = head_of swp s b" for s using same by (simp add: head_of_def)
  have "sides_ok swp b' S"
    unfolding sides_ok_def
  proof (intro ballI conjI)
    fix s assume s: "s \<in> {Side_BUY, Side_SELL}"
    show "level_ok (order_pool b') (orders_at_price_pool b') s e" if "e \<in> set (S s)" for e
      using level_ok_data [OF _ p'(1-3,5)] book_rep_level [OF rep s, of "fst e" "snd e"] that
      unfolding same(1) prod.collapse by blast
    show "side_ring (orders_at_price_pool b') (head_of swp s b') (map fst (S s))"
      using book_rep_side [OF rep s] unfolding same(1) h .
  qed
  with rep p'(4,5) same show ?thesis
    by (simp add: book_rep_def slots_ok_def hash_ok_def)
qed

lemma book_rep_messages [simp]:
  "book_rep swp (b\<lparr>b_client_response := r, b_market_update := u\<rparr>) S = book_rep swp b S"
  by (simp add: book_rep_def sides_ok_def head_of_def slots_ok_def hash_ok_def)

lemma upd_quantity_rep:
  assumes rep: "book_rep swp b S" and i: "i < pool_size (order_pool b)"
  shows "\<exists>b'. upd_ord (Some i) (\<lambda>x. x\<lparr>o_quantity := f (o_quantity x)\<rparr>) b = Inr b' \<and> book_rep swp b' S \<and>
    pdata (order_pool b') = (pdata (order_pool b))(i := (pdata (order_pool b) i)
      \<lparr>o_quantity := f (o_quantity (pdata (order_pool b) i))\<rparr>) \<and>
    live (order_pool b') = live (order_pool b) \<and> pool_size (order_pool b') = pool_size (order_pool b) \<and>
    orders_at_price_pool b' = orders_at_price_pool b \<and> same_messages b b'"
proof -
  let ?x = "obj (order_pool b) i"
  let ?b = "b\<lparr>order_pool := set_obj i (?x\<lparr>o_quantity := f (o_quantity ?x)\<rparr>) (order_pool b)\<rparr>"
  have "book_rep swp ?b S"
    by (rule book_rep_data [OF rep]) (use rep in \<open>auto simp: views book_rep_def\<close>)
  then show ?thesis using i by (intro exI [of _ ?b]) (simp add: views same_messages_def)
qed

subsection \<open>One fill\<close>

definition with_fill :: "MEOrder \<Rightarrow> Quantity \<Rightarrow> MEOrder" where
  "with_fill x f = x\<lparr>o_quantity := o_quantity x - f\<rparr>"

definition fill_responses :: "ClientId \<Rightarrow> OrderId \<Rightarrow> TickerId \<Rightarrow> Side \<Rightarrow> OrderId \<Rightarrow> MEOrder \<Rightarrow> Quantity \<Rightarrow>
    MEClientResponse list" where
  "fill_responses c k tk side m x q = (let f = min q (o_quantity x) in
     [mkResponse Resp_FILLED c tk k m side (o_price x) f (q - f),
      mkResponse Resp_FILLED (o_client_id x) tk (o_client_order_id x) (o_market_order_id x) (o_side x)
        (o_price x) f (o_quantity x - f)])"

definition fill_updates :: "TickerId \<Rightarrow> Side \<Rightarrow> MEOrder \<Rightarrow> Quantity \<Rightarrow> MEMarketUpdate list" where
  "fill_updates tk side x q = (let f = min q (o_quantity x) in
     [mkUpdate Upd_TRADE OrderId_INVALID tk side (o_price x) f Priority_INVALID,
      (if o_quantity x - f = 0
       then mkUpdate Upd_CANCEL (o_market_order_id x) tk (o_side x) (o_price x) (o_quantity x) Priority_INVALID
       else mkUpdate Upd_MODIFY (o_market_order_id x) tk (o_side x) (o_price x) (o_quantity x - f) (o_priority x))])"

text \<open>Up to the removal of a filled order, under either convention for the heads.\<close>

lemma match_fills:
  fixes b :: MEOrderBook and q :: Quantity and i :: nat
  assumes rep: "book_rep swp b S" and i: "i \<in> resting S"
  defines "x \<equiv> pdata (order_pool b) i"
  defines "f \<equiv> min q (o_quantity x)"
  shows "\<exists>b2 io'. match tk c side k m (Some i) q b io = noexcept
      (if o_quantity x - f = 0 then bnd (removeOrder (Some i) b2) (\<lambda>b. Inr (q - f, b, io')) else Inr (q - f, b2, io')) \<and>
    book_rep swp b2 S \<and> pdata (order_pool b2) = (pdata (order_pool b))(i := with_fill x f) \<and>
    sent_messages (fill_responses c k tk side m x q) (fill_updates tk side x q) io io' \<and> accounted b S b2 S"
proof -
  have bd: "i < pool_size (order_pool b)"
    using i book_rep_level [OF rep] live_bound by (fastforce elim!: restingE simp: order_ok_def)
  obtain b1 where u: "upd_ord (Some i) (\<lambda>y. y\<lparr>o_quantity := o_quantity y - f\<rparr>) b = Inr b1"
    and b1: "book_rep swp b1 S" "pdata (order_pool b1) = (pdata (order_pool b))(i := with_fill x f)"
      "pool_size (order_pool b1) = pool_size (order_pool b)" "same_messages b b1"
      "live (order_pool b1) = live (order_pool b)"
    using upd_quantity_rep [OF rep bd, of "\<lambda>y. y - f"] by (auto simp: with_fill_def x_def)
  obtain r1 r2 where r: "fill_responses c k tk side m x q = [r1, r2]" by (simp add: fill_responses_def Let_def)
  obtain u1 u2 where us: "fill_updates tk side x q = [u1, u2]" by (simp add: fill_updates_def Let_def)
  obtain io1 io2 io3 io4 where io: "sendClientResponse r1 io = Inr io1" "sendClientResponse r2 io1 = Inr io2"
      "sendMarketUpdate u1 io2 = Inr io3" "sendMarketUpdate u2 io3 = Inr io4"
    and sent: "sent_messages [r1] [] io io1" "sent_messages [r2] [] io1 io2"
      "sent_messages [] [u1] io2 io3" "sent_messages [] [u2] io3 io4"
    using sendClientResponse_sends sendMarketUpdate_sends by metis
  have all: "sent_messages [r1, r2] [u1, u2] io io4"
    using sent_messages_trans [OF sent_messages_trans [OF sent_messages_trans [OF sent(1,2)] sent(3)] sent(4)] by simp
  let ?b2 = "b1\<lparr>b_client_response := r2, b_market_update := u2\<rparr>"
  have o: "ord (Some i) b = Inr (obj (order_pool b) i)" "ord (Some i) b1 = Inr (obj (order_pool b1) i)"
    using bd b1(3) by auto
  have x': "strip (obj (order_pool b1) i) = with_fill x f" by (simp add: views b1(2))
  then have fields: "o_quantity (obj (order_pool b1) i) = o_quantity x - f"
    "o_price (obj (order_pool b1) i) = o_price x" "o_side (obj (order_pool b1) i) = o_side x"
    "o_client_id (obj (order_pool b1) i) = o_client_id x" "o_priority (obj (order_pool b1) i) = o_priority x"
    "o_client_order_id (obj (order_pool b1) i) = o_client_order_id x"
    "o_market_order_id (obj (order_pool b1) i) = o_market_order_id x"
    by (simp_all add: views b1(2) with_fill_def)
  have oq: "o_quantity (obj (order_pool b) i) = o_quantity x" by (simp add: x_def views)
  have rs: "match_responses tk c side k m (obj (order_pool b1) i) f (q - f) = (r1, r2)"
    using r by (simp add: match_responses_def fields fill_responses_def f_def [symmetric])
  have ms: "mkUpdate Upd_TRADE OrderId_INVALID tk side (o_price x) f Priority_INVALID = u1"
    "(if o_quantity x - f = 0
       then mkUpdate Upd_CANCEL (o_market_order_id x) tk (o_side x) (o_price x) (o_quantity x) Priority_INVALID
       else mkUpdate Upd_MODIFY (o_market_order_id x) tk (o_side x) (o_price x) (o_quantity x - f) (o_priority x)) = u2"
    using us by (simp_all add: fill_updates_def f_def [symmetric])
  have m: "match tk c side k m (Some i) q b io =
      noexcept (if o_quantity x - f = 0 then bnd (removeOrder (Some i) ?b2) (\<lambda>b. Inr (q - f, b, io4))
        else Inr (q - f, ?b2, io4))"
    unfolding match_def o(1) bnd_Inr Let_def oq f_def [symmetric] u o(2) rs fields split_conv io(1,2) ms(1) io(3)
    using ms(2) io(4) by (cases "o_quantity x - f = 0") (simp_all only: if_True if_False bnd_Inr simp_thms)
  have rep2: "book_rep swp ?b2 S" using b1(1) by simp
  have acc: "accounted b S ?b2 S" using b1(3-5) by (simp add: accounted_def same_messages_def)
  show ?thesis using m rep2 b1(2) all r us acc by (intro exI [of _ ?b2] exI [of _ io4]) simp
qed

lemma match_rep:
  fixes b :: MEOrderBook and q :: Quantity and i :: nat
  assumes rep: "book_rep False b S" and i: "i \<in> resting S"
  defines "x \<equiv> pdata (order_pool b) i"
  defines "f \<equiv> min q (o_quantity x)"
  shows "\<exists>b' io'. match tk c side k m (Some i) q b io = Inr (q - f, b', io') \<and>
    book_rep False b' (if o_quantity x - f = 0 then (\<lambda>t. remove_from i (S t)) else S) \<and>
    pdata (order_pool b') = (pdata (order_pool b))(i := with_fill x f) \<and>
    sent_messages (fill_responses c k tk side m x q) (fill_updates tk side x q) io io' \<and>
    accounted b S b' (if o_quantity x - f = 0 then (\<lambda>t. remove_from i (S t)) else S)"
proof -
  obtain b2 io' where m: "match tk c side k m (Some i) q b io = noexcept
      (if o_quantity x - f = 0 then bnd (removeOrder (Some i) b2) (\<lambda>b. Inr (q - f, b, io')) else Inr (q - f, b2, io'))"
    and rep2: "book_rep False b2 S" and d: "pdata (order_pool b2) = (pdata (order_pool b))(i := with_fill x f)"
    and all: "sent_messages (fill_responses c k tk side m x q) (fill_updates tk side x q) io io'"
    and acc: "accounted b S b2 S"
    using match_fills [OF rep i, of tk c side k m q io] unfolding x_def f_def by blast
  show ?thesis
  proof (cases "o_quantity x - f = 0")
    case True
    obtain b' where b': "removeOrder (Some i) b2 = Inr b'" "book_rep False b' (\<lambda>t. remove_from i (S t))"
      "pdata (order_pool b') = pdata (order_pool b2)"
      using removeOrder_rep [OF rep2 i] by blast
    have "accounted b S b' (\<lambda>t. remove_from i (S t))"
      by (rule accounted_trans [OF acc removeOrder_accounted [OF rep2 i b'(1)]])
    with True m d all b' show ?thesis by auto
  next
    case False
    with m rep2 d all acc show ?thesis by auto
  qed
qed

text \<open>A fill that leaves something of the resting order ends the match.\<close>

lemma match_partial:
  assumes rep: "book_rep swp b S" and i: "i \<in> resting S"
    and q: "q < o_quantity (pdata (order_pool b) i)"
  shows "\<exists>b' io'. match tk c side k m (Some i) q b io = Inr (0, b', io') \<and> book_rep swp b' S \<and>
    pdata (order_pool b') = (pdata (order_pool b))(i := with_fill (pdata (order_pool b) i) q) \<and>
    sent_messages (fill_responses c k tk side m (pdata (order_pool b) i) q)
      (fill_updates tk side (pdata (order_pool b) i) q) io io'"
proof -
  have "min q (o_quantity (pdata (order_pool b) i)) = q" by (rule min.absorb1 [OF less_imp_le [OF q]])
  moreover have "o_quantity (pdata (order_pool b) i) - q \<noteq> 0" using q by auto
  ultimately show ?thesis using match_fills [OF rep i, of tk c side k m q io] by auto
qed


subsection \<open>The matching loop against its specification\<close>

text \<open>
  The orders an incoming order of side \<open>s\<close> meets, in the order it meets them: the levels of
  the other side, best first, and in each level the oldest order first.
\<close>

definition opposite :: "Side \<Rightarrow> Side" where
  "opposite s = (if s = Side_BUY then Side_SELL else Side_BUY)"

definition queue :: "shape \<Rightarrow> Side \<Rightarrow> nat list" where
  "queue S s = concat (map snd (S s))"

record fills =
  f_leaves :: Quantity
  f_responses :: "MEClientResponse list"
  f_updates :: "MEMarketUpdate list"
  f_data :: "nat \<Rightarrow> MEOrder"
  f_rest :: "nat list"

fun spec_match :: "ClientId \<Rightarrow> OrderId \<Rightarrow> TickerId \<Rightarrow> Side \<Rightarrow> Price \<Rightarrow> OrderId \<Rightarrow> Quantity \<Rightarrow>
    (nat \<Rightarrow> MEOrder) \<Rightarrow> nat list \<Rightarrow> fills" where
  "spec_match c k tk side price m q d [] = \<lparr>f_leaves = q, f_responses = [], f_updates = [], f_data = d, f_rest = []\<rparr>"
| "spec_match c k tk side price m q d (i # is) =
     (if q = 0 \<or> no_cross side price (o_price (d i))
      then \<lparr>f_leaves = q, f_responses = [], f_updates = [], f_data = d, f_rest = i # is\<rparr>
      else
        let f = min q (o_quantity (d i));
            d' = d(i := with_fill (d i) f);
            r = (if o_quantity (d i) - f = 0 then spec_match c k tk side price m (q - f) d' is
                 else \<lparr>f_leaves = q - f, f_responses = [], f_updates = [], f_data = d', f_rest = i # is\<rparr>)
        in r\<lparr>f_responses := fill_responses c k tk side m (d i) q @ f_responses r,
             f_updates := fill_updates tk side (d i) q @ f_updates r\<rparr>)"

lemma spec_match_zero [simp]:
  "spec_match c k tk side price m 0 d is =
     \<lparr>f_leaves = 0, f_responses = [], f_updates = [], f_data = d, f_rest = is\<rparr>"
  by (cases "is") simp_all

lemma opposite_best_head: "side \<in> {Side_BUY, Side_SELL} \<Longrightarrow> opposite_best side b = head_of False (opposite side) b"
  by (auto simp: opposite_best_def head_of_def opposite_def)

lemma opposite_sides [simp]:
  "opposite s \<in> {Side_BUY, Side_SELL}" "s \<in> {Side_BUY, Side_SELL} \<Longrightarrow> opposite s \<noteq> s"
  by (auto simp: opposite_def)

text \<open>What the front of the queue is in memory.\<close>

lemma queue_Nil:
  assumes rep: "book_rep False b S" and s: "s \<in> {Side_BUY, Side_SELL}"
  shows "queue S s = [] \<longleftrightarrow> head_of False s b = None"
proof -
  have "snd e \<noteq> []" if "e \<in> set (S s)" for e
    using book_rep_not_Nil [OF rep entriesI [of _ S s]] that s by blast
  then have "queue S s = [] \<longleftrightarrow> S s = []" by (cases "S s") (auto simp: queue_def)
  with book_rep_side [OF rep s] show ?thesis by (auto simp: side_ring_def split: if_splits)
qed

lemma queue_Cons:
  assumes rep: "book_rep False b S" and s: "s \<in> {Side_BUY, Side_SELL}" and q: "queue S s = i # is"
  obtains l os ls where "S s = (l, i # os) # ls" "head_of False s b = Some l"
    "lvl (Some l) b = Inr (obj (orders_at_price_pool b) l)"
    "first_me_order (obj (orders_at_price_pool b) l) = Some i"
    "ord (Some i) b = Inr (obj (order_pool b) i)" "i \<in> resting S"
    "queue (\<lambda>t. remove_from i (S t)) s = is"
proof -
  have ne: "snd e \<noteq> []" if "e \<in> set (S s)" for e
    using book_rep_not_Nil [OF rep entriesI [of _ S s]] that s by blast
  obtain l os ls where S: "S s = (l, i # os) # ls" and ls_is: "is = os @ concat (map snd ls)"
  proof (cases "S s")
    case (Cons e es)
    with ne [of e] q show thesis
      by (cases e; cases "snd e") (auto simp: queue_def intro: that)
  qed (use q in \<open>simp add: queue_def\<close>)
  have m: "(l, i # os) \<in> set (S s)" by (simp add: S)
  have lev: "level_ok (order_pool b) (orders_at_price_pool b) s (l, i # os)" using book_rep_level [OF rep s m] .
  have E: "(l, i # os) \<in> entries S" using entriesI [of _ S s] m s by blast
  have notin: "i \<notin> set (snd e)" if "e \<in> set ls" for e
  proof -
    have d: "distinct (map fst (S s))" using side_ring_distinct [OF book_rep_side [OF rep s]] .
    have "e \<in> entries S" using entriesI [of e S s] that s S by simp
    moreover have "e \<noteq> (l, i # os)" using d that by (force simp: S)
    ultimately show ?thesis using book_rep_others(1) [OF rep E, of i "fst e" "snd e"] by simp
  qed
  have ls: "remove_from i ls = ls" using ne notin by (intro remove_from_id) (auto simp: S)
  show thesis
  proof (rule that [OF S])
    show "head_of False s b = Some l" using book_rep_side [OF rep s] by (simp add: side_ring_def S)
    show "lvl (Some l) b = Inr (obj (orders_at_price_pool b) l)" using lev live_bound [of l "orders_at_price_pool b"] by simp
    show "first_me_order (obj (orders_at_price_pool b) l) = Some i" using lev by (simp add: views)
    show "ord (Some i) b = Inr (obj (order_pool b) i)" using lev live_bound [of i "order_pool b"] by (simp add: order_ok_def)
    show "i \<in> resting S" using E by (metis list.set_intros(1) resting_iff)
    show "queue (\<lambda>t. remove_from i (S t)) s = is" using ls by (simp add: queue_def S ls_is)
  qed
qed

lemma remove_other_side:
  assumes "book_rep False b S" "s \<in> {Side_BUY, Side_SELL}" "i # is = queue S s"
    "t \<in> {Side_BUY, Side_SELL}" "t \<noteq> s"
  shows "remove_from i (S t) = S t"
  using queue_Cons [OF assms(1,2) assms(3) [symmetric]] remove_from_side(1) [OF assms(1,2) _ _ assms(4,5)]
  by (metis list.set_intros(1))

lemma match_loop_refines:
  assumes "book_rep False b S" and side: "side \<in> {Side_BUY, Side_SELL}"
    and "queue S (opposite side) = is"
  shows "\<exists>b' io' S'. match_loop c k tk side price m q b io =
      Inr (f_leaves (spec_match c k tk side price m q (pdata (order_pool b)) is), b', io') \<and>
    book_rep False b' S' \<and> S' side = S side \<and>
    queue S' (opposite side) = f_rest (spec_match c k tk side price m q (pdata (order_pool b)) is) \<and>
    pdata (order_pool b') = f_data (spec_match c k tk side price m q (pdata (order_pool b)) is) \<and>
    sent_messages (f_responses (spec_match c k tk side price m q (pdata (order_pool b)) is))
      (f_updates (spec_match c k tk side price m q (pdata (order_pool b)) is)) io io' \<and>
    accounted b S b' S'"
  using assms(1,3)
proof (induction "is" arbitrary: q b io S)
  case Nil
  have "opposite_best side b = None"
    using queue_Nil [OF Nil(1) opposite_sides(1)] Nil(2) opposite_best_head [OF side] by simp
  then have "match_loop c k tk side price m q b io = Inr (q, b, io)" by (simp add: match_loop.simps)
  with Nil show ?case by auto
next
  case (Cons i "is")
  obtain l os ls where S: "S (opposite side) = (l, i # os) # ls" and hd: "head_of False (opposite side) b = Some l"
    and mem: "lvl (Some l) b = Inr (obj (orders_at_price_pool b) l)"
    "first_me_order (obj (orders_at_price_pool b) l) = Some i"
    "ord (Some i) b = Inr (obj (order_pool b) i)" and i: "i \<in> resting S"
    and rest: "queue (\<lambda>t. remove_from i (S t)) (opposite side) = is"
    using queue_Cons [OF Cons.prems(1) opposite_sides(1) Cons.prems(2)] by metis
  let ?x = "pdata (order_pool b) i"
  let ?f = "min q (o_quantity ?x)"
  have price: "o_price (obj (order_pool b) i) = o_price ?x" by (simp add: views)
  show ?case
  proof (cases "q = 0 \<or> no_cross side price (o_price ?x)")
    case True
    then have "match_loop c k tk side price m q b io = Inr (q, b, io)"
      using mem by (auto simp: match_loop.simps [of _ _ _ _ _ _ q] opposite_best_head [OF side] hd price)
    with True Cons.prems show ?thesis by auto
  next
    case False
    obtain b1 io1 where mt: "match tk c side k m (Some i) q b io = Inr (q - ?f, b1, io1)"
      and rep1: "book_rep False b1 (if o_quantity ?x - ?f = 0 then (\<lambda>t. remove_from i (S t)) else S)"
      and data: "pdata (order_pool b1) = (pdata (order_pool b))(i := with_fill ?x ?f)"
      and sent: "sent_messages (fill_responses c k tk side m ?x q) (fill_updates tk side ?x q) io io1"
      and acc: "accounted b S b1 (if o_quantity ?x - ?f = 0 then (\<lambda>t. remove_from i (S t)) else S)"
      using match_rep [OF Cons.prems(1) i, of tk c side k m q io] by blast
    have step: "match_loop c k tk side price m q b io = match_loop c k tk side price m (q - ?f) b1 io1"
      using mem False mt by (subst match_loop.simps) (simp add: opposite_best_head [OF side] hd price)
    show ?thesis
    proof (cases "o_quantity ?x - ?f = 0")
      case True
      have other: "remove_from i (S side) = S side"
        using remove_other_side [OF Cons.prems(1) opposite_sides(1) Cons.prems(2) [symmetric] side] side
        by (auto simp: opposite_def)
      from True rep1 have "book_rep False b1 (\<lambda>t. remove_from i (S t))" by simp
      from Cons.IH [OF this rest, of "q - ?f" io1]
      obtain b' io' S' where IH: "match_loop c k tk side price m (q - ?f) b1 io1 =
            Inr (f_leaves (spec_match c k tk side price m (q - ?f) (pdata (order_pool b1)) is), b', io')"
          "book_rep False b' S'" "S' side = remove_from i (S side)"
          "queue S' (opposite side) = f_rest (spec_match c k tk side price m (q - ?f) (pdata (order_pool b1)) is)"
          "pdata (order_pool b') = f_data (spec_match c k tk side price m (q - ?f) (pdata (order_pool b1)) is)"
        and IHs: "sent_messages (f_responses (spec_match c k tk side price m (q - ?f) (pdata (order_pool b1)) is))
          (f_updates (spec_match c k tk side price m (q - ?f) (pdata (order_pool b1)) is)) io1 io'"
        and IHa: "accounted b1 (\<lambda>t. remove_from i (S t)) b' S'"
        by blast
      let ?r = "spec_match c k tk side price m (q - ?f) (pdata (order_pool b1)) is"
      have spec: "spec_match c k tk side price m q (pdata (order_pool b)) (i # is) =
          ?r\<lparr>f_responses := fill_responses c k tk side m ?x q @ f_responses ?r,
             f_updates := fill_updates tk side ?x q @ f_updates ?r\<rparr>"
        unfolding data using True False by (simp add: Let_def)
      show ?thesis
        unfolding spec step
        by (intro exI [of _ b'] exI [of _ io'] exI [of _ S'])
          (use IH other sent_messages_trans [OF sent IHs] accounted_trans [OF _ IHa] acc True in simp)
    next
      case zero: False
      then have "q - ?f = 0" by (auto simp: min_def split: if_splits)
      then have "match_loop c k tk side price m (q - ?f) b1 io1 = Inr (0, b1, io1)"
        by (simp add: match_loop.simps)
      with zero step False sent rep1 acc Cons.prems(2) \<open>q - ?f = 0\<close> show ?thesis
        by (intro exI [of _ b1] exI [of _ io1] exI [of _ S]) (simp add: data Let_def)
    qed
  qed
qed

subsection \<open>What a match means\<close>

lemma with_fill_simps [simp]:
  "o_price (with_fill x f) = o_price x" "o_side (with_fill x f) = o_side x"
  "o_quantity (with_fill x f) = o_quantity x - f"
  by (simp_all add: with_fill_def)

lemma fill_price [simp]: "o_price ((d(i := with_fill (d i) f)) j) = o_price (d j)"
  by simp

lemma spec_match_frame:
  "j \<notin> set is \<Longrightarrow> f_data (spec_match c k tk side price m q d is) j = d j"
  by (induction "is" arbitrary: q d) (auto simp: Let_def)

lemma spec_match_prices:
  "o_price (f_data (spec_match c k tk side price m q d is) j) = o_price (d j)"
  by (induction "is" arbitrary: q d) (simp_all add: Let_def)

text \<open>The orders that are gone are a prefix of the queue; each crossed the limit and was filled in full.\<close>

lemma spec_match_prefix:
  "distinct is \<Longrightarrow> \<exists>fs. is = fs @ f_rest (spec_match c k tk side price m q d is) \<and>
     (\<forall>i \<in> set fs. \<not> no_cross side price (o_price (d i)) \<and>
        o_quantity (f_data (spec_match c k tk side price m q d is) i) = 0)"
proof (induction "is" arbitrary: q d)
  case Nil
  then show ?case by simp
next
  case (Cons i "is")
  let ?f = "min q (o_quantity (d i))"
  let ?d = "d(i := with_fill (d i) ?f)"
  show ?case
  proof (cases "\<not> (q = 0 \<or> no_cross side price (o_price (d i))) \<and> o_quantity (d i) - ?f = 0")
    case True
    obtain fs where fs: "is = fs @ f_rest (spec_match c k tk side price m (q - ?f) ?d is)"
      "\<forall>j \<in> set fs. \<not> no_cross side price (o_price (?d j)) \<and>
        o_quantity (f_data (spec_match c k tk side price m (q - ?f) ?d is) j) = 0"
      using Cons.IH [of "q - ?f" ?d] Cons.prems by (auto simp del: fun_upd_apply)
    have "o_quantity (f_data (spec_match c k tk side price m (q - ?f) ?d is) i) = 0"
      using True Cons.prems spec_match_frame [of i "is" c k tk side price m "q - ?f" ?d] by simp
    with True fs show ?thesis
      by (intro exI [of _ "i # fs"]) (auto simp: Let_def simp del: fun_upd_apply split: if_splits)
  next
    case False
    then show ?thesis by (intro exI [of _ "[]"]) (auto simp: Let_def)
  qed
qed

lemma unat_fill: "f \<le> q \<Longrightarrow> unat (q - f :: 'a::len word) = unat q - unat f"
  by (rule unat_sub)

lemma spec_match_quantity:
  "distinct is \<Longrightarrow>
   unat (f_leaves (spec_match c k tk side price m q d is)) + (\<Sum>i\<leftarrow>is. unat (o_quantity (d i))) =
   unat q + (\<Sum>i\<leftarrow>is. unat (o_quantity (f_data (spec_match c k tk side price m q d is) i)))"
proof (induction "is" arbitrary: q d)
  case Nil
  then show ?case by simp
next
  case (Cons i "is")
  define f where "f = min q (o_quantity (d i))"
  let ?d = "d(i := with_fill (d i) f)"
  have le: "f \<le> q" "f \<le> o_quantity (d i)" by (simp_all add: f_def)
  have u: "unat (q - f) = unat q - unat f" "unat (o_quantity (d i) - f) = unat (o_quantity (d i)) - unat f"
    "unat f \<le> unat q" "unat f \<le> unat (o_quantity (d i))"
    using unat_fill [OF le(1)] unat_fill [OF le(2)] le by (simp_all only: word_le_nat_alt)
  have frame: "(\<Sum>j\<leftarrow>is. unat (o_quantity (?d j))) = (\<Sum>j\<leftarrow>is. unat (o_quantity (d j)))"
    using Cons.prems by (intro arg_cong [of _ _ sum_list] map_cong) auto
  show ?case
  proof (cases "q = 0 \<or> no_cross side price (o_price (d i))")
    case True
    then show ?thesis by auto
  next
    case cross: False
    have step: "f_leaves (spec_match c k tk side price m q d (i # is)) =
        (if o_quantity (d i) - f = 0 then f_leaves (spec_match c k tk side price m (q - f) ?d is) else q - f)"
      "f_data (spec_match c k tk side price m q d (i # is)) =
        (if o_quantity (d i) - f = 0 then f_data (spec_match c k tk side price m (q - f) ?d is) else ?d)"
      using cross by (simp_all add: Let_def f_def del: fun_upd_apply)
    show ?thesis
    proof (cases "o_quantity (d i) - f = 0")
      case True
      let ?r = "spec_match c k tk side price m (q - f) ?d is"
      have zero: "unat (o_quantity (f_data ?r i)) = 0"
        using True Cons.prems spec_match_frame [of i "is" c k tk side price m "q - f" ?d] by simp
      have same: "f_leaves (spec_match c k tk side price m q d (i # is)) = f_leaves ?r"
        "f_data (spec_match c k tk side price m q d (i # is)) = f_data ?r"
        using step True by simp_all
      have "unat (o_quantity (d i)) = unat f" using True by (metis right_minus_eq)
      moreover have "unat (f_leaves ?r) + (\<Sum>j\<leftarrow>is. unat (o_quantity (d j))) =
          unat (q - f) + (\<Sum>j\<leftarrow>is. unat (o_quantity (f_data ?r j)))"
        using Cons.IH [of "q - f" ?d] Cons.prems unfolding frame by (simp del: fun_upd_apply)
      ultimately show ?thesis
        unfolding same list.map sum_list.Cons using u(1,3) zero by arith
    next
      case False
      have same: "f_leaves (spec_match c k tk side price m q d (i # is)) = q - f"
        "f_data (spec_match c k tk side price m q d (i # is)) = ?d"
        using step False by (simp_all only: if_False)
      have i: "unat (o_quantity (?d i)) = unat (o_quantity (d i)) - unat f" using u(2) by simp
      show ?thesis
        unfolding same list.map sum_list.Cons frame i using u(1,3,4) by arith
    qed
  qed
qed

lemma spec_match_done:
  "f_leaves (spec_match c k tk side price m q d is) = 0 \<or>
   f_rest (spec_match c k tk side price m q d is) = [] \<or>
   no_cross side price (o_price (d (hd (f_rest (spec_match c k tk side price m q d is)))))"
proof (induction "is" arbitrary: q d)
  case Nil
  then show ?case by simp
next
  case (Cons i "is")
  let ?f = "min q (o_quantity (d i))"
  show ?case
    using Cons.IH [of "q - ?f" "d(i := with_fill (d i) ?f)"]
    by (auto simp: Let_def min_def simp del: fun_upd_apply split: if_splits)
qed

end
