(* ===== verification/Book_Properties.thy ===== *)
theory Book_Properties
  imports Book_Match
begin

text \<open>
  Cancelling on a well-formed book, and the properties of matching and cancelling, stated of
  \<open>checkForMatch\<close> and \<open>cancel\<close> as the code runs them.
\<close>

subsection \<open>An example book\<close>

text \<open>
  Two sell levels (orders 0 and 1 at 100, order 2 at 101) and a buy level (order 3 at 99),
  in pools with room to spare.
\<close>

definition example_order :: "nat \<Rightarrow> Side \<Rightarrow> Price \<Rightarrow> Quantity \<Rightarrow> nat \<Rightarrow> nat \<Rightarrow> MEOrder" where
  "example_order i s price qty prv nxt = \<lparr>o_ticker_id = 0, o_client_id = 1, o_client_order_id = of_nat i,
     o_market_order_id = of_nat (10 + i), o_side = s, o_price = price, o_quantity = qty, o_priority = 1,
     prev_order = Some prv, next_order = Some nxt\<rparr>"

definition example_level :: "Side \<Rightarrow> Price \<Rightarrow> nat \<Rightarrow> nat \<Rightarrow> nat \<Rightarrow> MEOrdersAtPrice" where
  "example_level s price fo prv nxt = \<lparr>l_side = s, l_price = price, first_me_order = Some fo,
     prev_entry = Some prv, next_entry = Some nxt\<rparr>"

definition pool_of :: "'a list \<Rightarrow> 'a \<Rightarrow> 'a MemPool" where
  "pool_of xs d = \<lparr>pool_store = (\<lambda>i. if i < length xs then \<lparr>object = xs ! i, is_free = False\<rparr>
       else \<lparr>object = d, is_free = True\<rparr>), pool_size = length xs + 2, next_free_index = length xs\<rparr>"

definition example_book :: MEOrderBook where
  "example_book = (newMEOrderBook
       (\<lambda>c k. if c = 1 \<and> k < 4 then Some k else None)
       ((\<lambda>_. None)(100 := Some 0, 101 := Some 1, 99 := Some 2)) 0)
     \<lparr>order_pool := pool_of [example_order 0 Side_SELL 100 10 1 1, example_order 1 Side_SELL 100 5 0 0,
          example_order 2 Side_SELL 101 7 2 2, example_order 3 Side_BUY 99 4 3 3] defaultOrder,
      orders_at_price_pool := pool_of [example_level Side_SELL 100 0 1 1, example_level Side_SELL 101 2 0 0,
          example_level Side_BUY 99 3 2 2] defaultLevel,
      asks_by_price := Some 0, bids_by_price := Some 2\<rparr>"

definition example_shape :: shape where
  "example_shape s = (if s = Side_BUY then [(2, [3])] else [(0, [0, 1]), (1, [2])])"

definition example_io :: EngineIO where
  "example_io = \<lparr>outgoing_response = LFQueue 16 defaultResponse, outgoing_md_updates = LFQueue 16 defaultUpdate,
     io_logger = newLogger, io_time_str = [], io_ctime = (\<lambda>_. []), io_ticks = 0,
     io_file = ''matching_engine.cpp''\<rparr>"

lemma pool_of_simps [simp]:
  "obj (pool_of xs d) i = (if i < length xs then xs ! i else d)"
  "live (pool_of xs d) = {..<length xs}" "pool_inv (pool_of xs d)"
  by (auto simp: pool_of_def live_def pool_inv_def)

lemma example_pools [simp]:
  "order_pool example_book = pool_of [example_order 0 Side_SELL 100 10 1 1, example_order 1 Side_SELL 100 5 0 0,
     example_order 2 Side_SELL 101 7 2 2, example_order 3 Side_BUY 99 4 3 3] defaultOrder"
  "orders_at_price_pool example_book = pool_of [example_level Side_SELL 100 0 1 1,
     example_level Side_SELL 101 2 0 0, example_level Side_BUY 99 3 2 2] defaultLevel"
  "asks_by_price example_book = Some 0" "bids_by_price example_book = Some 2"
  "price_orders_at_price example_book = (\<lambda>_. None)(100 := Some 0, 101 := Some 1, 99 := Some 2)"
  "cid_oid_to_order example_book = (\<lambda>c k. if c = 1 \<and> k < 4 then Some k else None)"
  by (simp_all add: example_book_def newMEOrderBook_def)

lemma example_entries: "entries example_shape = {(2, [3]), (0, [0, 1]), (1, [2])}"
  by (auto simp: entries_def example_shape_def)

lemma example_resting: "resting example_shape = {0, 1, 2, 3}"
  by (auto simp: resting_def example_entries)

lemma less_4_cases: "i < (4::nat) \<longleftrightarrow> i = 0 \<or> i = 1 \<or> i = 2 \<or> i = 3"
  by auto

lemma example_rep: "book_rep False example_book example_shape"
proof -
  have "sides_ok False example_book example_shape"
    by (simp add: sides_ok_def example_shape_def side_ring_def head_of_def order_ok_def ring_def
        pool_view_defs strip_def example_order_def example_level_def in_hash_def
        ME_MAX_NUM_CLIENTS_def ME_MAX_ORDER_IDS_def)
  moreover have "pairwise (apart (orders_at_price_pool example_book)) (entries example_shape)"
    by (auto simp: example_entries pairwise_def lidx_def qprice_def example_level_def priceToIndex_def
        ME_MAX_PRICE_LEVELS_def)
  moreover have "slots_ok example_book (entries example_shape)"
    unfolding slots_ok_def
  proof (intro allI impI)
    fix k l :: nat
    have idx: "lidx (orders_at_price_pool example_book) 0 = 100" "lidx (orders_at_price_pool example_book) 1 = 101"
      "lidx (orders_at_price_pool example_book) 2 = 99"
      by (simp_all add: lidx_def qprice_def example_level_def priceToIndex_def ME_MAX_PRICE_LEVELS_def)
    show "price_orders_at_price example_book k = Some l \<longleftrightarrow>
        l \<in> fst ` entries example_shape \<and> lidx (orders_at_price_pool example_book) l = k"
      unfolding example_entries using idx by (cases "l \<in> {0, 1, 2}") (auto simp del: example_pools(2))
  qed
  moreover have "hash_ok example_book (resting example_shape)"
    unfolding hash_ok_def
  proof (intro allI impI)
    fix c k i :: nat
    have key: "unat (o_client_id (pdata (order_pool example_book) i)) = 1 \<and>
        unat (o_client_order_id (pdata (order_pool example_book) i)) = i" if "i < 4"
      using that by (auto simp: less_4_cases pdata_def strip_def example_order_def)
    show "cid_oid_to_order example_book c k = Some i \<longleftrightarrow> i \<in> resting example_shape \<and>
        unat (o_client_id (pdata (order_pool example_book) i)) = c \<and>
        unat (o_client_order_id (pdata (order_pool example_book) i)) = k"
      using key by (cases "i < 4") (auto simp: example_resting less_4_cases simp del: example_pools(1))
  qed
  ultimately show ?thesis by (simp add: book_rep_def)
qed


subsection \<open>Cancelling\<close>

lemma book_rep_response [simp]: "book_rep swp (b\<lparr>b_client_response := r\<rparr>) S = book_rep swp b S"
  by (simp add: book_rep_def sides_ok_def head_of_def slots_ok_def hash_ok_def)

lemma concat_remove_from:
  "\<forall>e \<in> set ls. distinct (snd e) \<Longrightarrow>
   concat (map snd (remove_from i ls)) = filter (\<lambda>j. j \<noteq> i) (concat (map snd ls))"
proof (induction ls)
  case (Cons e ls)
  have "remove1 i (snd e) = filter (\<lambda>j. j \<noteq> i) (snd e)"
    using Cons.prems by (auto simp: distinct_remove1_removeAll removeAll_filter_not_eq intro!: filter_cong)
  with Cons show ?case by simp
qed simp

lemma resting_bound:
  "book_rep swp b S \<Longrightarrow> i \<in> resting S \<Longrightarrow> i < pool_size (order_pool b) \<and>
     in_hash (o_client_id (pdata (order_pool b) i)) (o_client_order_id (pdata (order_pool b) i))"
  using book_rep_level [of swp b S] live_bound [of i "order_pool b"] by (fastforce elim!: restingE simp: order_ok_def)

lemma hash_lookup:
  "book_rep swp b S \<Longrightarrow> in_hash c k \<Longrightarrow> cid_oid_to_order b (unat c) (unat k) = Some i \<longleftrightarrow>
     i \<in> resting S \<and> o_client_id (pdata (order_pool b) i) = c \<and> o_client_order_id (pdata (order_pool b) i) = k"
  by (auto simp: book_rep_def hash_ok_def in_hash_def)

lemma queue_remove:
  assumes "book_rep swp b S" "s \<in> {Side_BUY, Side_SELL}"
  shows "queue (\<lambda>t. remove_from i (S t)) s = filter (\<lambda>j. j \<noteq> i) (queue S s)"
proof -
  have "distinct (snd e)" if "e \<in> set (S s)" for e
    using book_rep_level [OF assms, of "fst e" "snd e"] that by (cases e) (auto dest: ring_distinct)
  then show ?thesis unfolding queue_def by (intro concat_remove_from) blast
qed

definition canceled_response :: "TickerId \<Rightarrow> MEOrder \<Rightarrow> MEClientResponse" where
  "canceled_response tk x = mkResponse Resp_CANCELED (o_client_id x) tk (o_client_order_id x) (o_market_order_id x)
     (o_side x) (o_price x) Quantity_INVALID (o_quantity x)"

definition canceled_update :: "TickerId \<Rightarrow> MEOrder \<Rightarrow> MEMarketUpdate" where
  "canceled_update tk x = mkUpdate Upd_CANCEL (o_market_order_id x) tk (o_side x) (o_price x) 0 (o_priority x)"

definition rejected_response :: "ClientId \<Rightarrow> OrderId \<Rightarrow> TickerId \<Rightarrow> MEClientResponse" where
  "rejected_response c k tk = mkResponse Resp_CANCEL_REJECTED c tk k OrderId_INVALID Side_INVALID Price_INVALID
     Quantity_INVALID Quantity_INVALID"

lemma cancel_hit:
  assumes rep: "book_rep False b S" and i: "i \<in> resting S"
  defines "x \<equiv> pdata (order_pool b) i"
  shows "\<exists>b' io'. cancel (o_client_id x) (o_client_order_id x) tk b io = Inr (b', io') \<and>
    book_rep False b' (\<lambda>t. remove_from i (S t)) \<and> pdata (order_pool b') = pdata (order_pool b) \<and>
    sent_messages [canceled_response tk x] [canceled_update tk x] io io' \<and>
    accounted b S b' (\<lambda>t. remove_from i (S t))"
proof -
  note bd = resting_bound [OF rep i, folded x_def]
  then have h: "in_hash (o_client_id x) (o_client_order_id x)" by simp
  have look: "cid_oid_to_order b (unat (o_client_id x)) (unat (o_client_order_id x)) = Some i"
    using hash_lookup [OF rep h] i by (simp add: x_def)
  let ?r = "canceled_response tk x" and ?u = "canceled_update tk x"
  let ?b1 = "b\<lparr>b_client_response := ?r, b_market_update := ?u\<rparr>"
  have rep1: "book_rep False ?b1 S" using rep by simp
  from removeOrder_rep [OF this i] obtain b' where rm: "removeOrder (Some i) ?b1 = Inr b'"
    and b': "book_rep False b' (\<lambda>t. remove_from i (S t))" "pdata (order_pool b') = pdata (order_pool b)"
      "b_client_response b' = ?r" "b_market_update b' = ?u"
    by (auto simp: same_messages_def)
  obtain io1 io2 where io: "sendMarketUpdate ?u io = Inr io1" "sendClientResponse ?r io1 = Inr io2"
    and sent: "sent_messages [] [?u] io io1" "sent_messages [?r] [] io1 io2"
    using sendClientResponse_sends sendMarketUpdate_sends by metis
  have "cancel (o_client_id x) (o_client_order_id x) tk b io = Inr (b', io2)"
    using h bd look rm b'(3,4) io
    by (simp add: cancel_def in_hash_def views x_def [symmetric] canceled_response_def canceled_update_def)
  moreover have "accounted b S b' (\<lambda>t. remove_from i (S t))"
    using removeOrder_accounted [OF rep1 i rm] by (simp add: accounted_def)
  ultimately show ?thesis using b' sent_messages_trans [OF sent] by auto
qed

lemma cancel_miss:
  assumes rep: "book_rep swp b S"
    and no: "\<And>i. i \<in> resting S \<Longrightarrow> (o_client_id (pdata (order_pool b) i), o_client_order_id (pdata (order_pool b) i)) \<noteq> (c, k)"
  shows "if unat c < ME_MAX_NUM_CLIENTS \<and> \<not> unat k < ME_MAX_ORDER_IDS then cancel c k tk b io = Inl Out_of_range
    else \<exists>b' io'. cancel c k tk b io = Inr (b', io') \<and> book_rep swp b' S \<and> order_pool b' = order_pool b \<and>
      sent_messages [rejected_response c k tk] [] io io' \<and> accounted b S b' S"
proof -
  let ?r = "rejected_response c k tk"
  let ?b' = "b\<lparr>b_client_response := ?r\<rparr>"
  obtain io1 where io: "sendClientResponse ?r io = Inr io1" "sent_messages [?r] [] io io1"
    using sendClientResponse_sends by metis
  have rep': "book_rep swp ?b' S"
    using rep by simp
  have look: "cid_oid_to_order b (unat c) (unat k) = None" if "in_hash c k"
    using hash_lookup [OF rep that] no by (cases "cid_oid_to_order b (unat c) (unat k)") auto
  show ?thesis
  proof (cases "unat c < ME_MAX_NUM_CLIENTS \<and> \<not> unat k < ME_MAX_ORDER_IDS")
    case True
    then show ?thesis by (simp add: cancel_def)
  next
    case False
    then have "cancel c k tk b io = Inr (?b', io1)"
      using look io by (simp add: cancel_def in_hash_def rejected_response_def)
    with False rep' io(2) show ?thesis by (auto simp: accounted_def)
  qed
qed


subsection \<open>Shared facts\<close>

lemma queue_distinct:
  assumes rep: "book_rep swp b S" and s: "s \<in> {Side_BUY, Side_SELL}"
  shows "distinct (queue S s)"
proof -
  have E: "e \<in> entries S" if "e \<in> set (S s)" for e using entriesI [of _ S s] that s by blast
  have d: "distinct (snd e)" "snd e \<noteq> []" if "e \<in> set (S s)" for e
    using book_rep_level [OF rep s, of "fst e" "snd e"] that book_rep_not_Nil [OF rep E [OF that]]
    by (cases e; auto dest: ring_distinct)+
  have same: "e = e'" if "e \<in> set (S s)" "e' \<in> set (S s)" "set (snd e) \<inter> set (snd e') \<noteq> {}" for e e'
    using book_rep_unique [OF rep, of "fst e" "snd e" "fst e'" "snd e'"] E that by auto
  have "inj_on snd (set (S s))"
  proof (rule inj_onI)
    fix e e' assume e: "e \<in> set (S s)" "e' \<in> set (S s)" "snd e = snd e'"
    then have "set (snd e) \<inter> set (snd e') \<noteq> {}" using d(2) [OF e(1)] by simp
    with same e show "e = e'" by blast
  qed
  moreover have "distinct (S s)" using side_ring_distinct [OF book_rep_side [OF rep s]] by (simp add: distinct_map)
  ultimately have "distinct (map snd (S s))" by (simp add: distinct_map)
  then show ?thesis
    using d same unfolding queue_def by (intro distinct_concat) fastforce+
qed

lemma checkForMatch_spec:
  assumes "book_rep False b S" "side \<in> {Side_BUY, Side_SELL}"
  obtains b' io' S' where
    "checkForMatch c k tk side price q m b io =
      Inr (f_leaves (spec_match c k tk side price m q (pdata (order_pool b)) (queue S (opposite side))), b', io')"
    "book_rep False b' S'" "S' side = S side"
    "queue S' (opposite side) = f_rest (spec_match c k tk side price m q (pdata (order_pool b)) (queue S (opposite side)))"
    "pdata (order_pool b') = f_data (spec_match c k tk side price m q (pdata (order_pool b)) (queue S (opposite side)))"
    "sent_messages (f_responses (spec_match c k tk side price m q (pdata (order_pool b)) (queue S (opposite side))))
      (f_updates (spec_match c k tk side price m q (pdata (order_pool b)) (queue S (opposite side)))) io io'"
    "accounted b S b' S'"
  using match_loop_refines [OF assms refl, of c k tk price m q io] assms(2)
  by (auto simp: checkForMatch_def)

lemma example_queues: "queue example_shape Side_SELL = [0, 1, 2]" "queue example_shape Side_BUY = [3]"
  by (simp_all add: queue_def example_shape_def)

lemma spec_match_rest: "length (f_rest (spec_match c k tk side price m q d is)) \<le> length is"
  by (induction "is" arbitrary: q d) (simp_all add: Let_def le_SucI del: fun_upd_apply)

lemma spec_match_touched:
  "is = fs @ f_rest (spec_match c k tk side price m q d is) \<Longrightarrow> j \<notin> set fs \<Longrightarrow>
   j \<notin> set (take 1 (f_rest (spec_match c k tk side price m q d is))) \<Longrightarrow>
   f_data (spec_match c k tk side price m q d is) j = d j"
proof (induction "is" arbitrary: q d fs)
  case (Cons i "is")
  define f where "f = min q (o_quantity (d i))"
  let ?d = "d(i := with_fill (d i) f)"
  let ?r = "spec_match c k tk side price m (q - f) ?d is"
  show ?case
  proof (cases "\<not> (q = 0 \<or> no_cross side price (o_price (d i))) \<and> o_quantity (d i) - f = 0")
    case True
    then have r: "f_rest (spec_match c k tk side price m q d (i # is)) = f_rest ?r"
      "f_data (spec_match c k tk side price m q d (i # is)) = f_data ?r"
      by (simp_all add: Let_def f_def del: fun_upd_apply)
    have len: "length (f_rest ?r) \<le> length is" by (rule spec_match_rest)
    have app: "i # is = fs @ f_rest ?r" using Cons.prems(1) unfolding r .
    have "fs \<noteq> []" using arg_cong [OF app, of length] len by auto
    then obtain gs where gs: "fs = i # gs" "is = gs @ f_rest ?r" using app by (cases fs) auto
    have ij: "j \<noteq> i" "j \<notin> set gs" using Cons.prems(2) gs(1) by auto
    have "f_data ?r j = ?d j" using Cons.IH [OF gs(2) ij(2)] Cons.prems(3) unfolding r by blast
    also have "\<dots> = d j" using ij(1) by simp
    finally show ?thesis unfolding r .
  next
    case False
    then show ?thesis using Cons.prems by (auto simp: Let_def f_def split: if_splits)
  qed
qed simp

subsection \<open>Properties of matching\<close>

text \<open>
  C3: matching an incoming order on a well-formed book refines the specification on the list
  of resting orders. The loop always returns; the quantity left, the responses and updates
  it sent, in order, the orders that remain, and every field of every order are those of
  \<open>spec_match\<close>; the own side is untouched and the result is a well-formed book again.
\<close>

theorem checkForMatch_refines:
  assumes "book_rep False b S" "side \<in> {Side_BUY, Side_SELL}"
  shows "let r = spec_match c k tk side price m q (pdata (order_pool b)) (queue S (opposite side)) in
    \<exists>b' io' S'. checkForMatch c k tk side price q m b io = Inr (f_leaves r, b', io') \<and>
      book_rep False b' S' \<and> S' side = S side \<and> queue S' (opposite side) = f_rest r \<and>
      pdata (order_pool b') = f_data r \<and> sent_messages (f_responses r) (f_updates r) io io'"
  unfolding Let_def by (rule checkForMatch_spec [OF assms, where c = c and k = k and tk = tk and price = price and
      q = q and m = m and io = io]) blast

theorem checkForMatch_refines_witness:
  "let r = spec_match 2 7 0 Side_BUY 100 50 12 (pdata (order_pool example_book)) (queue example_shape Side_SELL) in
    f_leaves r = 0 \<and> f_rest r = [1, 2] \<and>
    (\<exists>b' io' S'. checkForMatch 2 7 0 Side_BUY 100 12 50 example_book example_io = Inr (f_leaves r, b', io') \<and>
      book_rep False b' S' \<and> S' Side_BUY = example_shape Side_BUY \<and> queue S' Side_SELL = f_rest r \<and>
      pdata (order_pool b') = f_data r \<and> sent_messages (f_responses r) (f_updates r) example_io io')"
  using checkForMatch_refines [OF example_rep, of Side_BUY 2 7 0 100 50 12 example_io]
  by (simp add: Let_def opposite_def example_queues)
    (simp add: no_cross_def pdata_def strip_def example_order_def with_fill_def Let_def min_def)

text \<open>
  C4: price and time priority, and no trade beyond the limit. The orders a match takes out
  are exactly a prefix of the resting orders of the other side (best level first, oldest
  order first); each of them accepted the incoming limit and was filled completely. The
  orders that stay keep their sequence, and of these at most the front one has a changed
  quantity.
\<close>

theorem match_priority:
  assumes "book_rep False b S" "side \<in> {Side_BUY, Side_SELL}"
    and "checkForMatch c k tk side price q m b io = Inr (left, b', io')"
  shows "\<exists>S' filled. book_rep False b' S' \<and> S' side = S side \<and>
    queue S (opposite side) = filled @ queue S' (opposite side) \<and>
    (\<forall>i \<in> set filled. \<not> no_cross side price (o_price (pdata (order_pool b) i)) \<and>
       o_quantity (pdata (order_pool b') i) = 0) \<and>
    (\<forall>j. j \<notin> set filled \<and> j \<notin> set (take 1 (queue S' (opposite side))) \<longrightarrow>
       pdata (order_pool b') j = pdata (order_pool b) j)"
proof -
  let ?r = "spec_match c k tk side price m q (pdata (order_pool b)) (queue S (opposite side))"
  obtain S' where S': "book_rep False b' S'" "S' side = S side" "queue S' (opposite side) = f_rest ?r"
    and data: "pdata (order_pool b') = f_data ?r"
    using checkForMatch_spec [OF assms(1,2), of c k tk price q m io] assms(3) by (metis Inr_inject prod.inject)
  have d: "distinct (queue S (opposite side))" by (rule queue_distinct [OF assms(1) opposite_sides(1)])
  from spec_match_prefix [OF d] obtain filled where f: "queue S (opposite side) = filled @ f_rest ?r"
    "\<forall>i \<in> set filled. \<not> no_cross side price (o_price (pdata (order_pool b) i)) \<and> o_quantity (f_data ?r i) = 0"
    by blast
  have "f_data ?r j = pdata (order_pool b) j" if "j \<notin> set filled" "j \<notin> set (take 1 (f_rest ?r))" for j
    using spec_match_touched [OF f(1)] that by blast
  with S' f data show ?thesis by (intro exI [of _ S'] exI [of _ filled]) simp
qed

theorem match_priority_witness:
  "\<exists>left b' io'. checkForMatch 2 7 0 Side_BUY 100 12 50 example_book example_io = Inr (left, b', io') \<and>
    (\<exists>S' filled. book_rep False b' S' \<and> S' Side_BUY = example_shape Side_BUY \<and>
      queue example_shape (opposite Side_BUY) = filled @ queue S' (opposite Side_BUY) \<and>
      (\<forall>i \<in> set filled. \<not> no_cross Side_BUY 100 (o_price (pdata (order_pool example_book) i)) \<and>
         o_quantity (pdata (order_pool b') i) = 0) \<and>
      (\<forall>j. j \<notin> set filled \<and> j \<notin> set (take 1 (queue S' (opposite Side_BUY))) \<longrightarrow>
         pdata (order_pool b') j = pdata (order_pool example_book) j))"
proof -
  have s: "Side_BUY \<in> {Side_BUY, Side_SELL}" by simp
  obtain left b' io' where run: "checkForMatch 2 7 0 Side_BUY 100 12 50 example_book example_io = Inr (left, b', io')"
    using checkForMatch_spec [OF example_rep s] by metis
  with match_priority [OF example_rep s run] show ?thesis by blast
qed

text \<open>
  C5: matching neither creates nor loses quantity. What the incoming order has left plus
  what rested before equals the incoming quantity plus what rests afterwards, over the
  orders of the other side, as natural numbers: no 32-bit subtraction wraps.
\<close>

theorem match_conserves_quantity:
  assumes "book_rep False b S" "side \<in> {Side_BUY, Side_SELL}"
    and "checkForMatch c k tk side price q m b io = Inr (left, b', io')"
  shows "unat left + (\<Sum>i\<leftarrow>queue S (opposite side). unat (o_quantity (pdata (order_pool b) i))) =
    unat q + (\<Sum>i\<leftarrow>queue S (opposite side). unat (o_quantity (pdata (order_pool b') i)))"
proof -
  let ?r = "spec_match c k tk side price m q (pdata (order_pool b)) (queue S (opposite side))"
  have "left = f_leaves ?r" "pdata (order_pool b') = f_data ?r"
    using checkForMatch_spec [OF assms(1,2), of c k tk price q m io] assms(3) by (metis Inr_inject prod.inject)+
  with spec_match_quantity [OF queue_distinct [OF assms(1) opposite_sides(1)]] show ?thesis by simp
qed

theorem match_conserves_quantity_witness:
  "\<exists>left b' io'. checkForMatch 2 7 0 Side_BUY 100 12 50 example_book example_io = Inr (left, b', io') \<and>
    unat left + (\<Sum>i\<leftarrow>queue example_shape (opposite Side_BUY). unat (o_quantity (pdata (order_pool example_book) i))) =
    unat (12 :: Quantity) + (\<Sum>i\<leftarrow>queue example_shape (opposite Side_BUY). unat (o_quantity (pdata (order_pool b') i)))"
proof -
  have s: "Side_BUY \<in> {Side_BUY, Side_SELL}" by simp
  obtain left b' io' where run: "checkForMatch 2 7 0 Side_BUY 100 12 50 example_book example_io = Inr (left, b', io')"
    using checkForMatch_spec [OF example_rep s] by metis
  with match_conserves_quantity [OF example_rep s run] show ?thesis by blast
qed

text \<open>
  C37: no order that could trade is left behind. Let the book be well formed and the incoming
  order have a side, and let the orders of the other side be in order as far as its limit can
  see: one further back never accepts the limit when one before it refuses. If the match leaves
  a quantity, every order that then rests on that side refuses the limit.
\<close>

theorem match_complete:
  assumes "book_rep False b S" "side \<in> {Side_BUY, Side_SELL}"
    and "sorted_wrt (\<lambda>i j. no_cross side price (o_price (pdata (order_pool b) i)) \<longrightarrow>
      no_cross side price (o_price (pdata (order_pool b) j))) (queue S (opposite side))"
    and "checkForMatch c k tk side price q m b io = Inr (left, b', io')"
  shows "\<exists>S'. book_rep False b' S' \<and> (left = 0 \<or>
    (\<forall>i \<in> set (queue S' (opposite side)). no_cross side price (o_price (pdata (order_pool b') i))))"
proof -
  let ?d = "pdata (order_pool b)"
  let ?r = "spec_match c k tk side price m q ?d (queue S (opposite side))"
  obtain S' where S': "book_rep False b' S'" "queue S' (opposite side) = f_rest ?r"
    and data: "left = f_leaves ?r" "pdata (order_pool b') = f_data ?r"
    using checkForMatch_spec [OF assms(1,2), of c k tk price q m io] assms(4) by (metis Inr_inject prod.inject)
  obtain filled where f: "queue S (opposite side) = filled @ f_rest ?r"
    using spec_match_prefix [OF queue_distinct [OF assms(1) opposite_sides(1)]] by blast
  have "no_cross side price (o_price (?d i))" if "left \<noteq> 0" "i \<in> set (f_rest ?r)" for i
  proof (cases "f_rest ?r")
    case (Cons h t)
    then have h: "no_cross side price (o_price (?d h))"
      using spec_match_done [of c k tk side price m q ?d "queue S (opposite side)"] that data(1) by simp
    have "sorted_wrt (\<lambda>i j. no_cross side price (o_price (?d i)) \<longrightarrow> no_cross side price (o_price (?d j))) (h # t)"
      using assms(3) f Cons by (metis sorted_wrt_append)
    with h that(2) Cons show ?thesis by auto
  qed (use that in simp)
  then show ?thesis using S' by (intro exI [of _ S']) (auto simp: data spec_match_prices)
qed

text \<open>A buy of 20 at 100 takes 15 from the example book and leaves the order at 101.\<close>

theorem match_complete_witness:
  "\<exists>b' io' S'. checkForMatch 2 7 0 Side_BUY 100 20 50 example_book example_io = Inr (5, b', io') \<and>
    book_rep False b' S' \<and>
    (\<forall>i \<in> set (queue S' (opposite Side_BUY)). no_cross Side_BUY 100 (o_price (pdata (order_pool b') i)))"
proof -
  have s: "Side_BUY \<in> {Side_BUY, Side_SELL}" by simp
  let ?d = "pdata (order_pool example_book)"
  have sorted: "sorted_wrt (\<lambda>i j. no_cross Side_BUY 100 (o_price (?d i)) \<longrightarrow> no_cross Side_BUY 100 (o_price (?d j)))
      (queue example_shape (opposite Side_BUY))"
    by (simp add: opposite_def example_queues no_cross_def pdata_def strip_def example_order_def)
  let ?r = "spec_match 2 7 0 Side_BUY 100 50 20 ?d (queue example_shape (opposite Side_BUY))"
  have left: "f_leaves ?r = 5"
    by (simp add: opposite_def example_queues no_cross_def pdata_def strip_def example_order_def with_fill_def Let_def min_def)
  obtain b' io' where "checkForMatch 2 7 0 Side_BUY 100 20 50 example_book example_io = Inr (f_leaves ?r, b', io')"
    using checkForMatch_spec [OF example_rep s] by metis
  then have run: "checkForMatch 2 7 0 Side_BUY 100 20 50 example_book example_io = Inr (5, b', io')"
    unfolding left .
  from match_complete [OF example_rep s sorted run] run show ?thesis by auto
qed

subsection \<open>Properties of cancelling\<close>

text \<open>
  C6: a client that cancels one of its resting orders gets exactly that order taken out:
  the result is a well-formed book without it, the other orders keep their data and their
  sequence on both sides, and exactly one CANCELED response and one CANCEL update go out,
  with the fields of that order.
\<close>

theorem cancel_removes:
  assumes "book_rep False b S" "i \<in> resting S"
  shows "let x = pdata (order_pool b) i in
    \<exists>b' io'. cancel (o_client_id x) (o_client_order_id x) tk b io = Inr (b', io') \<and>
      (\<exists>S'. book_rep False b' S' \<and> resting S' = resting S - {i} \<and>
        (\<forall>s \<in> {Side_BUY, Side_SELL}. queue S' s = filter (\<lambda>j. j \<noteq> i) (queue S s))) \<and>
      pdata (order_pool b') = pdata (order_pool b) \<and>
      sent_messages [canceled_response tk x] [canceled_update tk x] io io'"
proof -
  let ?x = "pdata (order_pool b) i"
  obtain b' io' where c: "cancel (o_client_id ?x) (o_client_order_id ?x) tk b io = Inr (b', io')"
    "book_rep False b' (\<lambda>t. remove_from i (S t))" "pdata (order_pool b') = pdata (order_pool b)"
    "sent_messages [canceled_response tk ?x] [canceled_update tk ?x] io io'"
    using cancel_hit [OF assms] by blast
  obtain l os where "(l, os) \<in> entries S" "i \<in> set os" using assms(2) by (auto simp: resting_iff)
  then have "resting (\<lambda>t. remove_from i (S t)) = resting S - {i}"
    using remove_from_entries(2) [OF assms(1)] by blast
  with c queue_remove [OF assms(1)] show ?thesis
    unfolding Let_def by (intro exI [of _ b'] exI [of _ io'] conjI exI [of _ "\<lambda>t. remove_from i (S t)"]) blast+
qed

theorem cancel_removes_witness:
  "let x = pdata (order_pool example_book) 1 in
    o_client_order_id x = 1 \<and>
    (\<exists>b' io'. cancel (o_client_id x) (o_client_order_id x) 0 example_book example_io = Inr (b', io') \<and>
      (\<exists>S'. book_rep False b' S' \<and> resting S' = resting example_shape - {1} \<and>
        (\<forall>s \<in> {Side_BUY, Side_SELL}. queue S' s = filter (\<lambda>j. j \<noteq> 1) (queue example_shape s))) \<and>
      pdata (order_pool b') = pdata (order_pool example_book) \<and>
      sent_messages [canceled_response 0 x] [canceled_update 0 x] example_io io')"
proof -
  have i: "1 \<in> resting example_shape" by (simp add: example_resting)
  have "o_client_order_id (pdata (order_pool example_book) 1) = 1"
    by (simp add: pdata_def strip_def example_order_def)
  with cancel_removes [OF example_rep i, of 0 example_io] show ?thesis unfolding Let_def by blast
qed

text \<open>
  C7: a cancel of an order the book does not hold changes nothing in it and is answered by
  one CANCEL_REJECTED response, whatever the client number; but for a known client an
  order number beyond the table is an exception out of \<open>at()\<close>, not a rejection.
\<close>

theorem cancel_rejects:
  assumes "book_rep False b S"
    and "\<forall>i \<in> resting S. (o_client_id (pdata (order_pool b) i), o_client_order_id (pdata (order_pool b) i)) \<noteq> (c, k)"
  shows "if unat c < ME_MAX_NUM_CLIENTS \<and> \<not> unat k < ME_MAX_ORDER_IDS then cancel c k tk b io = Inl Out_of_range
    else \<exists>b' io'. cancel c k tk b io = Inr (b', io') \<and> book_rep False b' S \<and> order_pool b' = order_pool b \<and>
      sent_messages [rejected_response c k tk] [] io io'"
proof -
  from assms(2) have "if unat c < ME_MAX_NUM_CLIENTS \<and> \<not> unat k < ME_MAX_ORDER_IDS then cancel c k tk b io = Inl Out_of_range
    else \<exists>b' io'. cancel c k tk b io = Inr (b', io') \<and> book_rep False b' S \<and> order_pool b' = order_pool b \<and>
      sent_messages [rejected_response c k tk] [] io io' \<and> accounted b S b' S"
    by (intro cancel_miss [OF assms(1)]) blast
  then show ?thesis by (simp split: if_splits) blast
qed

theorem cancel_rejects_witness:
  "cancel 1 2000000 0 example_book example_io = Inl Out_of_range"
proof -
  have no: "\<forall>i \<in> resting example_shape. (o_client_id (pdata (order_pool example_book) i),
      o_client_order_id (pdata (order_pool example_book) i)) \<noteq> (1, 2000000)"
    by (simp add: example_resting pdata_def strip_def example_order_def)
  from cancel_rejects [OF example_rep no, of 0 example_io] show ?thesis
    by (simp add: ME_MAX_NUM_CLIENTS_def ME_MAX_ORDER_IDS_def)
qed

text \<open>
  Cancelling is not repeatable. The second cancel of the same order, right after the
  first, is answered by a rejection and leaves the book as the first one left it.
\<close>

lemma cancel_twice:
  assumes "book_rep False b S" "i \<in> resting S"
  shows "let x = pdata (order_pool b) i; c = o_client_id x; k = o_client_order_id x in
    \<exists>b' io' b'' io''. cancel c k tk b io = Inr (b', io') \<and> cancel c k tk b' io' = Inr (b'', io'') \<and>
      order_pool b'' = order_pool b' \<and>
      sent_messages [canceled_response tk x, rejected_response c k tk] [canceled_update tk x] io io''"
proof -
  let ?x = "pdata (order_pool b) i"
  let ?c = "o_client_id ?x" and ?k = "o_client_order_id ?x"
  obtain b' io' where c1: "cancel ?c ?k tk b io = Inr (b', io')" "book_rep False b' (\<lambda>t. remove_from i (S t))"
    "pdata (order_pool b') = pdata (order_pool b)" "sent_messages [canceled_response tk ?x] [canceled_update tk ?x] io io'"
    using cancel_hit [OF assms] by blast
  obtain l os where E: "(l, os) \<in> entries S" "i \<in> set os" using assms(2) by (auto simp: resting_iff)
  have h: "in_hash ?c ?k" using resting_bound [OF assms] by simp
  have "(o_client_id (pdata (order_pool b') j), o_client_order_id (pdata (order_pool b') j)) \<noteq> (?c, ?k)"
    if "j \<in> resting (\<lambda>t. remove_from i (S t))" for j
  proof
    assume eq: "(o_client_id (pdata (order_pool b') j), o_client_order_id (pdata (order_pool b') j)) = (?c, ?k)"
    have j: "j \<in> resting S" "j \<noteq> i" using that remove_from_entries(2) [OF assms(1) E] by auto
    have "cid_oid_to_order b (unat ?c) (unat ?k) = Some j" "cid_oid_to_order b (unat ?c) (unat ?k) = Some i"
      using hash_lookup [OF assms(1) h] j(1) assms(2) eq c1(3) by simp_all
    with j(2) show False by simp
  qed
  from cancel_miss [OF c1(2) this, where tk = tk and io = io'] h
  obtain b'' io'' where c2: "cancel ?c ?k tk b' io' = Inr (b'', io'')" "order_pool b'' = order_pool b'"
    "sent_messages [rejected_response ?c ?k tk] [] io' io''"
    by (auto simp: in_hash_def)
  with c1 sent_messages_trans [OF c1(4) c2(3)] show ?thesis by (auto simp: Let_def)
qed

end
