(* ===== verification/Book_Add.thy ===== *)
theory Book_Add
  imports Book_Properties
begin

text \<open>
  Inserting an order into a well-formed book: at the end of the level it belongs to, when
  the book has that level, or with a new level, placed by \<open>addOrderAtPrice\<close>.
\<close>

subsection \<open>An order joins a level\<close>

definition append_to :: "nat \<Rightarrow> nat \<Rightarrow> (nat \<times> nat list) list \<Rightarrow> (nat \<times> nat list) list" where
  "append_to l i ls = map (\<lambda>e. if fst e = l then (l, snd e @ [i]) else e) ls"

lemma append_to_fst [simp]: "map fst (append_to l i ls) = map fst ls"
  by (induction ls) (auto simp: append_to_def)

lemma append_to_id: "l \<notin> fst ` set ls \<Longrightarrow> append_to l i ls = ls"
  by (induction ls) (auto simp: append_to_def)

lemma append_to_set:
  assumes "distinct (map fst ls)" "(l, os) \<in> set ls"
  shows "set (append_to l i ls) = insert (l, os @ [i]) (set ls - {(l, os)})"
proof -
  obtain xs ys where ls: "ls = xs @ (l, os) # ys" using assms(2) by (meson split_list)
  have no: "l \<notin> fst ` set xs" "l \<notin> fst ` set ys" using assms(1) by (auto simp: ls)
  have "append_to l i ls = append_to l i xs @ (l, os @ [i]) # append_to l i ys" by (simp add: ls append_to_def)
  also have "\<dots> = xs @ (l, os @ [i]) # ys" using no by (simp add: append_to_id)
  finally show ?thesis using no by (force simp: ls)
qed

text \<open>An order that can be put into level \<open>l\<close> of side \<open>s\<close>.\<close>

definition fresh_order :: "MEOrderBook \<Rightarrow> shape \<Rightarrow> Side \<Rightarrow> Price \<Rightarrow> nat \<Rightarrow> bool" where
  "fresh_order b S s price i \<longleftrightarrow> order_ok (order_pool b) s price i \<and> i \<notin> resting S \<and>
     (\<forall>j \<in> resting S. (o_client_id (pdata (order_pool b) j), o_client_order_id (pdata (order_pool b) j)) \<noteq>
        (o_client_id (pdata (order_pool b) i), o_client_order_id (pdata (order_pool b) i)))"

lemma addOrder_joins:
  assumes p [simp]: "order_pool b = p"
    and slot: "getOrdersAtPrice (o_price (pdata p i)) b = Some l" "l < pool_size (orders_at_price_pool b)"
    and first: "qfirst (orders_at_price_pool b) l = Some h"
    and bd: "i < pool_size p" "h < pool_size p" "a < pool_size p" and ne: "i \<noteq> h" "i \<noteq> a"
    and last: "pprev p h = Some a" and hk: "in_hash (o_client_id (pdata p i)) (o_client_order_id (pdata p i))"
  shows "\<exists>p'. addOrder (Some i) b = Inr (hash_upd (o_client_id (pdata p i)) (o_client_order_id (pdata p i)) (Some i)
      (b\<lparr>order_pool := p'\<rparr>)) \<and>
    pnext p' = (pnext p)(a := Some i, i := Some h) \<and> pprev p' = (pprev p)(i := Some a, h := Some i) \<and>
    pdata p' = pdata p \<and> live p' = live p \<and> (pool_inv p' \<longleftrightarrow> pool_inv p) \<and> pool_size p' = pool_size p"
proof -
  define p1 where "p1 = set_obj a ((obj p a)\<lparr>next_order := Some i\<rparr>) p"
  define p2 where "p2 = set_obj i ((obj p1 i)\<lparr>prev_order := Some a\<rparr>) p1"
  define p3 where "p3 = set_obj i ((obj p2 i)\<lparr>next_order := Some h\<rparr>) p2"
  define p4 where "p4 = set_obj h ((obj p3 h)\<lparr>prev_order := Some i\<rparr>) p3"
  have v: "pnext p4 = (pnext p)(a := Some i, i := Some h)" "pprev p4 = (pprev p)(i := Some a, h := Some i)"
    "pdata p4 = pdata p" "live p4 = live p" "pool_inv p4 = pool_inv p"
    using ne by (auto simp: p1_def p2_def p3_def p4_def views)
  have sz: "pool_size p1 = pool_size p" "pool_size p2 = pool_size p" "pool_size p3 = pool_size p" "pool_size p4 = pool_size p"
    by (simp_all add: p1_def p2_def p3_def p4_def)
  have v1: "pprev p1 h = Some a" using last by (simp add: p1_def views)
  have "addOrder (Some i) b = Inr (hash_upd (o_client_id (pdata p i)) (o_client_order_id (pdata p i)) (Some i)
      (b\<lparr>order_pool := p4\<rparr>))"
    using slot first bd last hk v1
    by (simp add: addOrder_def views Let_def p1_def [symmetric] p2_def [symmetric] p3_def [symmetric]
        p4_def [symmetric] sz hash_store_def del: set_obj_simps(3))
  with v sz(4) show ?thesis by blast
qed


text \<open>The new state represents the shape with the order at the end of its level.\<close>

lemma hash_ok_insert:
  assumes ok: "hash_ok b R"
    and key: "\<forall>j \<in> R. (o_client_id (pdata (order_pool b) j), o_client_order_id (pdata (order_pool b) j)) \<noteq>
        (o_client_id (pdata (order_pool b) i), o_client_order_id (pdata (order_pool b) i))"
    and upd: "cid_oid_to_order b' = cid_oid_to_order (hash_upd (o_client_id (pdata (order_pool b) i))
      (o_client_order_id (pdata (order_pool b) i)) (Some i) b)"
    and data: "pdata (order_pool b') = pdata (order_pool b)"
  shows "hash_ok b' (insert i R)"
  unfolding hash_ok_def
proof (intro allI impI)
  let ?c = "\<lambda>j. unat (o_client_id (pdata (order_pool b) j))" and ?k = "\<lambda>j. unat (o_client_order_id (pdata (order_pool b) j))"
  fix c k j assume ck: "c < ME_MAX_NUM_CLIENTS" "k < ME_MAX_ORDER_IDS"
  have old: "cid_oid_to_order b c k = Some j \<longleftrightarrow> j \<in> R \<and> ?c j = c \<and> ?k j = k"
    using ok ck by (auto simp: hash_ok_def)
  have new: "cid_oid_to_order b' c k = (if c = ?c i \<and> k = ?k i then Some i else cid_oid_to_order b c k)"
    by (simp add: upd hash_upd_def)
  have "\<not> (?c j = ?c i \<and> ?k j = ?k i)" if "j \<in> R" using key that by auto
  with old show "cid_oid_to_order b' c k = Some j \<longleftrightarrow> j \<in> insert i R \<and>
      unat (o_client_id (pdata (order_pool b') j)) = c \<and> unat (o_client_order_id (pdata (order_pool b') j)) = k"
    unfolding new data by auto
qed

lemma rep_joins:
  fixes b i
  defines "p \<equiv> order_pool b"
  assumes rep: "book_rep swp b S" and s: "s \<in> {Side_BUY, Side_SELL}"
    and lo: "(l, os) \<in> set (S s)" and fr: "fresh_order b S s (qprice (orders_at_price_pool b) l) i"
    and p': "pnext p' = (pnext p)(last os := Some i, i := Some (hd os))"
      "pprev p' = (pprev p)(i := Some (last os), hd os := Some i)"
      "pdata p' = pdata p" "live p' = live p" "pool_inv p' \<longleftrightarrow> pool_inv p"
  shows "book_rep swp (hash_upd (o_client_id (pdata p i)) (o_client_order_id (pdata p i)) (Some i)
      (b\<lparr>order_pool := p'\<rparr>)) (S(s := append_to l i (S s)))"
proof -
  let ?q = "orders_at_price_pool b"
  let ?b' = "hash_upd (o_client_id (pdata p i)) (o_client_order_id (pdata p i)) (Some i) (b\<lparr>order_pool := p'\<rparr>)"
  let ?S = "S(s := append_to l i (S s))"
  have E: "(l, os) \<in> entries S" using entriesI [of _ S s] lo s by blast
  have lev: "level_ok p ?q s (l, os)" using book_rep_level [OF rep s lo] by (simp add: p_def)
  have ok: "order_ok p s (qprice ?q l) i" and inew: "i \<notin> resting S" using fr by (auto simp: fresh_order_def p_def)
  have new: "i \<notin> set ps" if "(m, ps) \<in> entries S" for m ps using inew that by (auto simp: resting_iff)
  have r: "ring (pnext p) (pprev p) os" and ne: "os \<noteq> []" using lev by auto
  have lev': "level_ok p' ?q s (l, os @ [i])"
    using lev ring_insert [OF r new [OF E]] ok ne by (auto simp: p' order_ok_def)
  have levo: "level_ok p' ?q t (m, ps)" if "t \<in> {Side_BUY, Side_SELL}" "(m, ps) \<in> set (S t)" "(m, ps) \<noteq> (l, os)" for t m ps
  proof (rule level_ok_cong)
    show lv: "level_ok p ?q t (m, ps)" using book_rep_level [OF rep that(1,2)] by (simp add: p_def)
    then show "m \<in> live ?q" by simp
    have mE: "(m, ps) \<in> entries S" using entriesI [of _ S t] that by blast
    have dis: "set ps \<inter> set os = {}" using book_rep_unique [OF rep mE E] that(3) by blast
    fix x assume x: "x \<in> set ps"
    then have "x \<noteq> i" "x \<noteq> last os" "x \<noteq> hd os" using new [OF mE] dis ne by auto
    then show "pnext p' x = pnext p x \<and> pprev p' x = pprev p x \<and> x \<in> live p' \<and>
        o_side (pdata p' x) = o_side (pdata p x) \<and> o_price (pdata p' x) = o_price (pdata p x) \<and>
        o_client_id (pdata p' x) = o_client_id (pdata p x) \<and>
        o_client_order_id (pdata p' x) = o_client_order_id (pdata p x)"
      using lv x by (auto simp: p' order_ok_def)
  qed simp_all
  have d: "distinct (map fst (S s))" using side_ring_distinct [OF book_rep_side [OF rep s]] .
  note aset = append_to_set [OF d lo, of i]
  have notother: "(l, os) \<notin> set (S t)" if "t \<in> {Side_BUY, Side_SELL}" "t \<noteq> s" for t
    using book_rep_level [OF rep that(1), of l os] lev that(2) by (auto simp: p_def)
  have ent: "entries ?S = insert (l, os @ [i]) (entries S - {(l, os)})"
    using s aset notother by (auto simp: entries_def)
  have rest: "resting ?S = insert i (resting S)"
    unfolding resting_def ent using E by auto
  have levels: "level_ok p' ?q t e" if t: "t \<in> {Side_BUY, Side_SELL}" and e: "e \<in> set (?S t)" for t e
  proof (cases "t = s")
    case True
    then have "e = (l, os @ [i]) \<or> e \<in> set (S t) \<and> e \<noteq> (l, os)" using e aset by auto
    then show ?thesis using lev' levo [OF t, of "fst e" "snd e"] True unfolding prod.collapse by blast
  next
    case False
    then show ?thesis using levo [OF t, of "fst e" "snd e"] notother [OF t False] e unfolding prod.collapse by auto
  qed
  have "sides_ok swp ?b' ?S"
    unfolding sides_ok_def
  proof (intro ballI conjI)
    fix t assume t: "t \<in> {Side_BUY, Side_SELL}"
    show "level_ok (order_pool ?b') (orders_at_price_pool ?b') t e" if "e \<in> set (?S t)" for e
      using levels [OF t that] by simp
    show "side_ring (orders_at_price_pool ?b') (head_of swp t ?b') (map fst (?S t))"
      using book_rep_side [OF rep t] by (cases "t = s") auto
  qed
  moreover have "pairwise (apart ?q) (entries ?S)"
    unfolding ent
  proof -
    have pw: "pairwise (apart ?q) (entries S)" using rep by (simp add: book_rep_def)
    have "apart ?q (l, os @ [i]) e \<and> apart ?q e (l, os @ [i])" if "e \<in> entries S" "e \<noteq> (l, os)" for e
      using pairwiseD [OF pw E that(1)] that new by (cases e) auto
    moreover have "pairwise (apart ?q) (entries S - {(l, os)})" using pw by (rule pairwise_subset) auto
    ultimately show "pairwise (apart ?q) (insert (l, os @ [i]) (entries S - {(l, os)}))"
      by (auto simp: pairwise_insert)
  qed
  moreover have "fst ` entries ?S = fst ` entries S"
    unfolding ent using E by (force simp: image_iff)
  then have "slots_ok ?b' (entries ?S)" using rep by (simp add: book_rep_def slots_ok_def)
  moreover have "hash_ok ?b' (resting ?S)"
    unfolding rest by (rule hash_ok_insert) (use rep fr in \<open>auto simp: book_rep_def p_def p' fresh_order_def hash_upd_def\<close>)
  ultimately show ?thesis using rep p'(5) by (simp add: book_rep_def p_def)
qed


lemma addOrder_joins_rep:
  fixes b i
  defines "p \<equiv> order_pool b"
  assumes rep: "book_rep swp b S" and s: "s \<in> {Side_BUY, Side_SELL}"
    and lo: "(l, os) \<in> set (S s)" and fr: "fresh_order b S s (qprice (orders_at_price_pool b) l) i"
  shows "\<exists>b'. addOrder (Some i) b = Inr b' \<and> book_rep swp b' (S(s := append_to l i (S s))) \<and>
    pdata (order_pool b') = pdata p \<and> same_messages b b' \<and> live (order_pool b') = live p \<and>
    pool_size (order_pool b') = pool_size p"
proof -
  let ?q = "orders_at_price_pool b"
  have E: "(l, os) \<in> entries S" using entriesI [of _ S s] lo s by blast
  have lev: "level_ok p ?q s (l, os)" using book_rep_level [OF rep s lo] by (simp add: p_def)
  have ok: "order_ok p s (qprice ?q l) i" and inew: "i \<notin> resting S" using fr by (auto simp: fresh_order_def p_def)
  have new: "i \<notin> set os" using inew E by (auto simp: resting_iff)
  have r: "ring (pnext p) (pprev p) os" and ne: "os \<noteq> []" using lev by auto
  have inl: "x < pool_size p" if "x \<in> set os" for x
    using lev that live_bound [of x p] by (auto simp: order_ok_def)
  have pe: "order_pool b = p" by (simp add: p_def)
  have slot: "getOrdersAtPrice (o_price (pdata p i)) b = Some l"
    using book_rep_slot [OF rep E] ok by (simp add: order_ok_def)
  have hd: "hd os \<in> set os" "last os \<in> set os" using ne by auto
  have lq: "l < pool_size ?q" using lev live_bound [of l ?q] by simp
  have ip: "i < pool_size p" "in_hash (o_client_id (pdata p i)) (o_client_order_id (pdata p i))"
    using ok live_bound [of i p] by (auto simp: order_ok_def)
  have ne2: "i \<noteq> hd os" "i \<noteq> last os" using new hd by auto
  obtain p' where x: "addOrder (Some i) b = Inr (hash_upd (o_client_id (pdata p i)) (o_client_order_id (pdata p i))
      (Some i) (b\<lparr>order_pool := p'\<rparr>))"
    and p': "pnext p' = (pnext p)(last os := Some i, i := Some (hd os))"
      "pprev p' = (pprev p)(i := Some (last os), hd os := Some i)"
      "pdata p' = pdata p" "live p' = live p" "pool_inv p' \<longleftrightarrow> pool_inv p" "pool_size p' = pool_size p"
    using addOrder_joins [OF pe slot lq _ ip(1) inl [OF hd(1)] inl [OF hd(2)] ne2 ring_ends(2) [OF r] ip(2)]
      lev by auto
  have "book_rep swp (hash_upd (o_client_id (pdata p i)) (o_client_order_id (pdata p i)) (Some i)
      (b\<lparr>order_pool := p'\<rparr>)) (S(s := append_to l i (S s)))"
    unfolding p_def by (rule rep_joins [OF rep s lo fr]) (simp_all add: p' p_def)
  with x p' show ?thesis by (intro exI conjI) (assumption | simp add: same_messages_def hash_upd_def)+
qed

subsection \<open>A new level\<close>

text \<open>
  The walk of \<open>addOrderAtPrice\<close> goes once around the ring: its flag never becomes false, so
  it stops at the best level, whatever the prices are.
\<close>

lemma walk_around:
  assumes "l_side n \<in> {Side_BUY, Side_SELL}" "x < pool_size (orders_at_price_pool b)"
  shows "links (qnext (orders_at_price_pool b)) pr (ys @ [x]) \<Longrightarrow> x \<notin> set ys \<Longrightarrow> length ys < fuel \<Longrightarrow>
    \<forall>y \<in> set ys. y < pool_size (orders_at_price_pool b) \<Longrightarrow>
    walk fuel n (Some x) (Some (hd (ys @ [x]))) b = Inr (Some x)"
proof (induction ys arbitrary: fuel)
  case Nil
  then show ?case by (cases fuel) auto
next
  case (Cons y ys)
  then obtain f where f: "fuel = Suc f" by (cases fuel) auto
  let ?q = "orders_at_price_pool b"
  have y: "y < pool_size ?q" "y \<noteq> x" using Cons.prems by auto
  have nx: "qnext ?q y = Some (hd (ys @ [x]))" and l: "links (qnext ?q) pr (ys @ [x])"
    using Cons.prems(1) by (cases ys; simp)+
  have "hd (ys @ [x]) < pool_size ?q" using Cons.prems(4) assms(2) by (cases ys) auto
  with Cons.IH [OF l, of f] Cons.prems y nx assms(1) show ?case
    by (auto simp: f views shadowed_test_def)
qed

lemma find_target_best:
  assumes s: "l_side n \<in> {Side_BUY, Side_SELL}" and r: "ring (qnext (orders_at_price_pool b)) pr (x # zs)"
    and bd: "\<forall>y \<in> set (x # zs). y < pool_size (orders_at_price_pool b)"
  shows "find_target n (Some x) (obj (orders_at_price_pool b) x) b = Inr (Some x)"
proof -
  let ?q = "orders_at_price_pool b"
  have l: "links (qnext ?q) pr (x # zs @ [x])" and d: "distinct (x # zs)" using r by (auto simp: ring_Cons)
  have nx: "qnext ?q x = Some (hd (zs @ [x]))" and l2: "links (qnext ?q) pr (zs @ [x])"
    using l by (cases zs; simp)+
  have "set zs \<subseteq> {..<pool_size ?q}" using bd by auto
  then have "length zs \<le> pool_size ?q"
    using card_mono [of "{..<pool_size ?q}" "set zs"] distinct_card [of zs] d by simp
  then have w: "walk (Suc (pool_size ?q)) n (Some x) (Some (hd (zs @ [x]))) b = Inr (Some x)"
    using walk_around [OF s _ l2] bd d by (simp del: walk.simps)
  have "hd (zs @ [x]) < pool_size ?q" using bd by (cases zs) auto
  then have "shadowed_test n (Some (hd (zs @ [x]))) b = Inr ()" by (simp add: shadowed_test_def)
  with w show ?thesis by (simp add: find_target_def views nx del: walk.simps)
qed


text \<open>
  Where a new level goes: a buy level above the best one goes to the front, every other
  level to the end, next to the first one, whatever the prices in between are.
\<close>

definition set_head :: "Side \<Rightarrow> ptr \<Rightarrow> MEOrderBook \<Rightarrow> MEOrderBook" where
  "set_head s p b = (if s = Side_BUY then b\<lparr>asks_by_price := p\<rparr> else b\<lparr>bids_by_price := p\<rparr>)"

definition goes_first :: "MEOrdersAtPrice MemPool \<Rightarrow> Side \<Rightarrow> Price \<Rightarrow> nat list \<Rightarrow> bool" where
  "goes_first q s price ls \<longleftrightarrow> ls = [] \<or> s = Side_BUY \<and> sint price > sint (qprice q (hd ls))"

lemma link_after_ring:
  assumes "orders_at_price_pool b = q" "l < pool_size q" "a < pool_size q" "h < pool_size q" "l \<noteq> a" "l \<noteq> h"
    and "qnext q a = Some h"
  shows "\<exists>q'. link_after (Some l) (Some a) b = Inr (b\<lparr>orders_at_price_pool := q'\<rparr>) \<and>
    qnext q' = (qnext q)(a := Some l, l := Some h) \<and> qprev q' = (qprev q)(l := Some a, h := Some l) \<and>
    qfirst q' = qfirst q \<and> qside q' = qside q \<and> qprice q' = qprice q \<and> live q' = live q \<and> (pool_inv q' \<longleftrightarrow> pool_inv q)"
proof -
  define q1 where "q1 = set_obj h ((obj q h)\<lparr>prev_entry := Some l\<rparr>) q"
  define q2 where "q2 = set_obj l ((obj q1 l)\<lparr>next_entry := Some h\<rparr>) q1"
  define q3 where "q3 = set_obj a ((obj q2 a)\<lparr>next_entry := Some l\<rparr>) q2"
  define q4 where "q4 = set_obj l ((obj q3 l)\<lparr>prev_entry := Some a\<rparr>) q3"
  have v: "qnext q4 = (qnext q)(a := Some l, l := Some h)" "qprev q4 = (qprev q)(l := Some a, h := Some l)"
    "qfirst q4 = qfirst q" "qside q4 = qside q" "qprice q4 = qprice q" "live q4 = live q" "pool_inv q4 = pool_inv q"
    using assms(5,6) by (auto simp: q1_def q2_def q3_def q4_def views)
  have n1: "qnext q1 a = Some h" using assms(7) by (simp add: q1_def views)
  have sz: "pool_size q1 = pool_size q" "pool_size q2 = pool_size q" "pool_size q3 = pool_size q"
    by (simp_all add: q1_def q2_def q3_def)
  have "link_after (Some l) (Some a) b = Inr (b\<lparr>orders_at_price_pool := q4\<rparr>)"
    using assms n1 by (simp add: link_after_def views q1_def [symmetric] q2_def [symmetric] q3_def [symmetric]
        q4_def [symmetric] sz del: set_obj_simps(3))
  with v show ?thesis by blast
qed

lemma link_before_ring:
  assumes "orders_at_price_pool b = q" "l < pool_size q" "a < pool_size q" "h < pool_size q" "l \<noteq> a" "l \<noteq> h"
    and "qprev q h = Some a"
  shows "\<exists>q'. link_before (Some l) (Some h) b = Inr (b\<lparr>orders_at_price_pool := q'\<rparr>) \<and>
    qnext q' = (qnext q)(a := Some l, l := Some h) \<and> qprev q' = (qprev q)(l := Some a, h := Some l) \<and>
    qfirst q' = qfirst q \<and> qside q' = qside q \<and> qprice q' = qprice q \<and> live q' = live q \<and> (pool_inv q' \<longleftrightarrow> pool_inv q)"
proof -
  define q1 where "q1 = set_obj a ((obj q a)\<lparr>next_entry := Some l\<rparr>) q"
  define q2 where "q2 = set_obj l ((obj q1 l)\<lparr>prev_entry := Some a\<rparr>) q1"
  define q3 where "q3 = set_obj l ((obj q2 l)\<lparr>next_entry := Some h\<rparr>) q2"
  define q4 where "q4 = set_obj h ((obj q3 h)\<lparr>prev_entry := Some l\<rparr>) q3"
  have v: "qnext q4 = (qnext q)(a := Some l, l := Some h)" "qprev q4 = (qprev q)(l := Some a, h := Some l)"
    "qfirst q4 = qfirst q" "qside q4 = qside q" "qprice q4 = qprice q" "live q4 = live q" "pool_inv q4 = pool_inv q"
    using assms(5,6) by (auto simp: q1_def q2_def q3_def q4_def views)
  have n1: "qprev q1 h = Some a" using assms(7) by (simp add: q1_def views)
  have sz: "pool_size q1 = pool_size q" "pool_size q2 = pool_size q" "pool_size q3 = pool_size q"
    by (simp_all add: q1_def q2_def q3_def)
  have "link_before (Some l) (Some h) b = Inr (b\<lparr>orders_at_price_pool := q4\<rparr>)"
    using assms n1 by (simp add: link_before_def views q1_def [symmetric] q2_def [symmetric] q3_def [symmetric]
        q4_def [symmetric] sz del: set_obj_simps(3))
  with v show ?thesis by blast
qed

lemma addOrderAtPrice_empty:
  assumes q: "orders_at_price_pool b = q" "l < pool_size q" and s: "qside q l = s" "s \<in> {Side_BUY, Side_SELL}"
    and none: "head_of True s b = None"
  shows "\<exists>q'. addOrderAtPrice (Some l) b = Inr ((set_head s (Some l) (set_level_slot (qprice q l) (Some l) b))
      \<lparr>orders_at_price_pool := q'\<rparr>) \<and>
    qnext q' = (qnext q)(l := Some l) \<and> qprev q' = (qprev q)(l := Some l) \<and>
    qfirst q' = qfirst q \<and> qside q' = qside q \<and> qprice q' = qprice q \<and> live q' = live q \<and> (pool_inv q' \<longleftrightarrow> pool_inv q)"
proof -
  let ?q' = "set_obj l ((obj q l)\<lparr>prev_entry := Some l, next_entry := Some l\<rparr>) q"
  have "addOrderAtPrice (Some l) b = Inr ((set_head s (Some l) (set_level_slot (qprice q l) (Some l) b))
      \<lparr>orders_at_price_pool := ?q'\<rparr>)"
    using assms by (auto simp: addOrderAtPrice_def views Let_def set_head_def head_of_def set_level_slot_def)
  then show ?thesis by (intro exI [of _ ?q']) (simp add: views)
qed


lemma set_head_same [simp]:
  "s \<in> {Side_BUY, Side_SELL} \<Longrightarrow> set_head s (head_of True s b) (set_level_slot price p b) = set_level_slot price p b"
  by (auto simp: set_head_def head_of_def set_level_slot_def)

lemma addOrderAtPrice_places:
  assumes q: "orders_at_price_pool b = q" "l < pool_size q" and s: "qside q l = s" "s \<in> {Side_BUY, Side_SELL}"
    and sr: "side_ring q (head_of True s b) ls" and new: "l \<notin> set ls" "\<forall>m \<in> set ls. m < pool_size q"
    and price: "ls \<noteq> [] \<Longrightarrow> qprice q (hd ls) \<noteq> qprice q l"
  shows "\<exists>q' h'. addOrderAtPrice (Some l) b = Inr ((set_head s h' (set_level_slot (qprice q l) (Some l) b))
      \<lparr>orders_at_price_pool := q'\<rparr>) \<and>
    side_ring q' h' (if goes_first q s (qprice q l) ls then l # ls else ls @ [l]) \<and>
    (\<forall>m. m \<notin> insert l (set ls) \<longrightarrow> qnext q' m = qnext q m \<and> qprev q' m = qprev q m) \<and>
    qfirst q' = qfirst q \<and> qside q' = qside q \<and> qprice q' = qprice q \<and> live q' = live q \<and> (pool_inv q' \<longleftrightarrow> pool_inv q)"
proof (cases ls)
  case Nil
  then have none: "head_of True s b = None" using sr by (simp add: side_ring_def)
  obtain q' where x: "addOrderAtPrice (Some l) b = Inr ((set_head s (Some l) (set_level_slot (qprice q l) (Some l) b))
      \<lparr>orders_at_price_pool := q'\<rparr>)"
    and q': "qnext q' = (qnext q)(l := Some l)" "qprev q' = (qprev q)(l := Some l)"
    "qfirst q' = qfirst q" "qside q' = qside q" "qprice q' = qprice q" "live q' = live q" "pool_inv q' \<longleftrightarrow> pool_inv q"
    using addOrderAtPrice_empty [OF q s none] by blast
  have "side_ring q' (Some l) [l]" by (simp add: side_ring_def q')
  with x q' Nil show ?thesis by (intro exI [of _ q'] exI [of _ "Some l"]) (simp add: goes_first_def)
next
  case (Cons h zs)
  define b0 where "b0 = set_level_slot (qprice q l) (Some l) b"
  have b0: "orders_at_price_pool b0 = q" by (simp add: b0_def q)
  have head: "head_of True s b = Some h" and r: "ring (qnext q) (qprev q) (h # zs)"
    using sr Cons by (auto simp: side_ring_def)
  have same: "set_head s (Some h) b0 = b0" using set_head_same [OF s(2), of b] head by (simp add: b0_def)
  have hin: "h \<in> set ls" "last ls \<in> set ls" "l \<noteq> h" "l \<noteq> last ls" using Cons new by auto
  have bd: "h < pool_size q" "last ls < pool_size q" using new hin by auto
  have ends: "qnext q (last ls) = Some h" "qprev q h = Some (last ls)" using ring_ends [OF r] Cons by auto
  have best: "(if s = Side_BUY then asks_by_price b0 else bids_by_price b0) = Some h"
    using head s(2) by (auto simp: head_of_def b0_def set_level_slot_def)
  have ft: "find_target (obj q l) (Some h) (obj q h) b0 = Inr (Some h)"
    using find_target_best [of "obj q l" b0 "qprev q" h zs] r new(2) Cons s b0 by (simp add: views)
  have ne: "qprice q h \<noteq> qprice q l" using price Cons by simp
  have l0: "lvl (Some l) b = Inr (obj q l)" "lvl (Some h) b0 = Inr (obj q h)" using q bd b0 by auto
  have ring': "ring ((qnext q)(last ls := Some l, l := Some h)) ((qprev q)(l := Some (last ls), h := Some l)) (ls @ [l])"
    using ring_insert [of "qnext q" "qprev q" ls l] r Cons new(1) by simp
  have after: "add_after (obj q l) (obj q h) \<longleftrightarrow> (if s = Side_BUY then sint (qprice q l) < sint (qprice q h)
      else sint (qprice q l) > sint (qprice q h))"
    using s by (auto simp: add_after_def views)
  have unfold: "addOrderAtPrice (Some l) b = (if add_after (obj q l) (obj q h) then link_after (Some l) (Some (last ls)) b0
      else bnd (link_before (Some l) (Some h) b0) (\<lambda>b. Inr (if s = Side_BUY \<and> sint (qprice q l) > sint (qprice q h)
        then b\<lparr>asks_by_price := Some l\<rparr> else b)))"
    using s ft best l0 ends(2) after
    by (auto simp: addOrderAtPrice_def Let_def views b0_def [symmetric] cong: if_cong)
  show ?thesis
  proof (cases "add_after (obj q l) (obj q h)")
    case True
    obtain q' where x: "link_after (Some l) (Some (last ls)) b0 = Inr (b0\<lparr>orders_at_price_pool := q'\<rparr>)"
      and q': "qnext q' = (qnext q)(last ls := Some l, l := Some h)" "qprev q' = (qprev q)(l := Some (last ls), h := Some l)"
      "qfirst q' = qfirst q" "qside q' = qside q" "qprice q' = qprice q" "live q' = live q" "pool_inv q' \<longleftrightarrow> pool_inv q"
      using link_after_ring [OF b0 q(2) bd(2,1) hin(4,3) ends(1)] by blast
    have nf: "\<not> goes_first q s (qprice q l) ls" using True after Cons by (auto simp: goes_first_def split: if_splits)
    have "side_ring q' (Some h) (ls @ [l])" using ring' Cons by (simp add: side_ring_def q')
    with x q' True nf hin unfold s(2) show ?thesis
      by (intro exI [of _ q'] exI [of _ "Some h"]) (simp add: same b0_def [symmetric])
  next
    case False
    obtain q' where x: "link_before (Some l) (Some h) b0 = Inr (b0\<lparr>orders_at_price_pool := q'\<rparr>)"
      and q': "qnext q' = (qnext q)(last ls := Some l, l := Some h)" "qprev q' = (qprev q)(l := Some (last ls), h := Some l)"
      "qfirst q' = qfirst q" "qside q' = qside q" "qprice q' = qprice q" "live q' = live q" "pool_inv q' \<longleftrightarrow> pool_inv q"
      using link_before_ring [OF b0 q(2) bd(2,1) hin(4,3) ends(2)] by blast
    show ?thesis
    proof (cases "s = Side_BUY")
      case True
      then have gt: "sint (qprice q l) > sint (qprice q h)" using False after ne by (auto simp: not_less order.order_iff_strict)
      have "ring (qnext q') (qprev q') (l # ls)" using ring' by (simp add: ring_rotate1 q')
      then have "side_ring q' (Some l) (l # ls)" by (simp add: side_ring_def)
      moreover have "goes_first q s (qprice q l) ls" using True gt Cons by (simp add: goes_first_def)
      ultimately show ?thesis using x q' False True gt unfold hin
        by (intro exI [of _ q'] exI [of _ "Some l"]) (simp add: set_head_def b0_def [symmetric])
    next
      case sell: False
      have "side_ring q' (Some h) (ls @ [l])" using ring' Cons by (simp add: side_ring_def q')
      moreover have "\<not> goes_first q s (qprice q l) ls" using sell Cons by (simp add: goes_first_def)
      moreover have "set_head Side_SELL (Some h) b0 = b0" using same sell s(2) by auto
      ultimately show ?thesis using x q' False sell unfold hin s(2)
        by (intro exI [of _ q'] exI [of _ "Some h"]) (simp add: b0_def [symmetric])
    qed
  qed
qed


lemma rep_new_level:
  fixes b i
  defines "p \<equiv> order_pool b" and "q \<equiv> orders_at_price_pool b"
  assumes rep: "book_rep swp b S" and s: "s \<in> {Side_BUY, Side_SELL}"
    and fr: "fresh_order b S s price i" and none: "getOrdersAtPrice price b = None"
    and S': "S' = S(s := ls)" "set ls = insert (l, [i]) (set (S s))"
    and p': "pnext (order_pool b') = (pnext p)(i := Some i)" "pprev (order_pool b') = (pprev p)(i := Some i)"
      "pdata (order_pool b') = pdata p" "live (order_pool b') = live p" "pool_inv (order_pool b')"
    and l: "l \<notin> live q" and q': "orders_at_price_pool b' = q'" "live q' = insert l (live q)" "pool_inv q'"
      "qfirst q' = (qfirst q)(l := Some i)" "qside q' = (qside q)(l := s)" "qprice q' = (qprice q)(l := price)"
    and slot: "price_orders_at_price b' = (price_orders_at_price b)(unat (priceToIndex price) := Some l)"
    and hash: "cid_oid_to_order b' = cid_oid_to_order (hash_upd (o_client_id (pdata p i))
      (o_client_order_id (pdata p i)) (Some i) b)"
    and rings: "\<And>t. t \<in> {Side_BUY, Side_SELL} \<Longrightarrow> side_ring q' (head_of swp t b') (map fst (S' t))"
  shows "book_rep swp b' S'"
proof -
  have ok: "order_ok p s price i" and inew: "i \<notin> resting S" using fr by (auto simp: fresh_order_def p_def)
  have new: "i \<notin> set ps" "m \<in> live q" "m \<noteq> l" if mE: "(m, ps) \<in> entries S" for m ps
  proof -
    show "i \<notin> set ps" using inew mE by (auto simp: resting_iff)
    obtain t where t: "t \<in> {Side_BUY, Side_SELL}" "(m, ps) \<in> set (S t)" using mE by (auto simp: entries_def)
    show "m \<in> live q" using book_rep_level [OF rep t] by (simp add: q_def)
    with l show "m \<noteq> l" by blast
  qed
  have ent: "entries S' = insert (l, [i]) (entries S)"
    using s S' by (auto simp: entries_def)
  have rest: "resting S' = insert i (resting S)" unfolding resting_def ent by auto
  have old: "level_ok (order_pool b') q' t (m, ps)" if "t \<in> {Side_BUY, Side_SELL}" "(m, ps) \<in> set (S t)" for t m ps
  proof (rule level_ok_cong)
    show lv: "level_ok p q t (m, ps)" using book_rep_level [OF rep that] by (simp add: p_def q_def)
    have mE: "(m, ps) \<in> entries S" using entriesI [of _ S t] that by blast
    show "m \<in> live q'" "qside q' m = qside q m" "qfirst q' m = qfirst q m" "qprice q' m = qprice q m"
      using new [OF mE] by (simp_all add: q')
    fix x assume x: "x \<in> set ps"
    then have "x \<noteq> i" using new(1) [OF mE] by auto
    with lv x show "pnext (order_pool b') x = pnext p x \<and> pprev (order_pool b') x = pprev p x \<and>
        x \<in> live (order_pool b') \<and>
        o_side (pdata (order_pool b') x) = o_side (pdata p x) \<and> o_price (pdata (order_pool b') x) = o_price (pdata p x) \<and>
        o_client_id (pdata (order_pool b') x) = o_client_id (pdata p x) \<and>
        o_client_order_id (pdata (order_pool b') x) = o_client_order_id (pdata p x)"
      by (auto simp: p' order_ok_def)
  qed
  have mine: "level_ok (order_pool b') q' s (l, [i])"
    using ok by (auto simp: p' q' order_ok_def)
  have "sides_ok swp b' S'"
    unfolding sides_ok_def
  proof (intro ballI conjI)
    fix t assume t: "t \<in> {Side_BUY, Side_SELL}"
    show "side_ring (orders_at_price_pool b') (head_of swp t b') (map fst (S' t))" using rings [OF t] by (simp add: q'(1))
    fix e assume e: "e \<in> set (S' t)"
    show "level_ok (order_pool b') (orders_at_price_pool b') t e"
      using old [OF t, of "fst e" "snd e"] mine e S' unfolding q'(1) prod.collapse by (cases "t = s") auto
  qed
  moreover have idx: "lidx q' m = (if m = l then unat (priceToIndex price) else lidx q m)" for m
    by (simp add: lidx_def q')
  have free: "lidx q m \<noteq> unat (priceToIndex price)" if "(m, ps) \<in> entries S" for m ps
    using book_rep_slot_free [OF rep that none] by (simp add: q_def)
  have pw: "pairwise (apart q') (entries S')"
    unfolding ent pairwise_insert
  proof (intro conjI ballI impI allI)
    have "pairwise (apart q) (entries S)" using rep by (simp add: book_rep_def q_def)
    moreover have "apart q e f \<Longrightarrow> e \<in> entries S \<Longrightarrow> f \<in> entries S \<Longrightarrow> apart q' e f" for e f
      using new(3) [of "fst e" "snd e"] new(3) [of "fst f" "snd f"] by (cases e; cases f) (simp add: idx)
    ultimately show "pairwise (apart q') (entries S)" unfolding pairwise_def by blast
    fix e assume "e \<in> entries S \<and> e \<noteq> (l, [i])"
    then show "apart q' (l, [i]) e" "apart q' e (l, [i])"
      using new [of "fst e" "snd e"] free [of "fst e" "snd e"] by (cases e; force simp: idx)+
  qed
  moreover have "slots_ok b' (entries S')"
    unfolding slots_ok_def
  proof (intro allI impI)
    fix k m assume k: "k < ME_MAX_PRICE_LEVELS"
    have "price_orders_at_price b k = Some m \<longleftrightarrow> m \<in> fst ` entries S \<and> lidx q m = k"
      using rep k by (simp add: book_rep_def slots_ok_def q_def)
    moreover have "m \<in> fst ` entries S' \<longleftrightarrow> m = l \<or> m \<in> fst ` entries S" unfolding ent by auto
    moreover have "m \<in> fst ` entries S \<Longrightarrow> m \<noteq> l \<and> lidx q m \<noteq> unat (priceToIndex price)"
      using new(3) free by force
    ultimately show "price_orders_at_price b' k = Some m \<longleftrightarrow>
        m \<in> fst ` entries S' \<and> lidx (orders_at_price_pool b') m = k"
      unfolding slot q'(1) idx by auto
  qed
  moreover have "hash_ok b' (resting S')"
    unfolding rest by (rule hash_ok_insert) (use rep fr hash in \<open>auto simp: book_rep_def p_def p' fresh_order_def\<close>)
  ultimately show ?thesis using p'(5) q'(1,3) pw by (simp add: book_rep_def)
qed


definition place :: "MEOrdersAtPrice MemPool \<Rightarrow> Side \<Rightarrow> Price \<Rightarrow> nat \<times> nat list \<Rightarrow> (nat \<times> nat list) list \<Rightarrow>
    (nat \<times> nat list) list" where
  "place q s price e ls = (if goes_first q s price (map fst ls) then e # ls else ls @ [e])"

lemma head_of_set_head:
  "s \<in> {Side_BUY, Side_SELL} \<Longrightarrow> t \<in> {Side_BUY, Side_SELL} \<Longrightarrow>
   head_of True t (set_head s h b) = (if t = s then h else head_of True t b)"
  by (auto simp: head_of_def set_head_def)

lemma set_head_frame [simp]:
  "order_pool (set_head s h b) = order_pool b" "orders_at_price_pool (set_head s h b) = orders_at_price_pool b"
  "price_orders_at_price (set_head s h b) = price_orders_at_price b"
  "cid_oid_to_order (set_head s h b) = cid_oid_to_order b"
  by (simp_all add: set_head_def)

lemma addOrder_new_rep:
  fixes b i
  defines "p \<equiv> order_pool b" and "q \<equiv> orders_at_price_pool b"
  assumes rep: "book_rep True b S" and s: "s \<in> {Side_BUY, Side_SELL}"
    and fr: "fresh_order b S s price i" and none: "getOrdersAtPrice price b = None"
    and room: "Suc (card (live q)) < pool_size q"
  shows "\<exists>b' l. addOrder (Some i) b = Inr b' \<and> l \<notin> live q \<and>
    book_rep True b' (S(s := place q s price (l, [i]) (S s))) \<and>
    pdata (order_pool b') = pdata p \<and> same_messages b b'"
proof -
  have ok: "order_ok p s price i" and inew: "i \<notin> resting S" using fr by (auto simp: fresh_order_def p_def)
  have ip: "i < pool_size p" "o_price (pdata p i) = price" "o_side (pdata p i) = s"
    and ih: "in_hash (o_client_id (pdata p i)) (o_client_order_id (pdata p i))"
    using ok live_bound [of i p] by (auto simp: order_ok_def)
  have invs: "pool_inv p" "pool_inv q" using rep by (auto simp: book_rep_def p_def q_def)
  define p1 where "p1 = set_obj i ((obj p i)\<lparr>prev_order := Some i, next_order := Some i\<rparr>) p"
  have p1: "pnext p1 = (pnext p)(i := Some i)" "pprev p1 = (pprev p)(i := Some i)" "pdata p1 = pdata p"
    "live p1 = live p" "pool_inv p1"
    using invs by (auto simp: p1_def views)
  define v where "v = \<lparr>l_side = s, l_price = price, first_me_order = Some i, prev_entry = None, next_entry = None\<rparr>"
  obtain l q1 where al: "allocate v q = Inr (l, q1)"
    using mem_pool.alloc_iff [OF invs(2), of v] room by auto
  note av = allocate_views(2) [OF al] note alv = allocate_live [OF al]
  have q1: "pool_inv q1" "l < pool_size q1"
    using allocate_Inr(5) [OF al] alv(2) live_bound [of l q1] by auto
  define b2 where "b2 = b\<lparr>order_pool := p1, orders_at_price_pool := q1\<rparr>"
  have b2 [simp]: "order_pool b2 = p1" "orders_at_price_pool b2 = q1" "cid_oid_to_order b2 = cid_oid_to_order b"
    "price_orders_at_price b2 = price_orders_at_price b" "head_of True t b2 = head_of True t b" for t
    by (simp_all add: b2_def head_of_def)
  have ql: "qside q1 l = s" "qprice q1 l = price" "qfirst q1 l = Some i" using av by (simp_all add: v_def)
  have ent: "m \<in> live q" "m \<noteq> l" "m < pool_size q1" "lidx q m \<noteq> unat (priceToIndex price)"
    if mt: "t \<in> {Side_BUY, Side_SELL}" "m \<in> set (map fst (S t))" for m t
  proof -
    obtain ps where e: "(m, ps) \<in> set (S t)" using mt(2) by auto
    show m: "m \<in> live q" using book_rep_level [OF rep mt(1) e] by (simp add: q_def)
    with alv(1) show "m \<noteq> l" by blast
    show "m < pool_size q1" using m live_bound [of m q] alv(3) by simp
    have "(m, ps) \<in> entries S" using entriesI [of "(m, ps)" S t] e mt(1) by blast
    then show "lidx q m \<noteq> unat (priceToIndex price)"
      using book_rep_slot_free [OF rep _ none] by (simp add: q_def)
  qed
  have keep: "side_ring q1 (head_of True t b) (map fst (S t))" if t: "t \<in> {Side_BUY, Side_SELL}" for t
    by (rule side_ring_other [OF book_rep_side [OF rep t]]) (use av ent [OF t] in \<open>auto simp: q_def\<close>)
  have other: "set (map fst (S t)) \<inter> set (map fst (S s)) = {}" if "t \<in> {Side_BUY, Side_SELL}" "t \<noteq> s" for t
    using book_rep_level [OF rep that(1)] book_rep_level [OF rep s] that(2) by fastforce
  have pne: "qprice q1 (hd (map fst (S s))) \<noteq> qprice q1 l" if ne: "map fst (S s) \<noteq> []"
  proof -
    have h: "hd (map fst (S s)) \<in> set (map fst (S s))" using ne by (rule hd_in_set)
    have "qprice q1 (hd (map fst (S s))) = qprice q (hd (map fst (S s)))" using av ent(2) [OF s h] by simp
    then show ?thesis using ent(4) [OF s h] unfolding ql(2) by (auto simp: lidx_def)
  qed
  obtain q' h' where x: "addOrderAtPrice (Some l) b2 = Inr ((set_head s h' (set_level_slot price (Some l) b2))
      \<lparr>orders_at_price_pool := q'\<rparr>)"
    and sr: "side_ring q' h' (if goes_first q1 s price (map fst (S s)) then l # map fst (S s) else map fst (S s) @ [l])"
    and fq: "\<And>m. m \<notin> insert l (set (map fst (S s))) \<Longrightarrow> qnext q' m = qnext q1 m \<and> qprev q' m = qprev q1 m"
    and q': "qfirst q' = qfirst q1" "qside q' = qside q1" "qprice q' = qprice q1" "live q' = live q1" "pool_inv q' \<longleftrightarrow> pool_inv q1"
    using addOrderAtPrice_places [OF b2(2) q1(2) ql(1) s, of "map fst (S s)"] keep [OF s] ent(2,3) [OF s] pne ql(2)
    by auto
  let ?b3 = "(set_head s h' (set_level_slot price (Some l) b2))\<lparr>orders_at_price_pool := q'\<rparr>"
  let ?b' = "hash_upd (o_client_id (pdata p i)) (o_client_order_id (pdata p i)) (Some i) ?b3"
  have run: "addOrder (Some i) b = Inr ?b'"
    using ip ih none al x
    by (simp add: addOrder_def views p_def [symmetric] q_def [symmetric] Let_def p1_def [symmetric] v_def [symmetric]
        b2_def [symmetric] hash_store_def)
  have gf: "goes_first q1 s price (map fst (S s)) = goes_first q s price (map fst (S s))"
    using av ent(2) [OF s] by (cases "S s") (auto simp: goes_first_def)
  have "book_rep True ?b' (S(s := place q s price (l, [i]) (S s)))"
  proof (rule rep_new_level [OF rep s fr none refl])
    show "set (place q s price (l, [i]) (S s)) = insert (l, [i]) (set (S s))" by (auto simp: place_def)
    show "side_ring q' (head_of True t ?b') (map fst ((S(s := place q s price (l, [i]) (S s))) t))"
      if t: "t \<in> {Side_BUY, Side_SELL}" for t
    proof (cases "t = s")
      case True
      then show ?thesis using sr gf s by (auto simp: head_of_set_head place_def)
    next
      case False
      have "side_ring q' (head_of True t b) (map fst (S t))"
        by (rule side_ring_other [OF keep [OF t]]) (use fq other [OF t False] ent(2) [OF t] in blast)
      then show ?thesis using False s t by (simp add: head_of_set_head)
    qed
  qed (use p1 q' q1 av alv in \<open>simp_all add: hash_upd_def set_level_slot_def p_def [symmetric] q_def [symmetric] v_def\<close>)
  with run alv(1) p1 show ?thesis
    by (intro exI [of _ ?b'] exI [of _ l])
      (simp add: same_messages_def hash_upd_def set_head_def set_level_slot_def b2_def)
qed

end
