(* ===== verification/Book_Add_Properties.thy ===== *)
theory Book_Add_Properties
  imports Book_Add
begin

text \<open>
  Properties of insertion: \<open>addOrder\<close> on a level that exists and on one that does not, the
  request \<open>add\<close> around it, and what the two conventions for the head pointers do to each
  other.
\<close>

subsection \<open>A fresh order\<close>

lemma allocate_order_rep:
  assumes rep: "book_rep swp b S" and al: "allocate v (order_pool b) = Inr (i, p')"
  shows "book_rep swp (b\<lparr>order_pool := p'\<rparr>) S" "i \<notin> resting S" "i \<in> live p'" "pdata p' i = strip v"
    "j \<noteq> i \<Longrightarrow> pdata p' j = pdata (order_pool b) j"
proof -
  let ?p = "order_pool b" and ?b' = "b\<lparr>order_pool := p'\<rparr>"
  note av = allocate_views(1) [OF al] note alv = allocate_live [OF al]
  have live: "x \<in> live ?p" if e: "(l, os) \<in> entries S" "x \<in> set os" for l os x
  proof -
    obtain t where t: "t \<in> {Side_BUY, Side_SELL}" "(l, os) \<in> set (S t)" using e(1) by (auto simp: entries_def)
    show ?thesis using book_rep_level [OF rep t] e(2) by (simp add: order_ok_def)
  qed
  have ne: "x \<noteq> i" if "x \<in> resting S" for x
    using that live alv(1) by (auto simp: resting_iff)
  then show "i \<notin> resting S" by blast
  show "i \<in> live p'" "pdata p' i = strip v" "j \<noteq> i \<Longrightarrow> pdata p' j = pdata ?p j" using alv(2) av by auto
  have "sides_ok swp ?b' S"
    unfolding sides_ok_def
  proof (intro ballI conjI)
    fix t assume t: "t \<in> {Side_BUY, Side_SELL}"
    show "side_ring (orders_at_price_pool ?b') (head_of swp t ?b') (map fst (S t))" using book_rep_side [OF rep t] by simp
    fix e assume e: "e \<in> set (S t)"
    obtain l os where eq: "e = (l, os)" by (cases e)
    have lv: "level_ok ?p (orders_at_price_pool b) t (l, os)" using book_rep_level [OF rep t] e eq by blast
    have "level_ok p' (orders_at_price_pool b) t (l, os)"
    proof (rule level_ok_cong [OF lv])
      show "l \<in> live (orders_at_price_pool b)" using lv by simp
      fix x assume x: "x \<in> set os"
      have "x \<in> live ?p" using lv x by (simp add: order_ok_def)
      moreover have "x \<noteq> i" using calculation alv(1) by blast
      ultimately show "pnext p' x = pnext ?p x \<and> pprev p' x = pprev ?p x \<and> x \<in> live p' \<and>
          o_side (pdata p' x) = o_side (pdata ?p x) \<and> o_price (pdata p' x) = o_price (pdata ?p x) \<and>
          o_client_id (pdata p' x) = o_client_id (pdata ?p x) \<and>
          o_client_order_id (pdata p' x) = o_client_order_id (pdata ?p x)"
        using av alv(2) by simp
    qed simp_all
    then show "level_ok (order_pool ?b') (orders_at_price_pool ?b') t e" by (simp add: eq)
  qed
  moreover have "hash_ok ?b' (resting S)"
    using rep ne av unfolding book_rep_def hash_ok_def by auto
  ultimately show "book_rep swp ?b' S"
    using rep allocate_Inr(5) [OF al] by (simp add: book_rep_def slots_ok_def)
qed

lemma getNextPriority_level:
  assumes rep: "book_rep swp b S" and E: "(l, os) \<in> entries S" and price: "qprice (orders_at_price_pool b) l = price"
  shows "getNextPriority price b = Inr (o_priority (pdata (order_pool b) (last os)))"
proof -
  obtain t where t: "t \<in> {Side_BUY, Side_SELL}" "(l, os) \<in> set (S t)" using E by (auto simp: entries_def)
  have lev: "level_ok (order_pool b) (orders_at_price_pool b) t (l, os)" using book_rep_level [OF rep t] .
  then have r: "ring (pnext (order_pool b)) (pprev (order_pool b)) os" and ne: "os \<noteq> []" by auto
  have inl: "x < pool_size (order_pool b)" if "x \<in> set os" for x
    using lev that live_bound [of x "order_pool b"] by (auto simp: order_ok_def)
  have lb: "l < pool_size (orders_at_price_pool b)" using lev live_bound [of l "orders_at_price_pool b"] by simp
  show ?thesis
    using book_rep_slot [OF rep E price] lb lev inl [OF hd_in_set [OF ne]] inl [OF last_in_set [OF ne]] ring_ends(2) [OF r]
    by (simp add: getNextPriority_def views)
qed

definition accepted_response :: "ClientId \<Rightarrow> OrderId \<Rightarrow> TickerId \<Rightarrow> Side \<Rightarrow> Price \<Rightarrow> Quantity \<Rightarrow> OrderId \<Rightarrow> MEClientResponse" where
  "accepted_response c k tk s price qty m = mkResponse Resp_ACCEPTED c tk k m s price 0 qty"

text \<open>
  What \<open>add\<close> needs of the matcher it calls: on the book with the next order id drawn, it
  returns a quantity and a book, and sends some messages.
\<close>

definition matcher_gives :: "(MEOrderBook \<Rightarrow> EngineIO \<Rightarrow> (Quantity \<times> MEOrderBook \<times> EngineIO) res) \<Rightarrow> MEOrderBook \<Rightarrow>
    Quantity \<Rightarrow> MEOrderBook \<Rightarrow> MEClientResponse list \<Rightarrow> MEMarketUpdate list \<Rightarrow> bool" where
  "matcher_gives f b left b2 rs us \<longleftrightarrow>
     (\<forall>io. \<exists>io'. f (snd (generateNewMarketOrderId b)) io = Inr (left, b2, io') \<and> sent_messages rs us io io')"

definition matcher_gives_after :: "MEClientResponse \<Rightarrow> EngineIO \<Rightarrow>
    (MEOrderBook \<Rightarrow> EngineIO \<Rightarrow> (Quantity \<times> MEOrderBook \<times> EngineIO) res) \<Rightarrow> MEOrderBook \<Rightarrow>
    Quantity \<Rightarrow> MEOrderBook \<Rightarrow> MEClientResponse list \<Rightarrow> MEMarketUpdate list \<Rightarrow> bool" where
  "matcher_gives_after r io f b left b2 rs us \<longleftrightarrow> (\<forall>io1. sendClientResponse r io = Inr io1 \<longrightarrow>
     (\<exists>io'. f (snd (generateNewMarketOrderId b)) io1 = Inr (left, b2, io') \<and> sent_messages rs us io1 io'))"

lemma matcher_gives_after: "matcher_gives f b left b2 rs us \<Longrightarrow> matcher_gives_after r io f b left b2 rs us"
  by (simp add: matcher_gives_def matcher_gives_after_def)

lemma resting_append:
  assumes rep: "book_rep swp b S" and s: "s \<in> {Side_BUY, Side_SELL}" and lo: "(l, os) \<in> set (S s)"
  shows "resting (S(s := append_to l i (S s))) = insert i (resting S)"
proof -
  have u: "resting X = (\<Union>t \<in> {Side_BUY, Side_SELL}. \<Union>e \<in> set (X t). set (snd e))" for X
    by (auto simp: resting_def entries_def)
  have "(\<Union>e \<in> set (append_to l i (S s)). set (snd e)) = insert i (\<Union>e \<in> set (S s). set (snd e))"
    unfolding append_to_set [OF side_ring_distinct [OF book_rep_side [OF rep s]] lo] using lo by force
  with s show ?thesis unfolding u by auto
qed

lemma add_joins_rep:
  assumes m: "matcher_gives_after (accepted_response c k tk s price qty (next_market_order_id b)) io f b left b2 rs us"
    and left: "left \<noteq> 0"
    and rep: "book_rep swp b2 S" and s: "s \<in> {Side_BUY, Side_SELL}"
    and lo: "(l, os) \<in> set (S s)" "qprice (orders_at_price_pool b2) l = price"
    and key: "in_hash c k" "\<forall>j \<in> resting S. (o_client_id (pdata (order_pool b2) j), o_client_order_id (pdata (order_pool b2) j)) \<noteq> (c, k)"
    and room: "Suc (card (live (order_pool b2))) < pool_size (order_pool b2)"
  shows "\<exists>b' io' i. add f c k tk s price qty b io = Inr (b', io') \<and> i \<notin> resting S \<and>
    book_rep swp b' (S(s := append_to l i (S s))) \<and>
    pdata (order_pool b') = (pdata (order_pool b2))(i := \<lparr>o_ticker_id = tk, o_client_id = c, o_client_order_id = k,
      o_market_order_id = next_market_order_id b, o_side = s, o_price = price, o_quantity = left,
      o_priority = o_priority (pdata (order_pool b2) (last os)), prev_order = None, next_order = None\<rparr>) \<and>
    sent_messages ([accepted_response c k tk s price qty (next_market_order_id b)] @ rs)
      (us @ [mkUpdate Upd_ADD (next_market_order_id b) tk s price left (o_priority (pdata (order_pool b2) (last os)))]) io io' \<and>
    accounted b2 S b' (S(s := append_to l i (S s)))"
proof -
  let ?m = "next_market_order_id b"
  define b1 where "b1 = snd (generateNewMarketOrderId b)"
  let ?pr = "o_priority (pdata (order_pool b2) (last os))"
  let ?v = "\<lparr>o_ticker_id = tk, o_client_id = c, o_client_order_id = k, o_market_order_id = ?m, o_side = s, o_price = price,
    o_quantity = left, o_priority = ?pr, prev_order = None, next_order = None\<rparr>"
  let ?r = "accepted_response c k tk s price qty ?m"
  let ?u = "mkUpdate Upd_ADD ?m tk s price left ?pr"
  have gen: "generateNewMarketOrderId b = (?m, b1)" by (simp add: generateNewMarketOrderId_def b1_def)
  have E: "(l, os) \<in> entries S" using entriesI [of _ S s] lo(1) s by blast
  note prio = getNextPriority_level [OF rep E lo(2)]
  have "pool_inv (order_pool b2)" using rep by (simp add: book_rep_def)
  then obtain i p' where al: "allocate ?v (order_pool b2) = Inr (i, p')"
    using mem_pool.alloc_iff [of "order_pool b2" ?v] room by auto
  note rep' = allocate_order_rep [OF rep al]
  let ?b3 = "b2\<lparr>order_pool := p'\<rparr>"
  have data: "pdata p' = (pdata (order_pool b2))(i := ?v)" using rep'(4,5) by (auto simp: fun_eq_iff strip_def)
  have "fresh_order ?b3 S s (qprice (orders_at_price_pool ?b3) l) i"
    using rep'(2,3) key lo(2) by (auto simp: fresh_order_def order_ok_def data)
  from addOrder_joins_rep [OF rep'(1) s lo(1) this]
  obtain b' where b': "addOrder (Some i) ?b3 = Inr b'" "book_rep swp b' (S(s := append_to l i (S s)))"
    "pdata (order_pool b') = pdata p'" "same_messages ?b3 b'" "live (order_pool b') = live p'"
    "pool_size (order_pool b') = pool_size p'"
    by auto
  have "accounted b2 S b' (S(s := append_to l i (S s)))"
    using b'(4-6) allocate_live(1-3) [OF al] rep'(2) resting_append [OF rep s lo(1), of i]
    by (auto simp: accounted_def same_messages_def)
  moreover obtain io1 where io1: "sendClientResponse ?r io = Inr io1" "sent_messages [?r] [] io io1"
    using sendClientResponse_sends by metis
  obtain io2 where io2: "f b1 io1 = Inr (left, b2, io2)" "sent_messages rs us io1 io2"
    using m io1(1) by (auto simp: matcher_gives_after_def b1_def)
  obtain io3 where io3: "sendMarketUpdate ?u io2 = Inr io3" "sent_messages [] [?u] io2 io3"
    using sendMarketUpdate_sends by metis
  moreover have "add f c k tk s price qty b io = Inr (b', io3)"
    using gen io1(1) io2(1) left prio al b'(1) io3(1) by (simp add: add_def accepted_response_def)
  moreover have "sent_messages ([?r] @ rs) (us @ [?u]) io io3"
    using sent_messages_trans [OF sent_messages_trans [OF io1(2) io2(2)] io3(2)] by simp
  ultimately show ?thesis using b' rep'(2) data by (intro exI conjI) auto
qed

subsection \<open>Properties of adding\<close>

text \<open>
  C8: an order that is added at a price its side already has, and that the matcher leaves
  with a quantity, rests at the end of that level: the book stays well formed, everybody
  else keeps place and data, and the messages are ACCEPTED, those of the match, and ADD. The
  priority it gets is the priority of the order before it, not the next one.
\<close>

theorem add_joins_level:
  assumes "matcher_gives f b left b2 rs us" "left \<noteq> 0"
    and "book_rep swp b2 S" "s \<in> {Side_BUY, Side_SELL}"
    and "(l, os) \<in> set (S s)" "qprice (orders_at_price_pool b2) l = price"
    and "in_hash c k" "\<forall>j \<in> resting S. (o_client_id (pdata (order_pool b2) j), o_client_order_id (pdata (order_pool b2) j)) \<noteq> (c, k)"
    and "Suc (card (live (order_pool b2))) < pool_size (order_pool b2)"
  shows "let m = next_market_order_id b; prio = o_priority (pdata (order_pool b2) (last os)) in
    \<exists>b' io' i. add f c k tk s price qty b io = Inr (b', io') \<and> i \<notin> resting S \<and>
      book_rep swp b' (S(s := append_to l i (S s))) \<and>
      pdata (order_pool b') = (pdata (order_pool b2))(i := \<lparr>o_ticker_id = tk, o_client_id = c, o_client_order_id = k,
        o_market_order_id = m, o_side = s, o_price = price, o_quantity = left, o_priority = prio,
        prev_order = None, next_order = None\<rparr>) \<and>
      sent_messages ([accepted_response c k tk s price qty m] @ rs)
        (us @ [mkUpdate Upd_ADD m tk s price left prio]) io io'"
  unfolding Let_def using add_joins_rep [OF matcher_gives_after [OF assms(1)] assms(2-9)] by blast

text \<open>The matcher with the seven arguments of the request, and the one that never fills anything.\<close>

definition matcher7 :: "ClientId \<Rightarrow> OrderId \<Rightarrow> TickerId \<Rightarrow> Side \<Rightarrow> Price \<Rightarrow> Quantity \<Rightarrow> OrderId \<Rightarrow>
    MEOrderBook \<Rightarrow> EngineIO \<Rightarrow> (Quantity \<times> MEOrderBook \<times> EngineIO) res" where
  "matcher7 c k tk s price qty m = checkForMatch c k tk s price qty m"

lemma pool_of_size [simp]: "pool_size (pool_of xs d) = length xs + 2"
  by (simp add: pool_of_def)

lemma example_left:
  "matcher_gives (matcher7 2 9 0 Side_BUY 99 6 1) example_book 6 (snd (generateNewMarketOrderId example_book)) [] []"
proof -
  let ?b = "snd (generateNewMarketOrderId example_book)"
  have a: "asks_by_price ?b = Some 0" "orders_at_price_pool ?b = orders_at_price_pool example_book"
    "order_pool ?b = order_pool example_book"
    by (simp_all add: generateNewMarketOrderId_def example_book_def)
  have "checkForMatch 2 9 0 Side_BUY 99 6 1 ?b io = Inr (6, ?b, io)" for io
    by (simp add: checkForMatch_def match_loop.simps [of _ _ _ _ _ _ 6] opposite_best_def a lvl_def ord_def
        no_cross_def example_level_def example_order_def)
  then show ?thesis by (auto simp: matcher_gives_def matcher7_def)
qed

text \<open>What the example book, with an order id drawn, offers to a new order of client 2 at price 99.\<close>

lemma example_add:
  "book_rep False (snd (generateNewMarketOrderId example_book)) example_shape" "Side_BUY \<in> {Side_BUY, Side_SELL}"
  "(2, [3]) \<in> set (example_shape Side_BUY)"
  "qprice (orders_at_price_pool (snd (generateNewMarketOrderId example_book))) 2 = 99" "in_hash 2 9"
  "\<forall>j \<in> resting example_shape. (o_client_id (pdata (order_pool (snd (generateNewMarketOrderId example_book))) j),
     o_client_order_id (pdata (order_pool (snd (generateNewMarketOrderId example_book))) j)) \<noteq> (2, 9)"
  "Suc (card (live (order_pool (snd (generateNewMarketOrderId example_book))))) <
     pool_size (order_pool (snd (generateNewMarketOrderId example_book)))"
proof -
  let ?b2 = "snd (generateNewMarketOrderId example_book)"
  have same: "order_pool ?b2 = order_pool example_book" "orders_at_price_pool ?b2 = orders_at_price_pool example_book"
    by (simp_all add: generateNewMarketOrderId_def)
  show "book_rep False ?b2 example_shape"
    by (rule book_rep_data [OF example_rep]) (simp_all add: generateNewMarketOrderId_def del: example_pools(1,2), simp)
  show "(2, [3]) \<in> set (example_shape Side_BUY)" "Side_BUY \<in> {Side_BUY, Side_SELL}"
    by (simp_all add: example_shape_def)
  show "qprice (orders_at_price_pool ?b2) 2 = 99" unfolding same by (simp add: qprice_def example_level_def)
  show "in_hash 2 9" by (simp add: in_hash_def ME_MAX_NUM_CLIENTS_def ME_MAX_ORDER_IDS_def)
  show "\<forall>j \<in> resting example_shape. (o_client_id (pdata (order_pool ?b2) j), o_client_order_id (pdata (order_pool ?b2) j)) \<noteq> (2, 9)"
    unfolding same by (simp add: example_resting pdata_def strip_def example_order_def)
  show "Suc (card (live (order_pool ?b2))) < pool_size (order_pool ?b2)"
    unfolding same by (simp add: pool_of_def [of _ defaultOrder] live_def)
qed

theorem add_joins_level_witness:
  "\<exists>b' io' i. add (matcher7 2 9 0 Side_BUY 99 6 1) 2 9 0 Side_BUY 99 6 example_book example_io = Inr (b', io') \<and>
    i \<notin> resting example_shape \<and>
    book_rep False b' (example_shape(Side_BUY := append_to 2 i (example_shape Side_BUY))) \<and>
    o_quantity (pdata (order_pool b') i) = 6 \<and> o_priority (pdata (order_pool b') i) = 1"
proof -
  have "o_priority (pdata (order_pool (snd (generateNewMarketOrderId example_book))) 3) = 1"
    by (simp add: generateNewMarketOrderId_def pdata_def strip_def example_order_def)
  then show ?thesis
    using add_joins_level [OF example_left _ example_add, of 0 6 example_io] by (auto simp: Let_def)
qed

text \<open>
  The first order at a price can never be added. When the book holds no level for the
  price and quantity is left after matching, \<open>add\<close> ends in a null dereference, in
  \<open>getNextPriority\<close>, after ACCEPTED was sent: \<open>addOrder\<close> and its new level are never
  reached from there.
\<close>

lemma add_first_at_price_crashes:
  assumes "matcher_gives f b left b2 rs us" "left \<noteq> 0" "getOrdersAtPrice price b2 = None"
  shows "add f c k tk s price qty b io = Inl Null_deref"
proof -
  let ?r = "accepted_response c k tk s price qty (next_market_order_id b)"
  define b1 where "b1 = snd (generateNewMarketOrderId b)"
  have gen: "generateNewMarketOrderId b = (next_market_order_id b, b1)"
    by (simp add: generateNewMarketOrderId_def b1_def)
  obtain io1 where io1: "sendClientResponse ?r io = Inr io1" using sendClientResponse_sends by metis
  obtain io2 where "f b1 io1 = Inr (left, b2, io2)" using assms(1) by (auto simp: matcher_gives_def b1_def)
  with gen io1 assms(2,3) show ?thesis by (simp add: add_def accepted_response_def getNextPriority_def)
qed

definition new_book :: MEOrderBook where
  "new_book = newMEOrderBook (\<lambda>_ _. None) (\<lambda>_. None) 0"

subsection \<open>Where levels go, and which side finds them\<close>

text \<open>
  C10: inserting an order at a new price, on a book whose heads follow \<open>addOrderAtPrice\<close>,
  always succeeds while the level pool has room and keeps the book well formed; the new
  level is put in front of its side only when it is the first there or a buy level above the
  best one. Any other level goes to the end, whatever the prices in between, and a sell
  level never becomes the best one, so the levels are not kept in price order.
\<close>

theorem addOrder_opens_level:
  assumes "book_rep True b S" "s \<in> {Side_BUY, Side_SELL}"
    and "fresh_order b S s price i" "getOrdersAtPrice price b = None"
    and "Suc (card (live (orders_at_price_pool b))) < pool_size (orders_at_price_pool b)"
  shows "\<exists>b' l. addOrder (Some i) b = Inr b' \<and> l \<notin> live (orders_at_price_pool b) \<and>
    book_rep True b' (S(s :=
      (if S s = [] \<or> s = Side_BUY \<and> sint price > sint (qprice (orders_at_price_pool b) (fst (hd (S s))))
       then (l, [i]) # S s else S s @ [(l, [i])]))) \<and>
    pdata (order_pool b') = pdata (order_pool b)"
proof -
  have eq: "place (orders_at_price_pool b) s price e (S s) =
      (if S s = [] \<or> s = Side_BUY \<and> sint price > sint (qprice (orders_at_price_pool b) (fst (hd (S s))))
       then e # S s else S s @ [e])" for e
    by (cases "S s") (auto simp: place_def goes_first_def)
  show ?thesis using addOrder_new_rep [OF assms] unfolding eq by blast
qed

definition first_buy :: MEOrder where
  "first_buy = defaultOrder\<lparr>o_client_id := 1, o_client_order_id := 5, o_side := Side_BUY, o_price := 100, o_quantity := 10\<rparr>"

lemma new_book_simps:
  "order_pool new_book = MemPool ME_MAX_ORDER_IDS defaultOrder"
  "orders_at_price_pool new_book = MemPool ME_MAX_PRICE_LEVELS defaultLevel"
  "getOrdersAtPrice price new_book = None"
  by (simp_all add: new_book_def newMEOrderBook_def getOrdersAtPrice_def)

lemma live_new_pool: "live (MemPool n d) = {}" "pool_size (MemPool n d) = n"
  by (simp_all add: live_def MemPool_def)

lemma new_book_order:
  obtains i p' where "allocate first_buy (order_pool new_book) = Inr (i, p')"
    "book_rep True (new_book\<lparr>order_pool := p'\<rparr>) (\<lambda>_. [])"
    "fresh_order (new_book\<lparr>order_pool := p'\<rparr>) (\<lambda>_. []) Side_BUY 100 i"
proof -
  have rep: "book_rep True new_book (\<lambda>_. [])" unfolding new_book_def by (rule book_rep_new)
  have "pool_inv (order_pool new_book)" using rep by (simp add: book_rep_def)
  moreover have "Suc (card (live (order_pool new_book))) < pool_size (order_pool new_book)"
    by (simp add: new_book_simps live_new_pool ME_MAX_ORDER_IDS_def)
  ultimately obtain i p' where al: "allocate first_buy (order_pool new_book) = Inr (i, p')"
    using mem_pool.alloc_iff [of "order_pool new_book" first_buy] by auto
  note r = allocate_order_rep [OF rep al]
  have "fresh_order (new_book\<lparr>order_pool := p'\<rparr>) (\<lambda>_. []) Side_BUY 100 i"
    using r(2-4) by (simp add: fresh_order_def order_ok_def first_buy_def in_hash_def ME_MAX_NUM_CLIENTS_def
        ME_MAX_ORDER_IDS_def resting_def entries_def)
  with al r(1) show thesis by (rule that)
qed

theorem addOrder_opens_level_witness:
  "\<exists>i p' b' l. allocate first_buy (order_pool new_book) = Inr (i, p') \<and>
    addOrder (Some i) (new_book\<lparr>order_pool := p'\<rparr>) = Inr b' \<and>
    book_rep True b' ((\<lambda>_. [])(Side_BUY := [(l, [i])]))"
proof -
  obtain i p' where a: "allocate first_buy (order_pool new_book) = Inr (i, p')"
    "book_rep True (new_book\<lparr>order_pool := p'\<rparr>) (\<lambda>_. [])"
    "fresh_order (new_book\<lparr>order_pool := p'\<rparr>) (\<lambda>_. []) Side_BUY 100 i"
    by (rule new_book_order)
  have s: "Side_BUY \<in> {Side_BUY, Side_SELL}" by simp
  have none: "getOrdersAtPrice 100 (new_book\<lparr>order_pool := p'\<rparr>) = None" by (simp add: new_book_simps)
  have room: "Suc (card (live (orders_at_price_pool (new_book\<lparr>order_pool := p'\<rparr>)))) <
      pool_size (orders_at_price_pool (new_book\<lparr>order_pool := p'\<rparr>))"
    by (simp add: new_book_simps live_new_pool ME_MAX_PRICE_LEVELS_def)
  from addOrder_opens_level [OF a(2) s a(3) none room] a(1) show ?thesis by auto
qed

text \<open>An empty book is well formed under both conventions for the heads, or under neither.\<close>

lemma empty_heads: "book_rep swp b (\<lambda>_. []) \<longleftrightarrow> book_rep swp' b (\<lambda>_. [])"
proof -
  have "sides_ok swp b (\<lambda>_. []) \<longleftrightarrow> bids_by_price b = None \<and> asks_by_price b = None" for swp
    by (auto simp: sides_ok_def side_ring_def head_of_def)
  then show ?thesis by (simp add: book_rep_def)
qed

lemma empty_slots: "book_rep swp b (\<lambda>_. []) \<Longrightarrow> getOrdersAtPrice price b = None"
  using priceToIndex_bound [of price]
  by (cases "getOrdersAtPrice price b") (auto simp: book_rep_def slots_ok_def entries_def getOrdersAtPrice_def)

text \<open>The pointer \<open>checkForMatch\<close> follows, in a book whose heads follow \<open>addOrderAtPrice\<close>.\<close>

lemma match_own_side:
  assumes rep: "book_rep True b S" and s: "s \<in> {Side_BUY, Side_SELL}" and S: "S s = [(l, [i])]" "S (opposite s) = []"
    and q: "0 < q" "q < o_quantity (pdata (order_pool b) i)" and cross: "\<not> no_cross s limit (o_price (pdata (order_pool b) i))"
  defines "x \<equiv> pdata (order_pool b) i"
  shows "\<exists>b' io'. checkForMatch c k tk s limit q m b io = Inr (0, b', io') \<and>
    pdata (order_pool b') = (pdata (order_pool b))(i := with_fill x q) \<and>
    sent_messages (fill_responses c k tk s m x q) (fill_updates tk s x q) io io'"
    and "checkForMatch c k tk (opposite s) limit' q' m b io = Inr (q', b, io)"
proof -
  have e: "(l, [i]) \<in> set (S s)" by (simp add: S)
  have lev: "level_ok (order_pool b) (orders_at_price_pool b) s (l, [i])" by (rule book_rep_level [OF rep s e])
  have "(l, [i]) \<in> entries S" by (rule entriesI [of _ S s, OF e s])
  then have rest: "i \<in> resting S" unfolding resting_iff by (intro exI [of _ l] exI [of _ "[i]"]) simp
  have os: "opposite s \<in> {Side_BUY, Side_SELL}" using s by (auto simp: opposite_def)
  have heads: "head_of True s b = Some l" "head_of True (opposite s) b = None"
    using book_rep_side [OF rep s] book_rep_side [OF rep os] by (simp_all add: S side_ring_def)
  have own: "opposite_best s b = Some l" and other: "opposite_best (opposite s) b = None"
    using heads s by (auto simp: head_of_def opposite_best_def opposite_def)
  have mem: "lvl (Some l) b = Inr (obj (orders_at_price_pool b) l)" "ord (Some i) b = Inr (obj (order_pool b) i)"
    using lev live_bound [of l "orders_at_price_pool b"] live_bound [of i "order_pool b"] by (simp_all add: order_ok_def)
  have first: "first_me_order (obj (orders_at_price_pool b) l) = Some i" using lev by (simp add: views)
  obtain b' io' where m: "match tk c s k m (Some i) q b io = Inr (0, b', io')"
    "pdata (order_pool b') = (pdata (order_pool b))(i := with_fill x q)"
    "sent_messages (fill_responses c k tk s m x q) (fill_updates tk s x q) io io'"
    using match_partial [OF rep rest q(2)] unfolding x_def by blast
  have "match_loop c k tk s limit m q b io = match_loop c k tk s limit m 0 b' io'"
    using own mem first q(1) cross m(1) by (subst match_loop.simps) (auto simp: order_field_views)
  then have "checkForMatch c k tk s limit q m b io = Inr (0, b', io')"
    using s by (auto simp: checkForMatch_def match_loop.simps)
  with m show "\<exists>b' io'. checkForMatch c k tk s limit q m b io = Inr (0, b', io') \<and>
    pdata (order_pool b') = (pdata (order_pool b))(i := with_fill x q) \<and>
    sent_messages (fill_responses c k tk s m x q) (fill_updates tk s x q) io io'" by blast
  show "checkForMatch c k tk (opposite s) limit' q' m b io = Inr (q', b, io)"
    using other by (simp add: checkForMatch_def match_loop.simps)
qed

text \<open>
  C12: the first order of an empty book trades with the wrong side. Let \<open>addOrder\<close> put a fresh
  order into a well-formed book without orders, whose level pool has room. \<open>checkForMatch\<close> of an
  incoming order of the same side, with a limit its price is within and a smaller quantity, then
  fills that quantity against it, sends FILLED to both clients, a TRADE and a MODIFY, and leaves
  the rest; for every incoming order of the opposite side \<open>checkForMatch\<close> finds nothing, whatever
  its limit. (\<open>addOrderAtPrice\<close> hangs the level off the other head pointer than the one the
  matching loop takes it from; with either function corrected both claims fail.)
\<close>

theorem same_side_matches:
  assumes "book_rep False b (\<lambda>_. [])" "s \<in> {Side_BUY, Side_SELL}" "fresh_order b (\<lambda>_. []) s price i"
    and "Suc (card (live (orders_at_price_pool b))) < pool_size (orders_at_price_pool b)"
    and "x = pdata (order_pool b) i" "0 < q" "q < o_quantity x" "\<not> no_cross s limit price"
  shows "\<exists>b1. addOrder (Some i) b = Inr b1 \<and>
    (\<exists>b2 io'. checkForMatch c k tk s limit q m b1 io = Inr (0, b2, io') \<and>
      o_quantity (pdata (order_pool b2) i) = o_quantity x - q \<and>
      sent_messages
        [mkResponse Resp_FILLED c tk k m s price q 0,
         mkResponse Resp_FILLED (o_client_id x) tk (o_client_order_id x) (o_market_order_id x) s price q (o_quantity x - q)]
        [mkUpdate Upd_TRADE OrderId_INVALID tk s price q Priority_INVALID,
         mkUpdate Upd_MODIFY (o_market_order_id x) tk s price (o_quantity x - q) (o_priority x)] io io') \<and>
    (\<forall>limit' q'. checkForMatch c k tk (opposite s) limit' q' m b1 io = Inr (q', b1, io))"
proof -
  have x: "o_side x = s" "o_price x = price" using assms(3,5) by (simp_all add: fresh_order_def order_ok_def)
  obtain b1 l where b1: "addOrder (Some i) b = Inr b1"
    "book_rep True b1 ((\<lambda>_. [])(s := place (orders_at_price_pool b) s price (l, [i]) []))"
    "pdata (order_pool b1) = pdata (order_pool b)"
    using addOrder_new_rep [OF iffD1 [OF empty_heads assms(1)] assms(2,3) empty_slots [OF assms(1)] assms(4)] by blast
  have S: "((\<lambda>_. [])(s := place (orders_at_price_pool b) s price (l, [i]) [])) s = [(l, [i])]"
    "((\<lambda>_. [])(s := place (orders_at_price_pool b) s price (l, [i]) [])) (opposite s) = []"
    using assms(2) by (auto simp: place_def opposite_def)
  have x1: "pdata (order_pool b1) i = x" by (simp add: b1(3) assms(5))
  have q1: "q < o_quantity (pdata (order_pool b1) i)" and l1: "\<not> no_cross s limit (o_price (pdata (order_pool b1) i))"
    using assms(7,8) x(2) by (simp_all add: x1)
  have "min q (o_quantity x) = q" by (rule min.absorb1 [OF less_imp_le [OF assms(7)]])
  moreover have "o_quantity x - q \<noteq> 0" using assms(7) by auto
  ultimately show ?thesis
    using b1(1) match_own_side [OF b1(2) assms(2) S assms(6) q1 l1, where c = c and k = k and tk = tk and m = m and io = io] x
    unfolding x1 by (fastforce simp: fill_responses_def fill_updates_def with_fill_def)
qed

theorem same_side_matches_witness:
  "\<exists>i p' b1 b2 io'. allocate first_buy (order_pool new_book) = Inr (i, p') \<and>
    addOrder (Some i) (new_book\<lparr>order_pool := p'\<rparr>) = Inr b1 \<and>
    checkForMatch 2 7 0 Side_BUY 101 4 50 b1 example_io = Inr (0, b2, io') \<and>
    checkForMatch 2 7 0 Side_SELL 0 4 50 b1 example_io = Inr (4, b1, example_io) \<and>
    outgoing_md_updates io' = push_list push
      [mkUpdate Upd_TRADE OrderId_INVALID 0 Side_BUY 100 4 Priority_INVALID,
       mkUpdate Upd_MODIFY (o_market_order_id (pdata p' i)) 0 Side_BUY 100 6 (o_priority (pdata p' i))] (outgoing_md_updates example_io)"
proof -
  obtain i p' where a: "allocate first_buy (order_pool new_book) = Inr (i, p')"
    "book_rep True (new_book\<lparr>order_pool := p'\<rparr>) (\<lambda>_. [])"
    "fresh_order (new_book\<lparr>order_pool := p'\<rparr>) (\<lambda>_. []) Side_BUY 100 i"
    by (rule new_book_order)
  let ?b = "new_book\<lparr>order_pool := p'\<rparr>"
  have s: "Side_BUY \<in> {Side_BUY, Side_SELL}" by simp
  have room: "Suc (card (live (orders_at_price_pool ?b))) < pool_size (orders_at_price_pool ?b)"
    by (simp add: new_book_simps live_new_pool ME_MAX_PRICE_LEVELS_def)
  have x: "pdata (order_pool ?b) i = strip first_buy" using allocate_views(1) [OF a(1)] by simp
  have q: "0 < (4 :: Quantity)" "4 < o_quantity (strip first_buy)" "\<not> no_cross Side_BUY 101 100"
    "o_quantity (strip first_buy) - 4 = 6"
    by (simp_all add: first_buy_def no_cross_def)
  from same_side_matches [OF iffD1 [OF empty_heads a(2)] s a(3) room x [symmetric] q(1-3), of 2 7 0 50 example_io] a(1) q(4) x
  show ?thesis by (fastforce simp: sent_messages_def opposite_def)
qed

text \<open>
  C13: taking out the last order of a side of such a book frees its level but clears the head
  of the other side: the head of the side itself keeps pointing to the freed level, and the
  levels of the other side can no longer be found.
\<close>

theorem last_removal_corrupts:
  assumes "book_rep True b S" "s \<in> {Side_BUY, Side_SELL}" "S s = [(l, [i])]"
  shows "\<exists>b'. removeOrder (Some i) b = Inr b' \<and> head_of True s b' = Some l \<and>
    l \<notin> live (orders_at_price_pool b') \<and> head_of True (opposite s) b' = None"
proof -
  let ?p = "order_pool b" and ?q = "orders_at_price_pool b"
  have e: "(l, [i]) \<in> set (S s)" using assms(3) by simp
  have E: "(l, [i]) \<in> entries S" using entriesI [of _ S s] e assms(2) by blast
  have lev: "level_ok ?p ?q s (l, [i])" using book_rep_level [OF assms(1,2) e] .
  then have o: "order_ok ?p s (qprice ?q l) i" and self: "pprev ?p i = Some i" and live: "l \<in> live ?q" by auto
  have sr: "side_ring ?q (head_of True s b) [l]" using book_rep_side [OF assms(1,2)] assms(3) by simp
  then have nx: "qnext ?q l = Some l" and head: "head_of True s b = Some l" by (auto simp: side_ring_def)
  have slot: "getOrdersAtPrice (o_price (pdata ?p i)) b = Some l"
    using book_rep_slot [OF assms(1) E] o by (simp add: order_ok_def)
  obtain q' where q': "removeOrdersAtPrice s (o_price (pdata ?p i)) b =
      Inr ((set_level_slot (o_price (pdata ?p i)) None (set_best s None b))\<lparr>orders_at_price_pool := q'\<rparr>)" "live q' = live ?q - {l}"
    using removeOrdersAtPrice_single [OF refl slot live nx] by blast
  have oi: "o_side (pdata ?p i) = s" "i \<in> live ?p" "in_hash (o_client_id (pdata ?p i)) (o_client_order_id (pdata ?p i))"
    using o by (auto simp: order_ok_def)
  obtain p' where "removeOrder (Some i) b = Inr ((hash_upd (o_client_id (pdata ?p i)) (o_client_order_id (pdata ?p i)) None
      ((set_level_slot (o_price (pdata ?p i)) None (set_best s None b))\<lparr>orders_at_price_pool := q'\<rparr>))\<lparr>order_pool := p'\<rparr>)"
    using removeOrder_last [OF refl oi(2,3) self q'(1) [folded oi(1)]] oi(1) by auto
  moreover have "head_of True s (set_best s None b) = Some l" "head_of True (opposite s) (set_best s None b) = None"
    using head assms(2) by (auto simp: head_of_def set_best_def opposite_def)
  ultimately show ?thesis using q'(2) by simp
qed

theorem last_removal_corrupts_witness:
  "\<exists>i p' b' b'' l. allocate first_buy (order_pool new_book) = Inr (i, p') \<and>
    addOrder (Some i) (new_book\<lparr>order_pool := p'\<rparr>) = Inr b' \<and> removeOrder (Some i) b' = Inr b'' \<and>
    asks_by_price b'' = Some l \<and> l \<notin> live (orders_at_price_pool b'')"
proof -
  obtain i p' where a: "allocate first_buy (order_pool new_book) = Inr (i, p')"
    "book_rep True (new_book\<lparr>order_pool := p'\<rparr>) (\<lambda>_. [])"
    "fresh_order (new_book\<lparr>order_pool := p'\<rparr>) (\<lambda>_. []) Side_BUY 100 i"
    by (rule new_book_order)
  let ?b = "new_book\<lparr>order_pool := p'\<rparr>"
  have s: "Side_BUY \<in> {Side_BUY, Side_SELL}" by simp
  have none: "getOrdersAtPrice 100 ?b = None" by (simp add: new_book_simps)
  have room: "Suc (card (live (orders_at_price_pool ?b))) < pool_size (orders_at_price_pool ?b)"
    by (simp add: new_book_simps live_new_pool ME_MAX_PRICE_LEVELS_def)
  obtain b' l where b': "addOrder (Some i) ?b = Inr b'"
    "book_rep True b' ((\<lambda>_. [])(Side_BUY := place (orders_at_price_pool ?b) Side_BUY 100 (l, [i]) []))"
    using addOrder_new_rep [OF a(2) s a(3) none room] by blast
  have shape: "((\<lambda>_. [])(Side_BUY := place (orders_at_price_pool ?b) Side_BUY 100 (l, [i]) [])) Side_BUY = [(l, [i])]"
    by (simp add: place_def)
  from last_removal_corrupts [OF b'(2) s shape] a(1) b'(1) show ?thesis by (auto simp: head_of_def)
qed

end
