(* ===== verification/Book_Roundtrip.thy ===== *)
theory Book_Roundtrip
  imports Book_Add_Properties
begin

text \<open>
  Adding and cancelling together: the sequence of the two operations on one order, over the
  rules Book_Add and Book_Properties state for each of them.
\<close>

lemma remove_appended:
  assumes "\<forall>e \<in> set ls. i \<notin> set (snd e) \<and> snd e \<noteq> []"
  shows "remove_from i (append_to l i ls) = ls"
  using assms by (induction ls) (auto simp: append_to_def remove1_append remove1_idem)

lemma remove_absent:
  assumes "\<forall>e \<in> set ls. i \<notin> set (snd e) \<and> snd e \<noteq> []"
  shows "remove_from i ls = ls"
  using assms by (induction ls) (auto simp: remove1_idem)

lemma side_absent:
  assumes "book_rep swp b S" "i \<notin> resting S" "t \<in> {Side_BUY, Side_SELL}"
  shows "\<forall>e \<in> set (S t). i \<notin> set (snd e) \<and> snd e \<noteq> []"
proof
  fix e assume e: "e \<in> set (S t)"
  then have "e \<in> entries S" using assms(3) by (auto simp: entries_def)
  with assms(2) book_rep_not_Nil [OF assms(1) this] show "i \<notin> set (snd e) \<and> snd e \<noteq> []"
    by (cases e) (auto simp: resting_iff)
qed

text \<open>
  C9: adding an order at an existing price and cancelling it again is a round trip. Both
  calls return, every level is back to the orders it held, in the same sequence and with the
  same data, and the client is told ACCEPTED, the fills of the match, and CANCELED with the
  whole quantity that rested.
\<close>

theorem add_cancel_roundtrip:
  assumes "matcher_gives f b left b2 rs us" "left \<noteq> 0"
    and "book_rep False b2 S" "s \<in> {Side_BUY, Side_SELL}"
    and "(l, os) \<in> set (S s)" "qprice (orders_at_price_pool b2) l = price"
    and "in_hash c k" "\<forall>j \<in> resting S. (o_client_id (pdata (order_pool b2) j), o_client_order_id (pdata (order_pool b2) j)) \<noteq> (c, k)"
    and "Suc (card (live (order_pool b2))) < pool_size (order_pool b2)"
  shows "let m = next_market_order_id b; prio = o_priority (pdata (order_pool b2) (last os)) in
    \<exists>b' io' b'' io'' S'. add f c k tk s price qty b io = Inr (b', io') \<and> cancel c k tk b' io' = Inr (b'', io'') \<and>
      book_rep False b'' S' \<and> (\<forall>t \<in> {Side_BUY, Side_SELL}. S' t = S t) \<and>
      (\<forall>j \<in> resting S. pdata (order_pool b'') j = pdata (order_pool b2) j) \<and>
      sent_messages ([accepted_response c k tk s price qty m] @ rs @
          [mkResponse Resp_CANCELED c tk k m s price Quantity_INVALID left])
        (us @ [mkUpdate Upd_ADD m tk s price left prio, mkUpdate Upd_CANCEL m tk s price 0 prio]) io io''"
proof -
  let ?m = "next_market_order_id b" and ?prio = "o_priority (pdata (order_pool b2) (last os))"
  let ?x = "\<lambda>i. \<lparr>o_ticker_id = tk, o_client_id = c, o_client_order_id = k, o_market_order_id = ?m, o_side = s,
    o_price = price, o_quantity = left, o_priority = ?prio, prev_order = None, next_order = None\<rparr>"
  let ?S = "\<lambda>i. S(s := append_to l i (S s))"
  obtain b' io' i where a: "add f c k tk s price qty b io = Inr (b', io')" "i \<notin> resting S" "book_rep False b' (?S i)"
    "pdata (order_pool b') = (pdata (order_pool b2))(i := ?x i)"
    "sent_messages ([accepted_response c k tk s price qty ?m] @ rs) (us @ [mkUpdate Upd_ADD ?m tk s price left ?prio]) io io'"
    using add_joins_rep [OF matcher_gives_after [OF assms(1)] assms(2-9)] by blast
  have absent: "\<forall>e \<in> set (S t). i \<notin> set (snd e) \<and> snd e \<noteq> []" if "t \<in> {Side_BUY, Side_SELL}" for t
    using side_absent [OF assms(3) a(2) that] .
  have "(l, os @ [i]) \<in> set (append_to l i (S s))" using assms(5) by (force simp: append_to_def)
  then have "(l, os @ [i]) \<in> entries (?S i)" using assms(4) by (auto simp: entries_def)
  then have "i \<in> resting (?S i)" unfolding resting_iff by (intro exI conjI) auto
  from cancel_hit [OF a(3) this, of tk io'] obtain b'' io'' where
    c: "cancel c k tk b' io' = Inr (b'', io'')" "book_rep False b'' (\<lambda>t. remove_from i (?S i t))"
    "pdata (order_pool b'') = pdata (order_pool b')"
    "sent_messages [canceled_response tk (?x i)] [canceled_update tk (?x i)] io' io''"
    by (auto simp: a(4))
  have "remove_from i (?S i t) = S t" if "t \<in> {Side_BUY, Side_SELL}" for t
    using remove_appended [OF absent [OF that], of l] remove_absent [OF absent [OF that]] by (cases "t = s") simp_all
  moreover have "\<forall>j \<in> resting S. pdata (order_pool b'') j = pdata (order_pool b2) j"
    using c(3) a(2,4) by auto
  ultimately show ?thesis
    using a(1) c(1,2) sent_messages_trans [OF a(5) c(4)] unfolding Let_def
    by (intro exI [of _ b'] exI [of _ io'] exI [of _ b''] exI [of _ io''] exI [of _ "\<lambda>t. remove_from i (?S i t)"] conjI)
      (auto simp: canceled_response_def canceled_update_def)
qed


theorem add_cancel_roundtrip_witness:
  "\<exists>b' io' b'' io'' S'. add (matcher7 2 9 0 Side_BUY 99 6 1) 2 9 0 Side_BUY 99 6 example_book example_io = Inr (b', io') \<and>
    cancel 2 9 0 b' io' = Inr (b'', io'') \<and> book_rep False b'' S' \<and> S' Side_BUY = example_shape Side_BUY"
  using add_cancel_roundtrip [OF example_left _ example_add, of 0 6 example_io] unfolding Let_def by fastforce

end
