(* ===== verification/Book_Exchange.thy ===== *)
theory Book_Exchange
  imports Book_Roundtrip Systems
begin

text \<open>
  The order book as its clients see it, over whole sequences of requests. \<open>exchange\<close> is the
  specification: two lists of orders, best first, without pointers, levels or pools. The
  book of Order_Book_Ops simulates it, request by request, with the same messages and the
  same faults, and a run from a new book never comes to hold an order.

  \<open>add\<close> calls a member function \<open>checkForMatch()\<close> that include/me_order_book.h declares and no
  file defines. It is a parameter here, a \<open>matcher\<close>, and what the results need of it is said by
  the contracts \<open>matches_as\<close> and \<open>quiet_on_empty\<close>. The overload with seven arguments, which is
  defined, fulfils both when it is called for the order being added.
\<close>

subsection \<open>Requests to the book\<close>

datatype book_request =
    Add_order ClientId OrderId TickerId Side Price Quantity
  | Cancel_order ClientId OrderId TickerId

text \<open>
  The call of \<open>checkForMatch()\<close> in \<open>add\<close>. The function has no arguments; a matcher may also depend on
  those of \<open>add\<close>, so that the overload is one.
\<close>

type_synonym matcher = "ClientId \<Rightarrow> OrderId \<Rightarrow> TickerId \<Rightarrow> Side \<Rightarrow> Price \<Rightarrow> Quantity \<Rightarrow>
  MEOrderBook \<Rightarrow> EngineIO \<Rightarrow> (Quantity \<times> MEOrderBook \<times> EngineIO) res"

fun handle_request :: "matcher \<Rightarrow> book_request \<Rightarrow> MEOrderBook \<times> EngineIO \<Rightarrow> (MEOrderBook \<times> EngineIO) res" where
  "handle_request M (Add_order c k tk s price qty) (b, io) = add (M c k tk s price qty) c k tk s price qty b io"
| "handle_request M (Cancel_order c k tk) (b, io) = cancel c k tk b io"

text \<open>The overload, for the order whose market id was generated last.\<close>

definition overload :: matcher where
  "overload c k tk s price qty b io = checkForMatch c k tk s price qty (next_market_order_id b - 1) b io"

subsection \<open>The specification\<close>

type_synonym messages = "MEClientResponse list \<times> MEMarketUpdate list"

fun cat_messages :: "messages \<Rightarrow> messages \<Rightarrow> messages" where
  "cat_messages (rs, us) (rs', us') = (rs @ rs', us @ us')"

text \<open>
  The orders that rest on each side, best first; the next market order id; the number of
  blocks of the order pool, each of which holds one resting order or is free.
\<close>

record exchange =
  x_queue :: "Side \<Rightarrow> MEOrder list"
  x_next :: OrderId
  x_blocks :: nat

definition x_orders :: "exchange \<Rightarrow> MEOrder list" where
  "x_orders X = x_queue X Side_BUY @ x_queue X Side_SELL"

text \<open>Filling the orders of the other side, from the front.\<close>

fun fill_queue :: "ClientId \<Rightarrow> OrderId \<Rightarrow> TickerId \<Rightarrow> Side \<Rightarrow> Price \<Rightarrow> OrderId \<Rightarrow> Quantity \<Rightarrow> MEOrder list \<Rightarrow>
    Quantity \<times> MEOrder list \<times> messages" where
  "fill_queue c k tk side price m q [] = (q, [], [], [])"
| "fill_queue c k tk side price m q (x # xs) =
     (if q = 0 \<or> no_cross side price (o_price x) then (q, x # xs, [], [])
      else
        let f = min q (o_quantity x);
            (left, rest, msgs) = (if o_quantity x - f = 0 then fill_queue c k tk side price m (q - f) xs
              else (q - f, with_fill x f # xs, [], []))
        in (left, rest, cat_messages (fill_responses c k tk side m x q, fill_updates tk side x q) msgs))"

definition same_slot :: "Price \<Rightarrow> MEOrder \<Rightarrow> bool" where
  "same_slot price x \<longleftrightarrow> priceToIndex (o_price x) = priceToIndex price"

definition has_key :: "ClientId \<Rightarrow> OrderId \<Rightarrow> MEOrder \<Rightarrow> bool" where
  "has_key c k x \<longleftrightarrow> o_client_id x = c \<and> o_client_order_id x = k"

text \<open>An order takes its place behind the last one at its price.\<close>

fun join_price :: "MEOrder \<Rightarrow> MEOrder list \<Rightarrow> MEOrder list" where
  "join_price x [] = [x]"
| "join_price x (y # ys) = (if o_price y = o_price x \<and> (\<forall>z \<in> set ys. o_price z \<noteq> o_price x) then y # x # ys
     else y # join_price x ys)"

text \<open>
  What a matcher does to the two lists: the quantity left, the new state and the messages sent,
  or a fault. \<open>exchange_fill\<close> is what the overload does.
\<close>

type_synonym fills = "ClientId \<Rightarrow> OrderId \<Rightarrow> TickerId \<Rightarrow> Side \<Rightarrow> Price \<Rightarrow> Quantity \<Rightarrow> exchange \<Rightarrow>
  (Quantity \<times> exchange \<times> messages) res"

definition exchange_fill :: fills where
  "exchange_fill c k tk s price qty X =
     (let (left, rest, msgs) = fill_queue c k tk s price (x_next X - 1) qty (x_queue X (opposite s)) in
      Inr (left, X\<lparr>x_queue := (x_queue X)(opposite s := rest)\<rparr>, msgs))"

text \<open>
  Adding: what is left after the fills rests, if there is an order at its price already; if
  there is none, or no room, the run ends.
\<close>

definition exchange_rest :: "ClientId \<Rightarrow> OrderId \<Rightarrow> TickerId \<Rightarrow> Side \<Rightarrow> Price \<Rightarrow> OrderId \<Rightarrow> Quantity \<Rightarrow> exchange \<Rightarrow>
    (exchange \<times> messages) res" where
  "exchange_rest c k tk s price m left X =
     (if filter (same_slot price) (x_orders X) = [] then Inl Null_deref
      else if x_blocks X \<le> Suc (length (x_orders X)) then Inl (Fatal ''MemPool out of space'')
      else
        let prio = o_priority (last (filter (same_slot price) (x_queue X s)));
            x = \<lparr>o_ticker_id = tk, o_client_id = c, o_client_order_id = k, o_market_order_id = m, o_side = s,
              o_price = price, o_quantity = left, o_priority = prio, prev_order = None, next_order = None\<rparr>
        in Inr (X\<lparr>x_queue := (x_queue X)(s := join_price x (x_queue X s))\<rparr>,
             [], [mkUpdate Upd_ADD m tk s price left prio]))"

definition draw_id :: "exchange \<Rightarrow> exchange" where
  "draw_id X = X\<lparr>x_next := x_next X + 1\<rparr>"

fun exchange_request :: "fills \<Rightarrow> book_request \<Rightarrow> exchange \<Rightarrow> (exchange \<times> messages) res" where
  "exchange_request F (Add_order c k tk s price qty) X =
     bnd (F c k tk s price qty (draw_id X)) (\<lambda>(left, X', msgs).
       let sent = cat_messages ([accepted_response c k tk s price qty (x_next X)], []) msgs in
       if left = 0 then Inr (X', sent)
       else bnd (exchange_rest c k tk s price (x_next X) left X') (\<lambda>(X'', msgs'). Inr (X'', cat_messages sent msgs')))"
| "exchange_request F (Cancel_order c k tk) X =
     (if \<not> unat c < ME_MAX_NUM_CLIENTS then Inr (X, [rejected_response c k tk], [])
      else if \<not> unat k < ME_MAX_ORDER_IDS then Inl Out_of_range
      else case filter (has_key c k) (x_orders X) of
        [] \<Rightarrow> Inr (X, [rejected_response c k tk], [])
      | x # _ \<Rightarrow> Inr (X\<lparr>x_queue := \<lambda>s. filter (\<lambda>y. \<not> has_key c k y) (x_queue X s)\<rparr>,
          [canceled_response tk x], [canceled_update tk x]))"

text \<open>
  What the book needs of the requests to work like this. An order that comes to rest at a
  price slot in use is for the price and side of that slot (prices 256 apart share one), its
  ids are inside the tables and not those of an order that rests.
\<close>

fun admissible :: "fills \<Rightarrow> book_request \<Rightarrow> exchange \<Rightarrow> bool" where
  "admissible F (Add_order c k tk s price qty) X \<longleftrightarrow> s \<in> {Side_BUY, Side_SELL} \<and>
     (case F c k tk s price qty (draw_id X) of Inl g \<Rightarrow> True | Inr (left, X', _) \<Rightarrow>
        let slot = filter (same_slot price) (x_orders X')
        in left \<noteq> 0 \<and> slot \<noteq> [] \<longrightarrow> (\<forall>x \<in> set slot. o_price x = price \<and> o_side x = s) \<and> in_hash c k \<and>
             (\<forall>x \<in> set (x_orders X'). \<not> has_key c k x))"
| "admissible F (Cancel_order c k tk) X \<longleftrightarrow> True"

subsection \<open>How a book represents an exchange\<close>

definition mirrors :: "shape \<Rightarrow> MEOrderBook \<Rightarrow> exchange \<Rightarrow> bool" where
  "mirrors S b X \<longleftrightarrow> book_rep False b S \<and>
     (\<forall>s \<in> {Side_BUY, Side_SELL}. x_queue X s = map (pdata (order_pool b)) (queue S s)) \<and>
     x_next X = next_market_order_id b \<and>
     x_blocks X = pool_size (order_pool b) \<and> live (order_pool b) - resting S = {}"

definition represents :: "exchange \<Rightarrow> MEOrderBook \<times> EngineIO \<Rightarrow> bool" where
  "represents X = (\<lambda>(b, io). \<exists>S. mirrors S b X)"

definition sends :: "messages \<Rightarrow> MEOrderBook \<times> EngineIO \<Rightarrow> MEOrderBook \<times> EngineIO \<Rightarrow> bool" where
  "sends = (\<lambda>(rs, us) (b, io) (b', io'). sent_messages rs us io io')"

text \<open>
  The contract of a matcher: on a book that represents an exchange, for an order with a side, it
  does what \<open>F\<close> does to the exchange. It faults as \<open>F\<close> does, or leaves the quantity \<open>F\<close> leaves, a
  book that represents the state of \<open>F\<close>, and has sent the messages of \<open>F\<close>.
\<close>

definition matches_as :: "matcher \<Rightarrow> fills \<Rightarrow> bool" where
  "matches_as M F \<longleftrightarrow> (\<forall>S b X c k tk s price qty io. mirrors S b X \<longrightarrow> s \<in> {Side_BUY, Side_SELL} \<longrightarrow>
     (case F c k tk s price qty X of Inl g \<Rightarrow> M c k tk s price qty b io = Inl g
      | Inr (left, X', rs, us) \<Rightarrow> \<exists>b' io' S'. M c k tk s price qty b io = Inr (left, b', io') \<and>
          mirrors S' b' X' \<and> sent_messages rs us io io'))"

lemma matches_asD:
  assumes "matches_as M F" "mirrors S b X" "s \<in> {Side_BUY, Side_SELL}"
  shows "F c k tk s price qty X = Inl g \<Longrightarrow> M c k tk s price qty b io = Inl g"
    "F c k tk s price qty X = Inr (left, X', rs, us) \<Longrightarrow> \<exists>b' io' S'. M c k tk s price qty b io = Inr (left, b', io') \<and>
       mirrors S' b' X' \<and> sent_messages rs us io io'"
proof -
  have "case F c k tk s price qty X of Inl g \<Rightarrow> M c k tk s price qty b io = Inl g
      | Inr (left, X', rs, us) \<Rightarrow> \<exists>b' io' S'. M c k tk s price qty b io = Inr (left, b', io') \<and>
          mirrors S' b' X' \<and> sent_messages rs us io io'"
    using assms unfolding matches_as_def by blast
  then show "F c k tk s price qty X = Inl g \<Longrightarrow> M c k tk s price qty b io = Inl g"
    "F c k tk s price qty X = Inr (left, X', rs, us) \<Longrightarrow> \<exists>b' io' S'. M c k tk s price qty b io = Inr (left, b', io') \<and>
       mirrors S' b' X' \<and> sent_messages rs us io io'"
    by simp_all
qed

text \<open>The queues of a well-formed book.\<close>

lemma queue_member:
  assumes rep: "book_rep swp b S" and s: "s \<in> {Side_BUY, Side_SELL}" and i: "i \<in> set (queue S s)"
  obtains l os where "(l, os) \<in> set (S s)" "i \<in> set os" "i \<in> live (order_pool b)" "o_side (pdata (order_pool b) i) = s"
    "o_price (pdata (order_pool b) i) = qprice (orders_at_price_pool b) l"
proof -
  from i obtain l os where e: "(l, os) \<in> set (S s)" "i \<in> set os" by (auto simp: queue_def)
  from book_rep_level [OF rep s e(1)] e show thesis by (intro that) (auto simp: order_ok_def)
qed

lemma resting_queues: "resting S = set (queue S Side_BUY) \<union> set (queue S Side_SELL)"
  by (auto simp: resting_def entries_def queue_def)

lemma card_resting:
  assumes rep: "book_rep swp b S"
  shows "card (resting S) = length (queue S Side_BUY) + length (queue S Side_SELL)"
proof -
  have "set (queue S Side_BUY) \<inter> set (queue S Side_SELL) = {}"
    using queue_member [OF rep, of Side_BUY] queue_member [OF rep, of Side_SELL] by (metis Side.distinct(7) disjoint_iff insertCI)
  then show ?thesis
    using queue_distinct [OF rep, of Side_BUY] queue_distinct [OF rep, of Side_SELL]
    by (simp add: resting_queues card_Un_disjoint distinct_card)
qed

lemma queue_order:
  "book_rep swp b S \<Longrightarrow> s \<in> {Side_BUY, Side_SELL} \<Longrightarrow> i \<in> set (queue S s) \<Longrightarrow>
   i \<in> live (order_pool b) \<and> o_side (pdata (order_pool b) i) = s"
  by (erule queue_member) auto

lemma resting_live: "book_rep swp b S \<Longrightarrow> resting S \<subseteq> live (order_pool b)"
  using queue_order [of swp b S Side_BUY] queue_order [of swp b S Side_SELL] by (auto simp: resting_queues)

subsection \<open>The parts of a request\<close>

text \<open>Filling: the function on indices and data of Book_Match, seen on the list of the data.\<close>

lemma fill_queue_spec:
  assumes "distinct is"
  shows "fill_queue c k tk side price m q (map d is) =
    (f_leaves (spec_match c k tk side price m q d is),
     map (f_data (spec_match c k tk side price m q d is)) (f_rest (spec_match c k tk side price m q d is)),
     f_responses (spec_match c k tk side price m q d is), f_updates (spec_match c k tk side price m q d is))"
  using assms
proof (induction "is" arbitrary: q d)
  case (Cons i "is")
  let ?f = "min q (o_quantity (d i))"
  let ?d = "d(i := with_fill (d i) ?f)"
  have same: "map ?d is = map d is" using Cons.prems by simp
  note IH = Cons.IH [of "q - ?f" ?d, unfolded same]
  show ?case
  proof (cases "q = 0 \<or> no_cross side price (o_price (d i))")
    case True
    then show ?thesis by auto
  next
    case cross: False
    show ?thesis
    proof (cases "o_quantity (d i) - ?f = 0")
      case True
      with cross IH Cons.prems show ?thesis by (simp add: Let_def del: fun_upd_apply)
    next
      case False
      with cross same show ?thesis by (simp add: Let_def)
    qed
  qed
qed simp

text \<open>The orders of one slot of the price table: those of one level, or none.\<close>

lemma slot_orders:
  assumes rep: "book_rep swp b S" and s: "s \<in> {Side_BUY, Side_SELL}" and lo: "(l, os) \<in> set (S s)"
    and price: "qprice (orders_at_price_pool b) l = price"
  shows "filter (same_slot price) (map (pdata (order_pool b)) (queue S s)) = map (pdata (order_pool b)) os"
proof -
  let ?d = "pdata (order_pool b)"
  obtain xs ys where S: "S s = xs @ (l, os) # ys" using lo by (meson split_list)
  have d: "distinct (map fst (S s))" using side_ring_distinct [OF book_rep_side [OF rep s]] .
  have E: "(l, os) \<in> entries S" using entriesI [of _ S s] lo s by blast
  have lev: "o_price (?d i) = qprice (orders_at_price_pool b) (fst e)" if "e \<in> set (S s)" "i \<in> set (snd e)" for e i
    using book_rep_level [OF rep s, of "fst e" "snd e"] that by (cases e) (auto simp: order_ok_def)
  have other: "\<not> same_slot price (?d i)" if e: "e \<in> set xs \<union> set ys" "i \<in> set (snd e)" for e i
  proof -
    have eS: "e \<in> set (S s)" and ne: "fst e \<noteq> l" using e(1) d by (auto simp: S)
    have "e \<in> entries S" using entriesI [of e S s] eS s by blast
    then have "apart (orders_at_price_pool b) e (l, os)"
      using rep E ne unfolding book_rep_def pairwise_def by (metis fst_conv)
    then have "lidx (orders_at_price_pool b) (fst e) \<noteq> lidx (orders_at_price_pool b) l" by (cases e) simp
    with lev [OF eS e(2)] price show ?thesis by (simp add: same_slot_def lidx_def)
  qed
  have none: "filter (same_slot price) (map ?d (concat (map snd zs))) = []" if "set zs \<subseteq> set xs \<union> set ys" for zs
    using other that by (auto simp: filter_empty_conv)
  have "filter (same_slot price) (map ?d os) = map ?d os"
    using lev [OF lo] price by (auto simp: same_slot_def filter_id_conv)
  with none [of xs] none [of ys] show ?thesis by (simp add: queue_def S)
qed

lemma slot_level:
  assumes rep: "book_rep swp b S" and s: "s \<in> {Side_BUY, Side_SELL}" and i: "i \<in> set (queue S s)"
    and slot: "o_price (pdata (order_pool b) i) = price"
  obtains l os where "(l, os) \<in> set (S s)" "qprice (orders_at_price_pool b) l = price" "os \<noteq> []"
  using queue_member [OF rep s i] slot by (metis empty_iff empty_set)

lemma slot_None:
  assumes rep: "book_rep swp b S"
  shows "getOrdersAtPrice price b = None \<longleftrightarrow>
    filter (same_slot price) (map (pdata (order_pool b)) (queue S Side_BUY @ queue S Side_SELL)) = []"
proof -
  let ?d = "pdata (order_pool b)" and ?q = "orders_at_price_pool b"
  have idx: "unat (priceToIndex price) < ME_MAX_PRICE_LEVELS" by (rule priceToIndex_bound)
  have slots: "getOrdersAtPrice price b = Some l \<longleftrightarrow> l \<in> fst ` entries S \<and> lidx ?q l = unat (priceToIndex price)" for l
    using rep idx by (simp add: book_rep_def slots_ok_def getOrdersAtPrice_def)
  have lev: "(\<exists>i \<in> set os. same_slot price (?d i)) \<longleftrightarrow> lidx ?q l = unat (priceToIndex price)" if e: "(l, os) \<in> entries S" for l os
  proof -
    obtain s where s: "s \<in> {Side_BUY, Side_SELL}" "(l, os) \<in> set (S s)" using e by (auto elim: entriesE)
    have "os \<noteq> []" using book_rep_not_Nil [OF rep e] by simp
    moreover have "\<forall>i \<in> set os. o_price (?d i) = qprice ?q l" using book_rep_level [OF rep s] by (simp add: order_ok_def)
    ultimately show ?thesis by (cases os) (auto simp: same_slot_def lidx_def)
  qed
  have "filter (same_slot price) (map ?d (queue S Side_BUY @ queue S Side_SELL)) = [] \<longleftrightarrow>
      \<not> (\<exists>(l, os) \<in> entries S. \<exists>i \<in> set os. same_slot price (?d i))"
    by (fastforce simp: filter_empty_conv queue_def entries_def)
  also have "\<dots> \<longleftrightarrow> \<not> (\<exists>l. getOrdersAtPrice price b = Some l)"
    using lev slots by force
  finally show ?thesis by auto
qed

text \<open>Joining a level.\<close>

lemma join_price_at:
  "o_price y = o_price x \<Longrightarrow> \<forall>z \<in> set post. o_price z \<noteq> o_price x \<Longrightarrow>
   join_price x (pre @ y # post) = pre @ y # x # post"
  by (induction pre) auto

lemma append_around: "(xs @ ys) @ zs = ys \<Longrightarrow> zs = []"
  by (drule arg_cong [where f = length]) simp

lemma queue_append_to:
  assumes rep: "book_rep swp b S" and s: "s \<in> {Side_BUY, Side_SELL}" and lo: "(l, os) \<in> set (S s)"
    and price: "qprice (orders_at_price_pool b) l = o_price x" and i: "i \<notin> resting S"
    and d': "d' = (pdata (order_pool b))(i := x)"
  shows "map d' (queue (S(s := append_to l i (S s))) s) = join_price x (map (pdata (order_pool b)) (queue S s))"
    "t \<in> {Side_BUY, Side_SELL} \<Longrightarrow> t \<noteq> s \<Longrightarrow> map d' (queue (S(s := append_to l i (S s))) t) = map (pdata (order_pool b)) (queue S t)"
proof -
  let ?d = "pdata (order_pool b)"
  have old: "d' j = ?d j" if "j \<in> set (queue S t)" "t \<in> {Side_BUY, Side_SELL}" for j t
    using that i by (auto simp: d' resting_queues)
  then show "map d' (queue (S(s := append_to l i (S s))) t) = map ?d (queue S t)"
    if "t \<in> {Side_BUY, Side_SELL}" "t \<noteq> s"
    using that by (auto simp: queue_def)
  obtain xs ys where S: "S s = xs @ (l, os) # ys" using lo by (meson split_list)
  have d: "distinct (map fst (S s))" using side_ring_distinct [OF book_rep_side [OF rep s]] .
  then have "append_to l i xs = xs" "append_to l i ys = ys" by (auto simp: S intro: append_to_id)
  then have app: "append_to l i (S s) = xs @ (l, os @ [i]) # ys" by (simp add: S append_to_def)
  have E: "(l, os) \<in> entries S" using entriesI [of _ S s] lo s by blast
  have ne: "os \<noteq> []" using book_rep_not_Nil [OF rep E] by simp
  then obtain os0 j where os: "os = os0 @ [j]" by (metis rev_exhaust)
  have pj: "o_price (?d j) = o_price x" using book_rep_level [OF rep s lo] price by (simp add: os order_ok_def)
  have "o_price (?d z) \<noteq> o_price x" if z: "z \<in> set (concat (map snd ys))" for z
  proof
    assume eq: "o_price (?d z) = o_price x"
    have "filter (same_slot (o_price x)) (map ?d (queue S s)) = map ?d os" by (rule slot_orders [OF rep s lo price])
    moreover have "map ?d (queue S s) = map ?d (concat (map snd xs) @ os) @ map ?d (concat (map snd ys))"
      by (simp add: queue_def S)
    moreover have "filter (same_slot (o_price x)) (map ?d os) = map ?d os"
      using book_rep_level [OF rep s lo] price by (auto simp: same_slot_def order_ok_def filter_id_conv)
    ultimately have "filter (same_slot (o_price x)) (map ?d (concat (map snd ys))) = []"
      using append_around by (metis filter_append map_append)
    moreover have "?d z \<in> set (map ?d (concat (map snd ys)))" using z by simp
    moreover have "same_slot (o_price x) (?d z)" using eq by (simp add: same_slot_def)
    ultimately show False unfolding filter_empty_conv by blast
  qed
  then have post: "\<forall>z \<in> set (map ?d (concat (map snd ys))). o_price z \<noteq> o_price x" by auto
  have q: "queue S s = concat (map snd xs) @ os0 @ j # concat (map snd ys)" by (simp add: queue_def S os)
  have "map d' (queue (S(s := append_to l i (S s))) s) =
      map d' (concat (map snd xs) @ os0) @ d' j # x # map d' (concat (map snd ys))"
    by (simp add: queue_def app os d')
  also have "\<dots> = map ?d (concat (map snd xs) @ os0) @ ?d j # x # map ?d (concat (map snd ys))"
    using old [OF _ s] by (auto simp: q)
  also have "\<dots> = join_price x (map ?d (concat (map snd xs) @ os0) @ ?d j # map ?d (concat (map snd ys)))"
    by (rule join_price_at [OF pj post, symmetric])
  also have "\<dots> = join_price x (map ?d (queue S s))" by (simp add: q)
  finally show "map d' (queue (S(s := append_to l i (S s))) s) = join_price x (map ?d (queue S s))" .
qed

subsection \<open>One request\<close>

lemma mirrors_generate:
  assumes "mirrors S b X"
  shows "mirrors S (snd (generateNewMarketOrderId b)) (draw_id X)"
proof -
  let ?b = "snd (generateNewMarketOrderId b)"
  have rep: "book_rep False b S" using assms by (simp add: mirrors_def)
  have "book_rep False ?b S"
    by (rule book_rep_data [OF rep]) (use rep in \<open>simp_all add: generateNewMarketOrderId_def book_rep_def\<close>)
  with assms show ?thesis by (simp add: mirrors_def generateNewMarketOrderId_def draw_id_def)
qed

text \<open>The overload fulfils the contract.\<close>

lemma overload_mirrors:
  assumes mir: "mirrors S b X" and s: "s \<in> {Side_BUY, Side_SELL}"
  shows "\<exists>left X' rs us b2 io2 S2. exchange_fill c k tk s price qty X = Inr (left, X', rs, us) \<and>
    overload c k tk s price qty b io = Inr (left, b2, io2) \<and> mirrors S2 b2 X' \<and> sent_messages rs us io io2"
proof -
  let ?d = "pdata (order_pool b)" and ?m = "next_market_order_id b - 1"
  let ?r = "spec_match c k tk s price ?m qty ?d (queue S (opposite s))"
  have rep: "book_rep False b S" using mir by (simp add: mirrors_def)
  have xq: "x_queue X t = map ?d (queue S t)" if "t \<in> {Side_BUY, Side_SELL}" for t
    using that mir by (auto simp: mirrors_def)
  obtain b2 io2 S2 where r: "checkForMatch c k tk s price qty ?m b io = Inr (f_leaves ?r, b2, io2)"
    "book_rep False b2 S2" "S2 s = S s" "queue S2 (opposite s) = f_rest ?r" "pdata (order_pool b2) = f_data ?r"
    "sent_messages (f_responses ?r) (f_updates ?r) io io2" "accounted b S b2 S2"
    using checkForMatch_spec [OF rep s] by metis
  have m: "x_next X = next_market_order_id b" using mir by (simp add: mirrors_def)
  have fq: "fill_queue c k tk s price ?m qty (x_queue X (opposite s)) =
      (f_leaves ?r, map (f_data ?r) (f_rest ?r), f_responses ?r, f_updates ?r)"
    using fill_queue_spec [OF queue_distinct [OF rep opposite_sides(1)]] xq [OF opposite_sides(1)] by simp
  define X' where "X' = X\<lparr>x_queue := (x_queue X)(opposite s := map (f_data ?r) (f_rest ?r))\<rparr>"
  have fill: "exchange_fill c k tk s price qty X = Inr (f_leaves ?r, X', f_responses ?r, f_updates ?r)"
    by (simp add: exchange_fill_def m fq X'_def)
  have frame: "f_data ?r j = ?d j" if "j \<in> set (queue S s)" for j
  proof (rule spec_match_frame)
    show "j \<notin> set (queue S (opposite s))"
      using queue_order [OF rep s that] queue_order [OF rep opposite_sides(1) [of s], of j] s
      by (auto simp: opposite_def)
  qed
  have "x_queue X' t = map (pdata (order_pool b2)) (queue S2 t)" if t: "t \<in> {Side_BUY, Side_SELL}" for t
  proof (cases "t = opposite s")
    case True
    then show ?thesis by (simp add: X'_def r(4,5))
  next
    case False
    then have "t = s" using t s by (auto simp: opposite_def split: if_splits)
    moreover have "queue S2 s = queue S s" by (simp add: queue_def r(3))
    ultimately show ?thesis using False xq [OF t] frame by (simp add: X'_def r(5))
  qed
  moreover have "x_blocks X' = pool_size (order_pool b2)" "live (order_pool b2) - resting S2 = {}"
    "x_next X' = next_market_order_id b2"
    using mir r(7) m by (simp_all add: X'_def mirrors_def accounted_def)
  ultimately have "mirrors S2 b2 X'" using r(2) by (simp add: mirrors_def)
  with r(1,6) fill show ?thesis unfolding overload_def by blast
qed

lemma overload_matches: "matches_as overload exchange_fill"
  unfolding matches_as_def
proof (intro allI impI)
  fix S b X c k tk s price qty io
  assume "mirrors S b X" "s \<in> {Side_BUY, Side_SELL}"
  from overload_mirrors [OF this, of c k tk price qty io]
  show "case exchange_fill c k tk s price qty X of Inl g \<Rightarrow> overload c k tk s price qty b io = Inl g
      | Inr (left, X', rs, us) \<Rightarrow> \<exists>b' io' S'. overload c k tk s price qty b io = Inr (left, b', io') \<and>
          mirrors S' b' X' \<and> sent_messages rs us io io'" by fastforce
qed

lemma mirrors_orders:
  assumes "mirrors S b X"
  shows "x_orders X = map (pdata (order_pool b)) (queue S Side_BUY @ queue S Side_SELL)"
  using assms by (simp add: mirrors_def x_orders_def)

lemma mirrors_full:
  assumes mir: "mirrors S b X"
  shows "x_blocks X \<le> Suc (length (x_orders X)) \<longleftrightarrow> \<not> Suc (card (live (order_pool b))) < pool_size (order_pool b)"
proof -
  have rep: "book_rep False b S" using mir by (simp add: mirrors_def)
  have "live (order_pool b) = resting S" using resting_live [OF rep] mir by (auto simp: mirrors_def)
  moreover have "length (x_orders X) = card (resting S)" using mirrors_orders [OF mir] card_resting [OF rep] by simp
  moreover have "x_blocks X = pool_size (order_pool b)" using mir by (simp add: mirrors_def)
  ultimately show ?thesis by (simp add: not_less)
qed

text \<open>What \<open>add\<close> does once the matcher has left a quantity: no level, no room, or a place in the level.\<close>

lemma add_after_match:
  fixes b c k tk s price qty io left b2
  defines "r \<equiv> accepted_response c k tk s price qty (next_market_order_id b)"
  assumes m: "matcher_gives_after r io f b left b2 rs us" and left: "left \<noteq> 0"
  shows "getOrdersAtPrice price b2 = None \<Longrightarrow> add f c k tk s price qty b io = Inl Null_deref"
    "book_rep False b2 S \<Longrightarrow> (l, os) \<in> entries S \<Longrightarrow> qprice (orders_at_price_pool b2) l = price \<Longrightarrow>
     \<not> Suc (card (live (order_pool b2))) < pool_size (order_pool b2) \<Longrightarrow>
     add f c k tk s price qty b io = Inl (Fatal ''MemPool out of space'')"
proof -
  define b1 where "b1 = snd (generateNewMarketOrderId b)"
  have gen: "generateNewMarketOrderId b = (next_market_order_id b, b1)"
    by (simp add: generateNewMarketOrderId_def b1_def)
  obtain io1 where io1: "sendClientResponse r io = Inr io1" using sendClientResponse_sends by metis
  obtain io2 where io2: "f b1 io1 = Inr (left, b2, io2)" using m io1 by (auto simp: matcher_gives_after_def b1_def)
  note step = gen io1 [unfolded r_def accepted_response_def] io2 left
  show "add f c k tk s price qty b io = Inl Null_deref" if "getOrdersAtPrice price b2 = None"
    using step that by (simp add: add_def getNextPriority_def)
  show "add f c k tk s price qty b io = Inl (Fatal ''MemPool out of space'')"
    if rep: "book_rep False b2 S" and E: "(l, os) \<in> entries S" "qprice (orders_at_price_pool b2) l = price"
      and full: "\<not> Suc (card (live (order_pool b2))) < pool_size (order_pool b2)"
  proof -
    have inv: "pool_inv (order_pool b2)" using rep by (simp add: book_rep_def)
    have "allocate v (order_pool b2) = Inl (Fatal ''MemPool out of space'')" for v
      using mem_pool.alloc_iff [OF inv, of v] full allocate_Inl(1) [OF _ inv, of v] by (cases "allocate v (order_pool b2)") auto
    then show ?thesis using step getNextPriority_level [OF rep E] by (simp add: add_def)
  qed
qed


lemma add_result_filled:
  assumes m: "matcher_gives_after (accepted_response c k tk s price qty (next_market_order_id b)) io f b 0 b2 rs us"
  shows "\<exists>io'. add f c k tk s price qty b io = Inr (b2, io') \<and>
    sent_messages (accepted_response c k tk s price qty (next_market_order_id b) # rs) us io io'"
proof -
  let ?r = "accepted_response c k tk s price qty (next_market_order_id b)"
  obtain io1 where io1: "sendClientResponse ?r io = Inr io1" "sent_messages [?r] [] io io1"
    using sendClientResponse_sends by metis
  obtain io2 where io2: "f (snd (generateNewMarketOrderId b)) io1 = Inr (0, b2, io2)" "sent_messages rs us io1 io2"
    using m io1(1) by (auto simp: matcher_gives_after_def)
  have "add f c k tk s price qty b io = Inr (b2, io2)"
    using io1(1) [unfolded accepted_response_def] io2(1) by (simp add: add_def generateNewMarketOrderId_def)
  moreover have "sent_messages (?r # rs) us io io2" using sent_messages_trans [OF io1(2) io2(2)] by simp
  ultimately show ?thesis by blast
qed

lemma level_at_slot:
  assumes mir: "mirrors S b X" and s: "s \<in> {Side_BUY, Side_SELL}"
    and slot: "filter (same_slot price) (x_orders X) \<noteq> []"
    and own: "\<forall>x \<in> set (filter (same_slot price) (x_orders X)). o_price x = price \<and> o_side x = s"
  shows "\<exists>l os. (l, os) \<in> set (S s) \<and> (l, os) \<in> entries S \<and> qprice (orders_at_price_pool b) l = price \<and> os \<noteq> []"
proof -
  let ?d = "pdata (order_pool b)"
  have rep: "book_rep False b S" using mir by (simp add: mirrors_def)
  have xs: "x_orders X = map ?d (queue S Side_BUY @ queue S Side_SELL)" by (rule mirrors_orders [OF mir])
  obtain i where i: "i \<in> set (queue S Side_BUY @ queue S Side_SELL)" "same_slot price (?d i)"
    using slot unfolding xs filter_empty_conv by auto
  then have "?d i \<in> set (filter (same_slot price) (x_orders X))" by (simp only: xs set_map set_filter) blast
  with own have pi: "o_price (?d i) = price" "o_side (?d i) = s" by blast+
  then have iq: "i \<in> set (queue S s)"
    using i(1) queue_order [OF rep, of Side_BUY i] queue_order [OF rep, of Side_SELL i] by auto
  obtain l os where lo: "(l, os) \<in> set (S s)" "qprice (orders_at_price_pool b) l = price" "os \<noteq> []"
    using slot_level [OF rep s iq pi(1)] .
  then show ?thesis using entriesI [of _ S s] s by blast
qed

text \<open>Resting in an exchange is joining a level in its book.\<close>

lemma rest_mirrors:
  fixes b c k tk s price qty io left b2
  defines "r \<equiv> accepted_response c k tk s price qty (next_market_order_id b)"
  assumes m: "matcher_gives_after r io f b left b2 rs us" and left: "left \<noteq> 0" and mir: "mirrors S b2 X"
    and s: "s \<in> {Side_BUY, Side_SELL}"
    and slot: "filter (same_slot price) (x_orders X) \<noteq> []"
    and own: "\<forall>x \<in> set (filter (same_slot price) (x_orders X)). o_price x = price \<and> o_side x = s"
    and key: "in_hash c k" "\<forall>x \<in> set (x_orders X). \<not> has_key c k x"
    and room: "\<not> x_blocks X \<le> Suc (length (x_orders X))"
    and rest: "exchange_rest c k tk s price (next_market_order_id b) left X = Inr (X', rs', us')"
  shows "\<exists>b' io' S'. add f c k tk s price qty b io = Inr (b', io') \<and> mirrors S' b' X' \<and>
    sent_messages (r # rs @ rs') (us @ us') io io'"
proof -
  let ?d = "pdata (order_pool b2)"
  have rep: "book_rep False b2 S" using mir by (simp add: mirrors_def)
  have xq: "x_queue X t = map ?d (queue S t)" if "t \<in> {Side_BUY, Side_SELL}" for t using that mir by (auto simp: mirrors_def)
  have xs: "x_orders X = map ?d (queue S Side_BUY @ queue S Side_SELL)" by (rule mirrors_orders [OF mir])
  obtain l os where lo: "(l, os) \<in> set (S s)" "qprice (orders_at_price_pool b2) l = price" "os \<noteq> []"
    using level_at_slot [OF mir s slot own] by blast
  have prio: "o_priority (last (filter (same_slot price) (x_queue X s))) = o_priority (?d (last os))"
    using slot_orders [OF rep s lo(1,2)] lo(3) xq [OF s] by (simp add: last_map)
  have fresh: "\<forall>j \<in> resting S. (o_client_id (?d j), o_client_order_id (?d j)) \<noteq> (c, k)"
    using key(2) by (auto simp: xs resting_queues has_key_def)
  have room': "Suc (card (live (order_pool b2))) < pool_size (order_pool b2)" using mirrors_full [OF mir] room by simp
  define x where "x = \<lparr>o_ticker_id = tk, o_client_id = c, o_client_order_id = k, o_market_order_id = next_market_order_id b,
      o_side = s, o_price = price, o_quantity = left, o_priority = o_priority (?d (last os)), prev_order = None, next_order = None\<rparr>"
  let ?u = "mkUpdate Upd_ADD (next_market_order_id b) tk s price left (o_priority (?d (last os)))"
  obtain b' io' j where a: "add f c k tk s price qty b io = Inr (b', io')" "j \<notin> resting S"
      "book_rep False b' (S(s := append_to l j (S s)))" "pdata (order_pool b') = ?d(j := x)"
      "sent_messages ([r] @ rs) (us @ [?u]) io io'" "accounted b2 S b' (S(s := append_to l j (S s)))"
    using add_joins_rep [OF m [unfolded r_def] left rep s lo(1,2) key(1) fresh room'] unfolding x_def r_def by blast
  have X': "X' = X\<lparr>x_queue := (x_queue X)(s := join_price x (x_queue X s))\<rparr>" "rs' = []" "us' = [?u]"
    using rest slot room by (auto simp: exchange_rest_def Let_def prio x_def)
  have p: "qprice (orders_at_price_pool b2) l = o_price x" using lo(2) by (simp add: x_def)
  note q = queue_append_to [OF rep s lo(1) p a(2) a(4)]
  have "x_queue X' t = map (pdata (order_pool b')) (queue (S(s := append_to l j (S s))) t)" if t: "t \<in> {Side_BUY, Side_SELL}" for t
    using q(1) q(2) [OF t] xq [OF s] xq [OF t] a(4) by (cases "t = s") (simp_all add: X'(1))
  moreover have "x_next X' = next_market_order_id b'"
    "x_blocks X' = pool_size (order_pool b')" "live (order_pool b') - resting (S(s := append_to l j (S s))) = {}"
    using mir a(6) by (simp_all add: X'(1) mirrors_def accounted_def)
  ultimately have "mirrors (S(s := append_to l j (S s))) b' X'" using a(3) by (simp add: mirrors_def)
  with a(1,5) X'(2,3) show ?thesis by auto
qed


lemma add_simulates_filled:
  fixes c k tk s price qty
  defines "r \<equiv> Add_order c k tk s price qty"
  assumes mir: "mirrors S b X" and s: "s \<in> {Side_BUY, Side_SELL}"
    and io1: "sendClientResponse (accepted_response c k tk s price qty (next_market_order_id b)) io = Inr io1"
    and fill: "F c k tk s price qty (draw_id X) = Inr (left, X1, rs0, us1)"
    and run: "\<exists>b2 io2 S2. M c k tk s price qty (snd (generateNewMarketOrderId b)) io1 = Inr (left, b2, io2) \<and>
      mirrors S2 b2 X1 \<and> sent_messages rs0 us1 io1 io2"
    and ok: "admissible F r X"
  shows "(exchange_request F r X = Inl g \<longrightarrow> handle_request M r (b, io) = Inl g) \<and>
    (exchange_request F r X = Inr (X', rs, us) \<longrightarrow>
     (\<exists>b' io' S'. handle_request M r (b, io) = Inr (b', io') \<and> mirrors S' b' X' \<and> sent_messages rs us io io'))"
proof -
  let ?m = "next_market_order_id b"
  let ?f = "M c k tk s price qty"
  let ?acc = "accepted_response c k tk s price qty ?m"
  obtain b2 io2 S2 where f: "?f (snd (generateNewMarketOrderId b)) io1 = Inr (left, b2, io2)"
      "mirrors S2 b2 X1" "sent_messages rs0 us1 io1 io2"
    using run by blast
  then have m: "matcher_gives_after ?acc io ?f b left b2 rs0 us1" using io1 by (simp add: matcher_gives_after_def)
  have nxt: "x_next X = ?m" using mir by (simp add: mirrors_def)
  have handle: "handle_request M r (b, io) = add ?f c k tk s price qty b io" by (simp add: r_def)
  have run: "exchange_request F r X = (if left = 0 then Inr (X1, ?acc # rs0, us1)
      else bnd (exchange_rest c k tk s price ?m left X1) (\<lambda>(X'', msgs'). Inr (X'', cat_messages (?acc # rs0, us1) msgs')))"
    by (simp add: r_def fill nxt)
  have own: "(\<forall>x \<in> set (filter (same_slot price) (x_orders X1)). o_price x = price \<and> o_side x = s) \<and> in_hash c k \<and>
      (\<forall>x \<in> set (x_orders X1). \<not> has_key c k x)" if "left \<noteq> 0" "filter (same_slot price) (x_orders X1) \<noteq> []"
    using ok that by (simp add: r_def fill Let_def)
  have rep2: "book_rep False b2 S2" using f(2) by (simp add: mirrors_def)
  have none: "getOrdersAtPrice price b2 = None \<longleftrightarrow> filter (same_slot price) (x_orders X1) = []"
    unfolding slot_None [OF rep2] mirrors_orders [OF f(2)] ..
  have "handle_request M r (b, io) = Inl g" if g: "exchange_request F r X = Inl g"
  proof -
    have left: "left \<noteq> 0" using g run by (auto split: if_splits)
    show ?thesis
    proof (cases "filter (same_slot price) (x_orders X1) = []")
      case True
      then show ?thesis using g run left add_after_match(1) [OF m left] none by (simp add: handle exchange_rest_def)
    next
      case False
      have "x_blocks X1 \<le> Suc (length (x_orders X1))" "g = Fatal ''MemPool out of space''"
        using g run left False by (auto simp: exchange_rest_def Let_def split: if_splits)
      then show ?thesis
        using level_at_slot [OF f(2) s False] own [OF left False] mirrors_full [OF f(2)] add_after_match(2) [OF m left rep2]
        by (metis handle)
    qed
  qed
  moreover have "\<exists>b' io' S'. handle_request M r (b, io) = Inr (b', io') \<and> mirrors S' b' X' \<and> sent_messages rs us io io'"
    if res: "exchange_request F r X = Inr (X', rs, us)"
  proof (cases "left = 0")
    case True
    then have e: "X' = X1" "rs = ?acc # rs0" "us = us1" using res run by auto
    from True m have "matcher_gives_after ?acc io ?f b 0 b2 rs0 us1" by simp
    from add_result_filled [OF this] f(2) show ?thesis unfolding e handle by blast
  next
    case left: False
    then obtain rs' us' where rest: "exchange_rest c k tk s price ?m left X1 = Inr (X', rs', us')"
        "rs = ?acc # rs0 @ rs'" "us = us1 @ us'"
      using res run by (auto simp: res_simps)
    then have "filter (same_slot price) (x_orders X1) \<noteq> []" "\<not> x_blocks X1 \<le> Suc (length (x_orders X1))"
      by (auto simp: exchange_rest_def split: if_splits)
    then show ?thesis
      using rest_mirrors [OF m left f(2) s _ _ _ _ _ rest(1)] own [OF left] rest(2,3) by (simp add: handle)
  qed
  ultimately show ?thesis by blast
qed

lemma add_simulates:
  fixes c k tk s price qty
  defines "r \<equiv> Add_order c k tk s price qty"
  assumes M: "matches_as M F" and mir: "mirrors S b X" and ok: "admissible F r X"
  shows "exchange_request F r X = Inl g \<Longrightarrow> handle_request M r (b, io) = Inl g"
    "exchange_request F r X = Inr (X', rs, us) \<Longrightarrow>
     \<exists>b' io' S'. handle_request M r (b, io) = Inr (b', io') \<and> mirrors S' b' X' \<and> sent_messages rs us io io'"
proof -
  let ?m = "next_market_order_id b"
  let ?f = "M c k tk s price qty"
  let ?acc = "accepted_response c k tk s price qty ?m"
  have s: "s \<in> {Side_BUY, Side_SELL}" using ok by (simp add: r_def)
  have nxt: "x_next X = ?m" using mir by (simp add: mirrors_def)
  have handle: "handle_request M r (b, io) = add ?f c k tk s price qty b io" by (simp add: r_def)
  obtain io1 where io1: "sendClientResponse ?acc io = Inr io1" using sendClientResponse_sends by metis
  note contract = matches_asD [OF M mirrors_generate [OF mir] s, of c k tk price qty]
  have "(exchange_request F r X = Inl g \<longrightarrow> handle_request M r (b, io) = Inl g) \<and>
    (exchange_request F r X = Inr (X', rs, us) \<longrightarrow>
     (\<exists>b' io' S'. handle_request M r (b, io) = Inr (b', io') \<and> mirrors S' b' X' \<and> sent_messages rs us io io'))"
  proof (cases "F c k tk s price qty (draw_id X)")
    case (Inl h)
    from contract(1) [OF Inl, of io1] have "add ?f c k tk s price qty b io = Inl h"
      using io1 [unfolded accepted_response_def] by (simp add: add_def generateNewMarketOrderId_def)
    then show ?thesis by (simp add: handle) (simp add: r_def Inl)
  next
    case (Inr res)
    then obtain left X1 rs0 us1 where fill: "F c k tk s price qty (draw_id X) = Inr (left, X1, rs0, us1)" by (cases res) auto
    from add_simulates_filled [where F = F and M = M, OF mir s io1 fill contract(2) [OF fill, of io1] ok [unfolded r_def]]
    show ?thesis unfolding r_def by blast
  qed
  then show "exchange_request F r X = Inl g \<Longrightarrow> handle_request M r (b, io) = Inl g"
    "exchange_request F r X = Inr (X', rs, us) \<Longrightarrow>
     \<exists>b' io' S'. handle_request M r (b, io) = Inr (b', io') \<and> mirrors S' b' X' \<and> sent_messages rs us io io'"
    by blast+
qed

text \<open>Two orders that rest do not share their ids.\<close>

lemma resting_key:
  "book_rep False b S \<Longrightarrow> i \<in> resting S \<Longrightarrow> j \<in> resting S \<Longrightarrow>
   has_key (o_client_id (pdata (order_pool b) i)) (o_client_order_id (pdata (order_pool b) i)) (pdata (order_pool b) j) \<longleftrightarrow> j = i"
proof -
  assume rep: "book_rep False b S" and i: "i \<in> resting S" "j \<in> resting S"
  have h: "in_hash (o_client_id (pdata (order_pool b) i)) (o_client_order_id (pdata (order_pool b) i))"
    using resting_bound [OF rep i(1)] by simp
  show ?thesis using hash_lookup [OF rep h, of i] hash_lookup [OF rep h, of j] i by (auto simp: has_key_def)
qed

text \<open>Cancelling an order the exchange does not hold, and one it does.\<close>

lemma cancel_unknown:
  assumes mir: "mirrors S b X" and none: "filter (has_key c k) (x_orders X) = []"
  shows "if unat c < ME_MAX_NUM_CLIENTS \<and> \<not> unat k < ME_MAX_ORDER_IDS then cancel c k tk b io = Inl Out_of_range
     else \<exists>b' io'. cancel c k tk b io = Inr (b', io') \<and> mirrors S b' X \<and> sent_messages [rejected_response c k tk] [] io io'"
proof -
  have rep: "book_rep False b S" using mir by (simp add: mirrors_def)
  have "(o_client_id (pdata (order_pool b) i), o_client_order_id (pdata (order_pool b) i)) \<noteq> (c, k)" if "i \<in> resting S" for i
    using none that by (auto simp: mirrors_orders [OF mir] filter_empty_conv resting_queues has_key_def)
  note miss = cancel_miss [OF rep this, where tk = tk and io = io]
  show ?thesis
  proof (cases "unat c < ME_MAX_NUM_CLIENTS \<and> \<not> unat k < ME_MAX_ORDER_IDS")
    case True
    with miss show ?thesis by simp
  next
    case False
    with miss obtain b' io' where "cancel c k tk b io = Inr (b', io')" "book_rep False b' S" "order_pool b' = order_pool b"
      "sent_messages [rejected_response c k tk] [] io io'" "accounted b S b' S"
      by auto
    with False mir show ?thesis by (simp add: mirrors_def accounted_def)
  qed
qed

lemma cancel_known:
  assumes mir: "mirrors S b X" and i: "i \<in> resting S" and k: "has_key c k (pdata (order_pool b) i)"
  shows "\<exists>b' io' S'. cancel c k tk b io = Inr (b', io') \<and>
    mirrors S' b' (X\<lparr>x_queue := \<lambda>s. filter (\<lambda>y. \<not> has_key c k y) (x_queue X s)\<rparr>) \<and>
    sent_messages [canceled_response tk (pdata (order_pool b) i)] [canceled_update tk (pdata (order_pool b) i)] io io'"
proof -
  let ?d = "pdata (order_pool b)"
  have rep: "book_rep False b S" using mir by (simp add: mirrors_def)
  have ck: "c = o_client_id (?d i)" "k = o_client_order_id (?d i)" using k by (simp_all add: has_key_def)
  obtain b' io' where c: "cancel c k tk b io = Inr (b', io')" "book_rep False b' (\<lambda>t. remove_from i (S t))"
      "pdata (order_pool b') = ?d" "sent_messages [canceled_response tk (?d i)] [canceled_update tk (?d i)] io io'"
      "accounted b S b' (\<lambda>t. remove_from i (S t))"
    using cancel_hit [OF rep i, of tk io] unfolding ck by blast
  have "map ?d (queue (\<lambda>t. remove_from i (S t)) s) = filter (\<lambda>y. \<not> has_key c k y) (map ?d (queue S s))"
    if s: "s \<in> {Side_BUY, Side_SELL}" for s
  proof -
    have "j \<noteq> i \<longleftrightarrow> \<not> has_key c k (?d j)" if "j \<in> set (queue S s)" for j
      using resting_key [OF rep i, of j] that s unfolding ck by (auto simp: resting_queues)
    then show ?thesis unfolding queue_remove [OF rep s] filter_map by (simp cong: filter_cong)
  qed
  then have "mirrors (\<lambda>t. remove_from i (S t)) b' (X\<lparr>x_queue := \<lambda>s. filter (\<lambda>y. \<not> has_key c k y) (x_queue X s)\<rparr>)"
    using c(2,3,5) mir by (simp add: mirrors_def accounted_def)
  with c(1,4) show ?thesis by blast
qed

lemma cancel_simulates:
  fixes c k tk
  defines "r \<equiv> Cancel_order c k tk"
  assumes mir: "mirrors S b X"
  shows "exchange_request F r X = Inl g \<Longrightarrow> handle_request M r (b, io) = Inl g"
    "exchange_request F r X = Inr (X', rs, us) \<Longrightarrow>
     \<exists>b' io' S'. handle_request M r (b, io) = Inr (b', io') \<and> mirrors S' b' X' \<and> sent_messages rs us io io'"
proof -
  let ?d = "pdata (order_pool b)"
  have known: "\<exists>i. x = ?d i \<and> i \<in> resting S \<and> has_key c k x \<and> exchange_request F r X =
      Inr (X\<lparr>x_queue := \<lambda>s. filter (\<lambda>y. \<not> has_key c k y) (x_queue X s)\<rparr>, [canceled_response tk x], [canceled_update tk x])"
    if cons: "filter (has_key c k) (x_orders X) = x # ys" for x ys
  proof -
    have x: "x \<in> set (x_orders X)" "has_key c k x" using cons by (metis filter_is_subset list.set_intros(1) subsetD, metis filter_eq_ConsD)
    then obtain i where i: "x = ?d i" "i \<in> resting S" by (auto simp: mirrors_orders [OF mir] resting_queues)
    then have "in_hash c k" using resting_bound [of False b S i] x(2) mir by (simp add: mirrors_def has_key_def)
    with cons i x(2) show ?thesis by (auto simp: r_def in_hash_def)
  qed
  show "handle_request M r (b, io) = Inl g" if g: "exchange_request F r X = Inl g"
  proof (cases "filter (has_key c k) (x_orders X)")
    case Nil
    with cancel_unknown [OF mir Nil, of tk io] g show ?thesis by (simp add: r_def split: if_splits)
  next
    case (Cons x ys)
    with known [OF Cons] g show ?thesis by auto
  qed
  show "\<exists>b' io' S'. handle_request M r (b, io) = Inr (b', io') \<and> mirrors S' b' X' \<and> sent_messages rs us io io'"
    if res: "exchange_request F r X = Inr (X', rs, us)"
  proof (cases "filter (has_key c k) (x_orders X)")
    case Nil
    with cancel_unknown [OF mir Nil, of tk io] res show ?thesis by (auto simp: r_def split: if_splits)
  next
    case (Cons x ys)
    from known [OF Cons] res obtain i where i: "i \<in> resting S" "has_key c k (?d i)"
      "X' = X\<lparr>x_queue := \<lambda>s. filter (\<lambda>y. \<not> has_key c k y) (x_queue X s)\<rparr>"
      "rs = [canceled_response tk (?d i)]" "us = [canceled_update tk (?d i)]"
      by auto
    with cancel_known [OF mir i(1,2), of tk io] show ?thesis by (simp add: r_def)
  qed
qed

subsection \<open>Runs\<close>

interpretation exch: simulation "exchange_request F" "handle_request M" "\<lambda>X c. matches_as M F \<and> represents X c"
  "admissible F" sends "([], [])" cat_messages for M F
proof unfold_locales
  fix X r g and c :: "MEOrderBook \<times> EngineIO"
  assume a: "matches_as M F \<and> represents X c" "admissible F r X" "exchange_request F r X = Inl g"
  then show "handle_request M r c = Inl g"
    by (cases r) (auto simp: represents_def simp del: exchange_request.simps handle_request.simps admissible.simps
        intro: add_simulates(1) cancel_simulates(1))
next
  fix X r X' x and c :: "MEOrderBook \<times> EngineIO"
  assume a: "matches_as M F \<and> represents X c" "admissible F r X" "exchange_request F r X = Inr (X', x)"
  obtain b io S where c: "c = (b, io)" "mirrors S b X" using a(1) by (cases c) (auto simp: represents_def)
  obtain rs us where x: "x = (rs, us)" by (cases x)
  have "\<exists>b' io' S'. handle_request M r (b, io) = Inr (b', io') \<and> mirrors S' b' X' \<and> sent_messages rs us io io'"
  proof (cases r)
    case Add_order
    then show ?thesis using add_simulates(2) [OF conjunct1 [OF a(1)] c(2)] a(2,3) x by blast
  next
    case Cancel_order
    then show ?thesis using cancel_simulates(2) [OF c(2)] a(3) x by blast
  qed
  then show "\<exists>c'. handle_request M r c = Inr c' \<and> (matches_as M F \<and> represents X' c') \<and> sends x c c'"
    using a(1) by (auto simp: c(1) x represents_def sends_def)
next
  show "sends ([], []) c c" for c by (cases c) (simp add: sends_def)
  show "sends (cat_messages x y) c c''" if "sends x c c'" "sends y c' c''" for x y c c' c''
    using that sent_messages_trans by (cases x; cases y; cases c; cases c'; cases c'') (auto simp: sends_def)
qed

text \<open>The exchange a well-formed book represents.\<close>

definition book_view :: "shape \<Rightarrow> MEOrderBook \<Rightarrow> exchange" where
  "book_view S b = \<lparr>x_queue = (\<lambda>s. map (pdata (order_pool b)) (queue S s)), x_next = next_market_order_id b,
     x_blocks = pool_size (order_pool b)\<rparr>"

lemma mirrors_view: "book_rep False b S \<Longrightarrow> live (order_pool b) = resting S \<Longrightarrow> mirrors S b (book_view S b)"
  by (simp add: mirrors_def book_view_def)

lemma book_simulates_run:
  assumes M: "matches_as M F" and "book_rep False b S" "live (order_pool b) = resting S"
    and "ok_run (exchange_request F) (admissible F) requests (book_view S b)"
  shows "case spec_run (exchange_request F) ([], []) cat_messages requests (book_view S b) of
      Inl g \<Rightarrow> impl_run (handle_request M) requests (b, io) = Inl g
    | Inr (X, rs, us) \<Rightarrow> \<exists>b' io'. impl_run (handle_request M) requests (b, io) = Inr (b', io') \<and>
        represents X (b', io') \<and> sent_messages rs us io io'"
proof -
  have rel: "matches_as M F \<and> represents (book_view S b) (b, io)"
    using M mirrors_view [OF assms(2,3)] by (auto simp: represents_def)
  show ?thesis
  proof (cases "spec_run (exchange_request F) ([], []) cat_messages requests (book_view S b)")
    case (Inl g)
    then show ?thesis using exch.run_fault [OF rel assms(4)] by simp
  next
    case (Inr Xo)
    then obtain X rs us where "spec_run (exchange_request F) ([], []) cat_messages requests (book_view S b) = Inr (X, rs, us)"
      by (cases Xo) auto
    with exch.run_result [OF rel assms(4) this] show ?thesis by (auto simp: sends_def)
  qed
qed

text \<open>
  C1: the order book implements the exchange, given what it needs. The book is well formed and
  every block in use holds a resting order. The missing \<open>checkForMatch()\<close> is any matcher \<open>M\<close> whose
  effect on a represented book is that of some \<open>F\<close> on the two lists of the exchange (the overload
  with seven arguments is one, for \<open>exchange_fill\<close>). The requests, adds and cancels in any order,
  are admissible where they are made: an add names a side, and if it comes to rest in a price slot
  in use, the orders there are of its price and side (prices 256 apart share a slot), and its ids
  are inside the tables and not those of a resting order. Then the run ends in the same fault as
  the exchange with \<open>F\<close>, or in a book that represents the state this exchange reaches, with exactly
  its responses and its market updates sent, in its order.
\<close>

theorem book_simulates_exchange:
  assumes "matches_as M F" "book_rep False b S" "live (order_pool b) = resting S"
    and "ok_run (exchange_request F) (admissible F) requests (book_view S b)"
  shows "case spec_run (exchange_request F) ([], []) cat_messages requests (book_view S b) of
      Inl g \<Rightarrow> impl_run (handle_request M) requests (b, io) = Inl g
    | Inr (X, rs, us) \<Rightarrow> \<exists>b' io'. impl_run (handle_request M) requests (b, io) = Inr (b', io') \<and>
        represents X (b', io') \<and> sent_messages rs us io io'"
  by (rule book_simulates_run [OF assms])

text \<open>Four requests to the example book: a buy that fills one order and part of the next, a sell that rests, a cancel, and the cancel again.\<close>

definition example_exchange :: exchange where
  "example_exchange = \<lparr>x_queue = (\<lambda>s. if s = Side_BUY then [strip (example_order 3 Side_BUY 99 4 3 3)]
      else [strip (example_order 0 Side_SELL 100 10 1 1), strip (example_order 1 Side_SELL 100 5 0 0),
        strip (example_order 2 Side_SELL 101 7 2 2)]), x_next = 1, x_blocks = 6\<rparr>"

definition example_requests :: "book_request list" where
  "example_requests = [Add_order 2 9 0 Side_BUY 100 12, Add_order 2 9 0 Side_SELL 101 3, Cancel_order 1 1 0,
     Cancel_order 1 1 0]"

lemma example_view: "book_view example_shape example_book = example_exchange"
proof -
  have q: "queue example_shape s = (if s = Side_BUY then [3] else [0, 1, 2])" for s
    by (simp add: queue_def example_shape_def)
  have "next_market_order_id example_book = 1" by (simp add: example_book_def newMEOrderBook_def)
  then show ?thesis
    unfolding book_view_def example_exchange_def by (auto simp: q pdata_def fun_eq_iff)
qed

lemmas exchange_evaluation = example_requests_def example_exchange_def exchange_fill_def exchange_rest_def x_orders_def
  opposite_def no_cross_def example_order_def strip_def fill_responses_def fill_updates_def with_fill_def same_slot_def
  has_key_def priceToIndex_def in_hash_def ME_MAX_NUM_CLIENTS_def ME_MAX_ORDER_IDS_def ME_MAX_PRICE_LEVELS_def
  accepted_response_def draw_id_def

lemma example_admitted: "ok_run (exchange_request exchange_fill) (admissible exchange_fill) example_requests example_exchange"
  by (auto simp: exchange_evaluation)

lemma example_live: "live (order_pool example_book) = resting example_shape"
  by (auto simp: example_resting)

theorem book_simulates_exchange_witness:
  "\<exists>b' io'. impl_run (handle_request overload) example_requests (example_book, example_io) = Inr (b', io') \<and>
     sent_messages
      [mkResponse Resp_ACCEPTED 2 0 9 1 Side_BUY 100 0 12, mkResponse Resp_FILLED 2 0 9 1 Side_BUY 100 10 2,
       mkResponse Resp_FILLED 1 0 0 10 Side_SELL 100 10 0, mkResponse Resp_FILLED 2 0 9 1 Side_BUY 100 2 0,
       mkResponse Resp_FILLED 1 0 1 11 Side_SELL 100 2 3, mkResponse Resp_ACCEPTED 2 0 9 2 Side_SELL 101 0 3,
       canceled_response 0 (with_fill (strip (example_order 1 Side_SELL 100 5 0 0)) 2), rejected_response 1 1 0]
      [mkUpdate Upd_TRADE OrderId_INVALID 0 Side_BUY 100 10 Priority_INVALID,
       mkUpdate Upd_CANCEL 10 0 Side_SELL 100 10 Priority_INVALID,
       mkUpdate Upd_TRADE OrderId_INVALID 0 Side_BUY 100 2 Priority_INVALID, mkUpdate Upd_MODIFY 11 0 Side_SELL 100 3 1,
       mkUpdate Upd_ADD 2 0 Side_SELL 101 3 1,
       canceled_update 0 (with_fill (strip (example_order 1 Side_SELL 100 5 0 0)) 2)] example_io io'"
  (is "\<exists>b' io'. _ \<and> sent_messages ?rs ?us _ _")
proof -
  have "\<exists>X. spec_run (exchange_request exchange_fill) ([], []) cat_messages example_requests example_exchange = Inr (X, ?rs, ?us)"
    by (simp add: exchange_evaluation)
  then obtain X where X: "spec_run (exchange_request exchange_fill) ([], []) cat_messages example_requests example_exchange = Inr (X, ?rs, ?us)" ..
  from book_simulates_exchange [OF overload_matches example_rep _, of example_requests example_io, unfolded example_view, OF _ example_admitted]
    example_live
  show ?thesis unfolding X by auto
qed

subsection \<open>A new book\<close>

text \<open>
  A book without orders, and the contract of a matcher on it: there is nothing to match, so it
  returns some quantity, leaves the book without orders and sends nothing.
\<close>

definition empty_book :: "MEOrderBook \<Rightarrow> bool" where
  "empty_book b \<longleftrightarrow> book_rep False b (\<lambda>_. []) \<and> live (order_pool b) = {}"

definition quiet_on_empty :: "matcher \<Rightarrow> bool" where
  "quiet_on_empty M \<longleftrightarrow> (\<forall>c k tk s price qty b io. empty_book b \<longrightarrow>
     (\<exists>left b' io'. M c k tk s price qty b io = Inr (left, b', io') \<and> empty_book b' \<and> sent_messages [] [] io io'))"

lemma overload_quiet: "quiet_on_empty overload"
proof -
  have "overload c k tk s price qty b io = Inr (qty, b, io)" if e: "empty_book b" for c k tk s price qty b io
  proof -
    have "opposite_best s b = None"
      using book_rep_side [of False b "\<lambda>_. []"] e
      by (simp add: empty_book_def opposite_best_def side_ring_def head_of_def) (metis insertCI Side.distinct(7))
    then show ?thesis by (simp add: overload_def checkForMatch_def match_loop.simps)
  qed
  then show ?thesis by (simp add: quiet_on_empty_def)
qed

lemma empty_generate: "empty_book b \<Longrightarrow> empty_book (snd (generateNewMarketOrderId b))"
  using book_rep_data [of False b "\<lambda>_. []" "snd (generateNewMarketOrderId b)"]
  by (simp add: empty_book_def generateNewMarketOrderId_def book_rep_def)

text \<open>One request to a book without orders.\<close>

lemma empty_add:
  assumes M: "quiet_on_empty M" and b: "empty_book b"
  shows "case add (M c k tk s price qty) c k tk s price qty b io of Inl g \<Rightarrow> g = Null_deref
    | Inr (b', io') \<Rightarrow> empty_book b' \<and> sent_messages [accepted_response c k tk s price qty (next_market_order_id b)] [] io io'"
proof -
  let ?r = "accepted_response c k tk s price qty (next_market_order_id b)"
  define b1 where "b1 = snd (generateNewMarketOrderId b)"
  have gen: "generateNewMarketOrderId b = (next_market_order_id b, b1)"
    by (simp add: generateNewMarketOrderId_def b1_def)
  obtain io1 where io1: "sendClientResponse ?r io = Inr io1" "sent_messages [?r] [] io io1"
    using sendClientResponse_sends by metis
  have "empty_book b1" unfolding b1_def by (rule empty_generate [OF b])
  then obtain left b2 io2 where m: "M c k tk s price qty b1 io1 = Inr (left, b2, io2)" "empty_book b2" "sent_messages [] [] io1 io2"
    using M unfolding quiet_on_empty_def by blast
  have "getOrdersAtPrice price b2 = None" using m(2) empty_slots by (auto simp: empty_book_def)
  then have "add (M c k tk s price qty) c k tk s price qty b io = (if left = 0 then Inr (b2, io2) else Inl Null_deref)"
    using gen io1(1) [unfolded accepted_response_def] m(1) by (simp add: add_def getNextPriority_def)
  with m(2) sent_messages_trans [OF io1(2) m(3)] show ?thesis by simp
qed

lemma empty_cancel:
  assumes "empty_book b"
  shows "case cancel c k tk b io of Inl g \<Rightarrow> g = Out_of_range
    | Inr (b', io') \<Rightarrow> empty_book b' \<and> sent_messages [rejected_response c k tk] [] io io'"
proof -
  have rep: "book_rep False b (\<lambda>_. [])" and live: "live (order_pool b) = {}" using assms by (simp_all add: empty_book_def)
  have no: "i \<notin> resting (\<lambda>_. [])" for i by (simp add: resting_def entries_def)
  note miss = cancel_miss [OF rep, of c k tk io]
  show ?thesis
  proof (cases "unat c < ME_MAX_NUM_CLIENTS \<and> \<not> unat k < ME_MAX_ORDER_IDS")
    case True
    with miss no show ?thesis by simp
  next
    case False
    with miss no obtain b' io' where "cancel c k tk b io = Inr (b', io')" "book_rep False b' (\<lambda>_. [])"
      "order_pool b' = order_pool b" "sent_messages [rejected_response c k tk] [] io io'" by auto
    with live show ?thesis by (simp add: empty_book_def)
  qed
qed

lemma empty_requests:
  assumes M: "quiet_on_empty M"
  shows "empty_book b \<Longrightarrow> case impl_run (handle_request M) requests (b, io) of Inl g \<Rightarrow> g \<in> {Null_deref, Out_of_range}
    | Inr (b', io') \<Rightarrow> empty_book b' \<and> (\<exists>rs. sent_messages rs [] io io' \<and> length rs = length requests \<and>
        (\<forall>x \<in> set rs. rs_type x \<in> {Resp_ACCEPTED, Resp_CANCEL_REJECTED}))"
proof (induction requests arbitrary: b io)
  case (Cons r requests)
  have step: "case handle_request M r (b, io) of Inl g \<Rightarrow> g \<in> {Null_deref, Out_of_range}
    | Inr (b', io') \<Rightarrow> empty_book b' \<and>
        (\<exists>x. sent_messages [x] [] io io' \<and> rs_type x \<in> {Resp_ACCEPTED, Resp_CANCEL_REJECTED})"
  proof (cases r)
    case (Add_order c k tk s price qty)
    from empty_add [OF M Cons.prems, of c k tk s price qty io] show ?thesis
      by (auto simp: Add_order accepted_response_def mkResponse_def split: sum.splits)
  next
    case (Cancel_order c k tk)
    from empty_cancel [OF Cons.prems, of c k tk io] show ?thesis
      by (auto simp: Cancel_order rejected_response_def mkResponse_def split: sum.splits)
  qed
  show ?case
  proof (cases "handle_request M r (b, io)")
    case (Inl g)
    with step show ?thesis by simp
  next
    case (Inr res)
    then obtain b1 io1 x where 1: "handle_request M r (b, io) = Inr (b1, io1)" "empty_book b1" "sent_messages [x] [] io io1"
      "rs_type x \<in> {Resp_ACCEPTED, Resp_CANCEL_REJECTED}"
      using step by (cases res) auto
    have more: "\<exists>rs. sent_messages rs [] io io' \<and> length rs = Suc (length requests) \<and>
        (\<forall>x \<in> set rs. rs_type x \<in> {Resp_ACCEPTED, Resp_CANCEL_REJECTED})"
      if "sent_messages rs [] io1 io'" "length rs = length requests"
        "\<forall>x \<in> set rs. rs_type x \<in> {Resp_ACCEPTED, Resp_CANCEL_REJECTED}" for rs io'
      using sent_messages_trans [OF 1(3) that(1)] that(2,3) 1(4) by (intro exI [of _ "[x] @ rs"]) simp
    from Cons.IH [OF 1(2), of io1] more show ?thesis by (auto simp: 1(1) split: sum.splits)
  qed
qed simp

text \<open>
  C11: no order ever comes to rest in a book that starts with its two pointer arrays cleared (the
  constructor does not clear them). Let the missing \<open>checkForMatch()\<close> be any function that on a
  book without orders returns some quantity, leaves the book without orders and sends nothing, as
  the overload with seven arguments does. Whatever adds and cancels the book is given, in whatever
  order, the run ends in a null dereference (the first add left with a quantity) or an exception
  (a cancel with an order number beyond the table), or the book still holds no order, no market
  update was sent, and each request was answered by one response, ACCEPTED or CANCEL_REJECTED.
\<close>

theorem book_never_rests:
  assumes "quiet_on_empty M"
  shows "case impl_run (handle_request M) requests (newMEOrderBook (\<lambda>_ _. None) (\<lambda>_. None) tk, io) of
      Inl g \<Rightarrow> g \<in> {Null_deref, Out_of_range}
    | Inr (b', io') \<Rightarrow> live (order_pool b') = {} \<and>
        (\<exists>rs. sent_messages rs [] io io' \<and> length rs = length requests \<and>
           (\<forall>x \<in> set rs. rs_type x \<in> {Resp_ACCEPTED, Resp_CANCEL_REJECTED}))"
proof -
  have "empty_book (newMEOrderBook (\<lambda>_ _. None) (\<lambda>_. None) tk)"
    by (simp add: empty_book_def book_rep_new) (simp add: newMEOrderBook_def live_new_pool)
  from empty_requests [where requests = requests and io = io, OF assms this] show ?thesis by (auto simp: empty_book_def split: sum.splits)
qed

theorem book_never_rests_witness:
  "case impl_run (handle_request overload) [Cancel_order 2 9 0, Add_order 2 9 0 Side_INVALID 100 0]
      (newMEOrderBook (\<lambda>_ _. None) (\<lambda>_. None) 0, example_io) of
     Inl g \<Rightarrow> g \<in> {Null_deref, Out_of_range}
   | Inr (b', io') \<Rightarrow> live (order_pool b') = {} \<and>
       (\<exists>rs. sent_messages rs [] example_io io' \<and> length rs = 2 \<and>
         list_all (\<lambda>x. rs_type x \<in> {Resp_ACCEPTED, Resp_CANCEL_REJECTED}) rs)"
  using book_never_rests [OF overload_quiet, where requests = "[Cancel_order 2 9 0, Add_order 2 9 0 Side_INVALID 100 0]" and tk = 0 and io = example_io]
  by (auto simp: list_all_iff numeral_2_eq_2 split: sum.splits simp del: handle_request.simps impl_run.simps)

end
