(* ===== verification/Book_Order.thy ===== *)
theory Book_Order
  imports Book_Exchange
begin

text \<open>
  What holds of the prices in a book over whole runs: the orders of a side stay in the order of
  their prices, best first, and no resting buy order ever meets the price of a resting sell
  order. Both are shown of the exchange of Book_Exchange, which the book simulates.
\<close>

text \<open>\<open>at_least s p p'\<close>: on side \<open>s\<close> price \<open>p\<close> is as good for the other side as \<open>p'\<close>.\<close>

definition at_least :: "Side \<Rightarrow> Price \<Rightarrow> Price \<Rightarrow> bool" where
  "at_least s p p' \<longleftrightarrow> (if s = Side_BUY then sint p' \<le> sint p else sint p \<le> sint p')"

definition sorted_side :: "Side \<Rightarrow> MEOrder list \<Rightarrow> bool" where
  "sorted_side s xs \<longleftrightarrow> sorted_wrt (\<lambda>x y. at_least s (o_price x) (o_price y)) xs \<and> (\<forall>x \<in> set xs. o_side x = s)"

definition uncrossed :: "exchange \<Rightarrow> bool" where
  "uncrossed X \<longleftrightarrow> (\<forall>x \<in> set (x_queue X Side_BUY). \<forall>y \<in> set (x_queue X Side_SELL). sint (o_price x) < sint (o_price y))"

definition orderly :: "exchange \<Rightarrow> bool" where
  "orderly X \<longleftrightarrow> (\<forall>s \<in> {Side_BUY, Side_SELL}. sorted_side s (x_queue X s)) \<and> uncrossed X"

lemma orderly_sorted: "orderly X \<Longrightarrow> s \<in> {Side_BUY, Side_SELL} \<Longrightarrow> sorted_side s (x_queue X s)"
  by (auto simp: orderly_def)

lemma at_least_refl [simp]: "at_least s p p"
  and at_least_trans: "at_least s p q \<Longrightarrow> at_least s q r \<Longrightarrow> at_least s p r"
  by (auto simp: at_least_def split: if_splits)

lemma no_cross_weaker: "no_cross s price p \<Longrightarrow> at_least (opposite s) p q \<Longrightarrow> no_cross s price q"
  by (auto simp: no_cross_def at_least_def opposite_def split: if_splits)

text \<open>The orders on the two sides only ever lose members of their price and side, or gain one.\<close>

definition prices_from :: "MEOrder list \<Rightarrow> MEOrder list \<Rightarrow> bool" where
  "prices_from xs ys \<longleftrightarrow> (\<lambda>x. (o_price x, o_side x)) ` set ys \<subseteq> (\<lambda>x. (o_price x, o_side x)) ` set xs"

lemma uncrossed_less:
  assumes "uncrossed X" "\<And>s. s \<in> {Side_BUY, Side_SELL} \<Longrightarrow> prices_from (x_queue X s) (x_queue X' s)"
  shows "uncrossed X'"
proof -
  have "\<exists>x' \<in> set (x_queue X s). o_price x' = o_price x" if "s \<in> {Side_BUY, Side_SELL}" "x \<in> set (x_queue X' s)" for s x
    using assms(2) [OF that(1)] that(2) by (fastforce simp: prices_from_def)
  then show ?thesis using assms(1) unfolding uncrossed_def by (metis insertCI)
qed

subsection \<open>Filling\<close>

lemma fill_sorted:
  "fill_queue c k tk side price m q xs = (left, rest, msgs) \<Longrightarrow> sorted_side s xs \<Longrightarrow>
   sorted_side s rest \<and> prices_from xs rest"
proof (induction c k tk side price m q xs arbitrary: left rest msgs rule: fill_queue.induct)
  case (2 c k tk side price m q x xs)
  let ?f = "min q (o_quantity x)"
  show ?case
  proof (cases "q = 0 \<or> no_cross side price (o_price x)")
    case True
    with "2.prems" show ?thesis by (auto simp: prices_from_def)
  next
    case cross: False
    show ?thesis
    proof (cases "o_quantity x - ?f = 0")
      case True
      obtain l r ms where f: "fill_queue c k tk side price m (q - ?f) xs = (l, r, ms)" by (metis prod_cases3)
      with cross True "2.prems"(1) have "rest = r" by (simp add: Let_def)
      moreover have "sorted_side s xs" using "2.prems"(2) by (simp add: sorted_side_def)
      ultimately show ?thesis
        using "2.IH" [OF cross refl] f True by (auto simp: prices_from_def)
    next
      case False
      with cross "2.prems" show ?thesis by (auto simp: Let_def sorted_side_def prices_from_def with_fill_def)
    qed
  qed
qed (simp add: prices_from_def)

lemma fill_stops:
  "fill_queue c k tk side price m q xs = (left, rest, msgs) \<Longrightarrow> left \<noteq> 0 \<Longrightarrow> sorted_side (opposite side) xs \<Longrightarrow>
   \<forall>x \<in> set rest. no_cross side price (o_price x)"
proof (induction c k tk side price m q xs arbitrary: left rest msgs rule: fill_queue.induct)
  case (2 c k tk side price m q x xs)
  let ?f = "min q (o_quantity x)"
  show ?case
  proof (cases "q = 0 \<or> no_cross side price (o_price x)")
    case True
    with "2.prems" have r: "rest = x # xs" "no_cross side price (o_price x)" by auto
    with "2.prems"(3) no_cross_weaker show ?thesis by (auto simp: sorted_side_def)
  next
    case cross: False
    obtain l r ms where f: "fill_queue c k tk side price m (q - ?f) xs = (l, r, ms)" by (metis prod_cases3)
    show ?thesis
    proof (cases "o_quantity x - ?f = 0")
      case True
      with cross f "2.prems"(1) have "rest = r" "left = l" by (simp_all add: Let_def)
      moreover have "sorted_side (opposite side) xs" using "2.prems"(3) by (simp add: sorted_side_def)
      ultimately show ?thesis using "2.IH" [OF cross refl] f True "2.prems"(2) by auto
    next
      case False
      with cross "2.prems"(1) have "left = q - ?f" by (simp add: Let_def)
      moreover have "?f = q" using False by (auto simp: min_def)
      ultimately show ?thesis using "2.prems"(2) by simp
    qed
  qed
qed simp

lemma exchange_fill_orderly:
  assumes X: "orderly X" and s: "s \<in> {Side_BUY, Side_SELL}" and f: "exchange_fill c k tk s price qty X = Inr (left, X', msgs)"
  shows "orderly X' \<and> (left \<noteq> 0 \<longrightarrow> (\<forall>x \<in> set (x_queue X' (opposite s)). no_cross s price (o_price x)))"
proof -
  obtain rest ms where q: "fill_queue c k tk s price (x_next X - 1) qty (x_queue X (opposite s)) = (left, rest, ms)"
      "x_queue X' = (x_queue X)(opposite s := rest)"
    using f by (auto simp: exchange_fill_def split: prod.splits)
  have sorted: "sorted_side t (x_queue X t)" if "t \<in> {Side_BUY, Side_SELL}" for t by (rule orderly_sorted [OF X that])
  note r = fill_sorted [OF q(1) sorted [OF opposite_sides(1)]]
  have "sorted_side t (x_queue X' t)" if "t \<in> {Side_BUY, Side_SELL}" for t using r sorted [OF that] by (simp add: q(2))
  moreover have "prices_from (x_queue X t) (x_queue X' t)" for t using r by (simp add: q(2) prices_from_def)
  then have "uncrossed X'" using X uncrossed_less [of X X'] by (simp add: orderly_def)
  ultimately show ?thesis
    using fill_stops [OF q(1) _ sorted [OF opposite_sides(1)]] by (auto simp: orderly_def q(2))
qed

text \<open>
  What a matcher must be besides its contract: it keeps the exchange in order, and when it leaves
  a quantity, it leaves no order that quantity could still trade with.
\<close>

definition fills_orderly :: "fills \<Rightarrow> bool" where
  "fills_orderly F \<longleftrightarrow> (\<forall>c k tk s price qty X left X' msgs. orderly X \<longrightarrow> s \<in> {Side_BUY, Side_SELL} \<longrightarrow>
     F c k tk s price qty X = Inr (left, X', msgs) \<longrightarrow>
     orderly X' \<and> (left \<noteq> 0 \<longrightarrow> (\<forall>x \<in> set (x_queue X' (opposite s)). no_cross s price (o_price x))))"

lemma overload_orderly: "fills_orderly exchange_fill"
  unfolding fills_orderly_def using exchange_fill_orderly by blast

subsection \<open>Resting and cancelling\<close>

lemma join_price_set [simp]: "set (join_price x ys) = insert x (set ys)"
  by (induction ys) auto

lemma join_sorted:
  "sorted_side s ys \<Longrightarrow> \<exists>y \<in> set ys. o_price y = o_price x \<Longrightarrow> o_side x = s \<Longrightarrow> sorted_side s (join_price x ys)"
proof (induction ys)
  case (Cons y ys)
  have ys: "sorted_side s ys" "o_side y = s" "\<forall>z \<in> set ys. at_least s (o_price y) (o_price z)"
    using Cons.prems(1) by (auto simp: sorted_side_def)
  show ?case
  proof (cases "o_price y = o_price x \<and> (\<forall>z \<in> set ys. o_price z \<noteq> o_price x)")
    case True
    with ys Cons.prems(3) show ?thesis by (auto simp: sorted_side_def)
  next
    case False
    with Cons.prems(2) obtain z where z: "z \<in> set ys" "o_price z = o_price x" by auto
    then have "sorted_side s (join_price x ys)" using Cons.IH [OF ys(1) _ Cons.prems(3)] by blast
    moreover have "at_least s (o_price y) (o_price x)" using ys(3) z by metis
    ultimately show ?thesis using False ys(2,3) by (auto simp: sorted_side_def)
  qed
qed simp

lemma add_orderly:
  assumes F: "fills_orderly F" and X: "orderly X" and ok: "admissible F (Add_order c k tk s price qty) X"
    and run: "exchange_request F (Add_order c k tk s price qty) X = Inr (X', msgs)"
  shows "orderly X'"
proof -
  have s: "s \<in> {Side_BUY, Side_SELL}" using ok by simp
  obtain left X1 ms where f: "F c k tk s price qty (draw_id X) = Inr (left, X1, ms)"
    using run by (auto simp: res_simps)
  have "orderly (draw_id X)" using X by (simp add: orderly_def uncrossed_def draw_id_def)
  then have fill: "orderly X1 \<and> (left \<noteq> 0 \<longrightarrow> (\<forall>x \<in> set (x_queue X1 (opposite s)). no_cross s price (o_price x)))"
    using F s f unfolding fills_orderly_def by blast
  show ?thesis
  proof (cases "left = 0")
    case True
    with run f fill show ?thesis by simp
  next
    case left: False
    then obtain ms' where rest: "exchange_rest c k tk s price (x_next X) left X1 = Inr (X', ms')"
      using run f by (auto simp: res_simps)
    then have slot: "filter (same_slot price) (x_orders X1) \<noteq> []" by (auto simp: exchange_rest_def)
    then obtain y where y: "y \<in> set (filter (same_slot price) (x_orders X1))" by (meson last_in_set)
    with ok f left slot have py: "o_price y = price" "o_side y = s" by (auto simp: Let_def)
    have sorted: "sorted_side t (x_queue X1 t)" if "t \<in> {Side_BUY, Side_SELL}" for t
      using fill orderly_sorted that by blast
    have ys: "y \<in> set (x_queue X1 s)"
      using y py(2) sorted [of Side_BUY] sorted [of Side_SELL] by (auto simp: x_orders_def sorted_side_def)
    obtain x where X': "x_queue X' = (x_queue X1)(s := join_price x (x_queue X1 s))" "o_price x = price" "o_side x = s"
      using rest slot by (auto simp: exchange_rest_def Let_def split: if_splits)
    have "sorted_side s (join_price x (x_queue X1 s))"
      by (rule join_sorted [OF sorted [OF s]]) (use ys py X' in auto)
    then have all: "sorted_side t (x_queue X' t)" if "t \<in> {Side_BUY, Side_SELL}" for t
      using sorted [OF that] by (simp add: X'(1))
    have "no_cross s price (o_price z)" if "z \<in> set (x_queue X1 (opposite s))" for z using fill left that by blast
    then have "uncrossed X'"
      using s fill X' by (auto simp: uncrossed_def orderly_def no_cross_def opposite_def)
    with all show ?thesis by (simp add: orderly_def)
  qed
qed

lemma cancel_orderly:
  assumes X: "orderly X" and run: "exchange_request F (Cancel_order c k tk) X = Inr (X', msgs)"
  shows "orderly X'"
proof -
  have "X' = X \<or> X' = X\<lparr>x_queue := \<lambda>s. filter (\<lambda>y. \<not> has_key c k y) (x_queue X s)\<rparr>"
    using run by (auto split: if_splits list.splits)
  then show ?thesis
    using X by (auto simp: orderly_def sorted_side_def uncrossed_def sorted_wrt_filter)
qed

lemma request_orderly: "fills_orderly F \<Longrightarrow> orderly X \<Longrightarrow> admissible F r X \<Longrightarrow> exchange_request F r X = Inr (X', msgs) \<Longrightarrow> orderly X'"
  by (cases r) (auto intro: add_orderly cancel_orderly simp del: exchange_request.simps admissible.simps)

lemma run_orderly:
  assumes F: "fills_orderly F"
  shows "orderly X \<Longrightarrow> ok_run (exchange_request F) (admissible F) requests X \<Longrightarrow>
   spec_run (exchange_request F) ([], []) cat_messages requests X = Inr (X', msgs) \<Longrightarrow> orderly X'"
proof (induction requests arbitrary: X msgs)
  case (Cons r requests)
  obtain X1 ms ms' where 1: "exchange_request F r X = Inr (X1, ms)"
    "spec_run (exchange_request F) ([], []) cat_messages requests X1 = Inr (X', ms')"
    using Cons.prems(3) by (auto simp: res_simps)
  with Cons.prems(2) have "admissible F r X" "ok_run (exchange_request F) (admissible F) requests X1" by simp_all
  with Cons.IH [OF request_orderly [OF F Cons.prems(1) _ 1(1)] _ 1(2)] show ?case by blast
qed simp

subsection \<open>Properties\<close>

text \<open>
  C2: a book never crosses, given the contracts. Let the missing \<open>checkForMatch()\<close> be any matcher
  that does on a represented book what some \<open>F\<close> does to the exchange, where \<open>F\<close> keeps an orderly
  exchange orderly and, when it leaves a quantity, leaves nothing on the other side within the
  limit (both hold of the overload with seven arguments). Let the book be well formed, with a
  resting order in every block in use, the orders of each side in the order of their prices, best
  first, and every buy price below every sell price. Then this is still so after every series of
  adds and cancels that are admissible where they are made (an add names a side; at a price slot
  in use it finds orders of its price and side only; ids inside the tables and not in use) and that
  does not end in a fault: what rests joins behind the orders of its price.
\<close>

theorem book_stays_uncrossed:
  assumes "matches_as M F" "fills_orderly F"
    and "book_rep False b S" "live (order_pool b) = resting S" "orderly (book_view S b)"
    and "ok_run (exchange_request F) (admissible F) requests (book_view S b)"
    and "impl_run (handle_request M) requests (b, io) = Inr (b', io')"
  shows "\<exists>S'. book_rep False b' S' \<and> orderly (book_view S' b')"
proof -
  note sim = book_simulates_run [OF assms(1,3,4,6), of io]
  obtain X rs us where X: "spec_run (exchange_request F) ([], []) cat_messages requests (book_view S b) = Inr (X, rs, us)"
      "represents X (b', io')"
    using sim assms(7) by (cases "spec_run (exchange_request F) ([], []) cat_messages requests (book_view S b)") auto
  then obtain S' where S': "mirrors S' b' X" by (auto simp: represents_def)
  have "orderly X" by (rule run_orderly [OF assms(2,5,6) X(1)])
  moreover have "x_queue (book_view S' b') s = x_queue X s" if "s \<in> {Side_BUY, Side_SELL}" for s
    using S' that by (auto simp: mirrors_def book_view_def)
  ultimately have "orderly (book_view S' b')" by (simp add: orderly_def uncrossed_def)
  with S' show ?thesis by (auto simp: mirrors_def)
qed

lemma example_orderly: "orderly (book_view example_shape example_book)"
  by (simp add: example_view example_exchange_def orderly_def sorted_side_def uncrossed_def at_least_def strip_def example_order_def)

theorem book_stays_uncrossed_witness:
  "\<exists>b' io' S'. impl_run (handle_request overload) example_requests (example_book, example_io) = Inr (b', io') \<and>
    book_rep False b' S' \<and> orderly (book_view S' b')"
proof -
  have ok: "ok_run (exchange_request exchange_fill) (admissible exchange_fill) example_requests (book_view example_shape example_book)"
    using example_admitted by (simp add: example_view)
  have "\<exists>X rs us. spec_run (exchange_request exchange_fill) ([], []) cat_messages example_requests (book_view example_shape example_book) =
      Inr (X, rs, us)"
    by (simp add: example_view exchange_evaluation)
  then obtain b' io' where run: "impl_run (handle_request overload) example_requests (example_book, example_io) = Inr (b', io')"
    using book_simulates_run [OF overload_matches example_rep example_live ok, of example_io] by fastforce
  from book_stays_uncrossed [OF overload_matches overload_orderly example_rep example_live example_orderly ok run] run show ?thesis by blast
qed

end
