(* ===== verification/Texts.thy ===== *)
theory Texts
  imports Order_Book
begin

text \<open>
  The texts of orders and levels (src/me_order.cpp and include/me_order.h), and a reader of
  the texts of the exchange: every message and order is printed as a list of \<open>key:value\<close>
  pairs, from which the reader below takes the values back.
\<close>

text \<open>\<open>MEOrder::toString\<close> looks at the market ids of the two neighbours.\<close>

definition link_id :: "ptr \<Rightarrow> MEOrderBook \<Rightarrow> OrderId res" where
  "link_id p b = (if p \<noteq> None then bnd (ord p b) (\<lambda>x. Inr (o_market_order_id x)) else Inr OrderId_INVALID)"

definition order_text :: "MEOrder \<Rightarrow> OrderId \<Rightarrow> OrderId \<Rightarrow> string" where
  "order_text x prv nxt = ''MEOrder'' @ ''['' @
     ''ticker:'' @ tickerIdToString (o_ticker_id x) @ '' '' @
     ''cid:'' @ clientIdToString (o_client_id x) @ '' '' @
     ''oid:'' @ orderIdToString (o_client_order_id x) @ '' '' @
     ''moid:'' @ orderIdToString (o_market_order_id x) @ '' '' @
     ''side:'' @ sideToString (o_side x) @ '' '' @
     ''price:'' @ priceToString (o_price x) @ '' '' @
     ''qty:'' @ qtyToString (o_quantity x) @ '' '' @
     ''prio:'' @ priorityToString (o_priority x) @ '' '' @
     ''prev:'' @ orderIdToString prv @ '' '' @
     ''next:'' @ orderIdToString nxt @ '']''"

definition orderToString :: "MEOrder \<Rightarrow> MEOrderBook \<Rightarrow> string res" where
  "orderToString x b = bnd (link_id (prev_order x) b) (\<lambda>prv. bnd (link_id (next_order x) b) (\<lambda>nxt.
     Inr (order_text x prv nxt)))"

definition entry_price :: "ptr \<Rightarrow> MEOrderBook \<Rightarrow> Price res" where
  "entry_price p b = (if p \<noteq> None then bnd (lvl p b) (\<lambda>x. Inr (l_price x)) else Inr Price_INVALID)"

definition levelToString :: "MEOrdersAtPrice \<Rightarrow> MEOrderBook \<Rightarrow> string res" where
  "levelToString l b =
     bnd (if first_me_order l \<noteq> None then bnd (ord (first_me_order l) b) (\<lambda>x. orderToString x b) else Inr ''null'') (\<lambda>first.
     bnd (entry_price (prev_entry l) b) (\<lambda>prv. bnd (entry_price (next_entry l) b) (\<lambda>nxt.
     Inr (''MEOrdersAtPrice['' @ ''side:'' @ sideToString (l_side l) @ '' '' @
       ''price:'' @ priceToString (l_price l) @ '' '' @
       ''first_me_order:'' @ first @ '' '' @
       ''prev:'' @ priceToString prv @ '' '' @ ''next:'' @ priceToString nxt @ '']''))))"

subsection \<open>Reading a text\<close>

definition value_char :: "char \<Rightarrow> bool" where
  "value_char c \<longleftrightarrow> c \<noteq> CHR '' '' \<and> c \<noteq> CHR '':'' \<and> c \<noteq> CHR '']'' \<and> c \<noteq> CHR ''[''"

text \<open>The values of all pairs: what follows a colon up to a character that ends a value.\<close>

function field_values :: "string \<Rightarrow> string list" where
  "field_values [] = []"
| "field_values (c # s) =
     (if c = CHR '':'' then takeWhile value_char s # field_values (dropWhile value_char s) else field_values s)"
  by pat_completeness auto
termination
  by (relation "measure length") (auto simp: le_imp_less_Suc length_dropWhile_le)

declare field_values.simps [simp del]

definition value_text :: "string \<Rightarrow> bool" where
  "value_text v \<longleftrightarrow> (\<forall>c \<in> set v. value_char c)"

lemma field_values_key [simp]: "c \<noteq> CHR '':'' \<Longrightarrow> field_values (c # s) = field_values s"
  and field_values_Nil [simp]: "field_values [] = []"
  by (simp_all add: field_values.simps)

lemma field_values_value [simp]:
  assumes "value_text v" "\<not> value_char d"
  shows "field_values (CHR '':'' # v @ d # s) = v # field_values (d # s)"
proof -
  have "takeWhile value_char (v @ d # s) = v" "dropWhile value_char (v @ d # s) = d # s"
    using assms by (simp_all add: value_text_def takeWhile_append dropWhile_append)
  then show ?thesis by (simp add: field_values.simps)
qed

lemma not_value_char [simp]: "\<not> value_char CHR '' ''" "\<not> value_char CHR '']''"
  by (simp_all add: value_char_def)

lemma digit_value_char: "is_digit c \<Longrightarrow> value_char c"
  by (auto simp: is_digit_def value_char_def)

lemma value_text_nat [simp]: "value_text (to_string_nat n)"
  using to_string_nat_digits digit_value_char by (auto simp: value_text_def)

lemma value_text_int [simp]: "value_text (to_string_int i)"
  using value_text_nat by (auto simp: to_string_int_def value_text_def value_char_def)

lemma value_text_INVALID [simp]: "value_text ''INVALID''"
  by (simp add: value_text_def value_char_def)

lemma value_text_ids [simp]:
  "value_text (orderIdToString a)" "value_text (tickerIdToString t)" "value_text (clientIdToString c)"
  "value_text (priceToString p)" "value_text (qtyToString q)" "value_text (priorityToString r)"
  by (simp_all add: id_toString_defs)

lemma value_text_side [simp]: "value_text (sideToString s)"
  by (cases s) (simp_all add: value_text_def value_char_def)

lemma value_text_request_type [simp]: "value_text (clientRequestTypeToString k)"
  by (cases k) (simp_all add: value_text_def value_char_def)

lemma value_text_response_type [simp]: "value_text (clientResponseTypeToString m)"
  by (cases m) (simp_all add: value_text_def value_char_def)

lemma value_text_update_type [simp]: "value_text (marketUpdateTypeToString u)"
  by (cases u) (simp_all add: value_text_def value_char_def)

subsection \<open>Reading the values\<close>

definition read_id :: "'a :: len word \<Rightarrow> string \<Rightarrow> 'a word" where
  "read_id invalid s = (if s = ''INVALID'' then invalid else word_of_nat (nat_of_string s))"

definition read_price :: "string \<Rightarrow> Price" where
  "read_price s = (if s = ''INVALID'' then Price_INVALID else word_of_int (int_of_string s))"

definition read_enum :: "('a \<Rightarrow> string) \<Rightarrow> 'a list \<Rightarrow> 'a \<Rightarrow> string \<Rightarrow> 'a" where
  "read_enum print xs dflt s = (case find (\<lambda>x. print x = s) xs of None \<Rightarrow> dflt | Some x \<Rightarrow> x)"

lemma read_values [simp]:
  "read_id OrderId_INVALID (orderIdToString a) = a" "read_id TickerId_INVALID (tickerIdToString t) = t"
  "read_id ClientId_INVALID (clientIdToString c) = c" "read_price (priceToString p) = p"
  "read_id Quantity_INVALID (qtyToString q) = q" "read_id Priority_INVALID (priorityToString r) = r"
  by (simp_all add: read_id_def read_price_def id_toString_defs)

text \<open>
  The value an enum's text is the text of, the last choice for what is no name: the values
  without a name have one text in common, \<open>UNKNOWN\<close>, which reads back as one of them.
\<close>

definition read_side :: "string \<Rightarrow> Side" where
  "read_side = read_enum sideToString [Side_BUY, Side_SELL, Side_INVALID] (Side_UNLISTED 2)"

definition read_request_type :: "string \<Rightarrow> ClientRequestType" where
  "read_request_type = read_enum clientRequestTypeToString [Req_NEW, Req_CANCEL, Req_INVALID] (Req_UNLISTED 3)"

definition read_response_type :: "string \<Rightarrow> ClientResponseType" where
  "read_response_type = read_enum clientResponseTypeToString
     [Resp_ACCEPTED, Resp_CANCELED, Resp_FILLED, Resp_CANCEL_REJECTED, Resp_INVALID] (Resp_UNLISTED 5)"

definition read_update_type :: "string \<Rightarrow> MarketUpdateType" where
  "read_update_type = read_enum marketUpdateTypeToString 
     [Upd_ADD, Upd_MODIFY, Upd_CANCEL, Upd_TRADE, Upd_INVALID] (Upd_UNLISTED 5)"

text \<open>What of a value its text tells: the value, if it has a name.\<close>

fun named_request_type :: "ClientRequestType \<Rightarrow> ClientRequestType" where
  "named_request_type (Req_UNLISTED _) = Req_UNLISTED 3"
| "named_request_type k = k"

fun named_response_type :: "ClientResponseType \<Rightarrow> ClientResponseType" where
  "named_response_type (Resp_UNLISTED _) = Resp_UNLISTED 5"
| "named_response_type m = m"

fun named_update_type :: "MarketUpdateType \<Rightarrow> MarketUpdateType" where
  "named_update_type (Upd_UNLISTED _) = Upd_UNLISTED 5"
| "named_update_type u = u"

definition named_request :: "MEClientRequest \<Rightarrow> MEClientRequest" where
  "named_request r = r\<lparr>rq_type := named_request_type (rq_type r), rq_side := named_side (rq_side r)\<rparr>"

definition named_response :: "MEClientResponse \<Rightarrow> MEClientResponse" where
  "named_response r = r\<lparr>rs_type := named_response_type (rs_type r), rs_side := named_side (rs_side r)\<rparr>"

definition named_update :: "MEMarketUpdate \<Rightarrow> MEMarketUpdate" where
  "named_update u = u\<lparr>mu_type := named_update_type (mu_type u), mu_side := named_side (mu_side u)\<rparr>"

lemma read_side [simp]: "read_side (sideToString s) = named_side s"
  by (cases s) (simp_all add: read_side_def read_enum_def)

lemma read_request_type [simp]: "read_request_type (clientRequestTypeToString k) = named_request_type k"
  by (cases k) (simp_all add: read_request_type_def read_enum_def)

lemma read_response_type [simp]: "read_response_type (clientResponseTypeToString m) = named_response_type m"
  by (cases m) (simp_all add: read_response_type_def read_enum_def)

lemma read_update_type [simp]: "read_update_type (marketUpdateTypeToString u) = named_update_type u"
  by (cases u) (simp_all add: read_update_type_def read_enum_def)

fun readRequest :: "string list \<Rightarrow> MEClientRequest option" where
  "readRequest [ty, client, ticker, oid, side, qty, price] = Some \<lparr>rq_type = read_request_type ty,
     rq_client_id = read_id ClientId_INVALID client, rq_ticker_id = read_id TickerId_INVALID ticker,
     rq_order_id = read_id OrderId_INVALID oid, rq_side = read_side side, rq_price = read_price price,
     rq_quantity = read_id Quantity_INVALID qty\<rparr>"
| "readRequest _ = None"

fun readResponse :: "string list \<Rightarrow> MEClientResponse option" where
  "readResponse [ty, client, ticker, coid, moid, side, exec_qty, left_qty, price] = Some \<lparr>rs_type = read_response_type ty,
     rs_client_id = read_id ClientId_INVALID client, rs_ticker_id = read_id TickerId_INVALID ticker,
     rs_client_order_id = read_id OrderId_INVALID coid, rs_market_order_id = read_id OrderId_INVALID moid,
     rs_side = read_side side, rs_price = read_price price, rs_exec_qty = read_id Quantity_INVALID exec_qty,
     rs_left_qty = read_id Quantity_INVALID left_qty\<rparr>"
| "readResponse _ = None"

fun readUpdate :: "string list \<Rightarrow> MEMarketUpdate option" where
  "readUpdate [ty, ticker, oid, side, qty, price, priority] = Some \<lparr>mu_type = read_update_type ty,
     mu_order_id = read_id OrderId_INVALID oid, mu_ticker_id = read_id TickerId_INVALID ticker,
     mu_side = read_side side, mu_price = read_price price, mu_quantity = read_id Quantity_INVALID qty,
     mu_priority = read_id Priority_INVALID priority\<rparr>"
| "readUpdate _ = None"

text \<open>
  The links of an order are pointers; its text has only the market ids behind them. The order
  read back is the order without links.
\<close>

fun readOrder :: "string list \<Rightarrow> (MEOrder \<times> OrderId \<times> OrderId) option" where
  "readOrder [ticker, cid, oid, moid, side, price, qty, prio, prv, nxt] = Some
     (\<lparr>o_ticker_id = read_id TickerId_INVALID ticker, o_client_id = read_id ClientId_INVALID cid,
       o_client_order_id = read_id OrderId_INVALID oid, o_market_order_id = read_id OrderId_INVALID moid,
       o_side = read_side side, o_price = read_price price, o_quantity = read_id Quantity_INVALID qty,
       o_priority = read_id Priority_INVALID prio, prev_order = None, next_order = None\<rparr>,
      read_id OrderId_INVALID prv, read_id OrderId_INVALID nxt)"
| "readOrder _ = None"

definition named_order :: "MEOrder \<Rightarrow> MEOrder" where
  "named_order x = x\<lparr>o_side := named_side (o_side x), prev_order := None, next_order := None\<rparr>"

text \<open>The market id of the order a link points to, the reserved id for no order.\<close>

definition neighbour_id :: "ptr \<Rightarrow> MEOrderBook \<Rightarrow> OrderId" where
  "neighbour_id p b = (case p of None \<Rightarrow> OrderId_INVALID | Some i \<Rightarrow> o_market_order_id (obj (order_pool b) i))"

lemma link_id_neighbour: "p = None \<or> the p < pool_size (order_pool b) \<Longrightarrow> link_id p b = Inr (neighbour_id p b)"
  by (auto simp: link_id_def neighbour_id_def ord_def split: option.splits)

lemma link_id_outside: "p = Some i \<Longrightarrow> \<not> i < pool_size (order_pool b) \<Longrightarrow> link_id p b = Inl Out_of_bounds"
  by (simp add: link_id_def ord_def)

text \<open>A text says no more than \<open>named_\<close> keeps.\<close>

lemma named_texts:
  "requestToString (named_request rq) = requestToString rq"
  "responseToString (named_response rs) = responseToString rs"
  "updateToString (named_update mu) = updateToString mu"
proof -
  have "sideToString (named_side s) = sideToString s" for s by (cases s) simp_all
  moreover have "clientRequestTypeToString (named_request_type k) = clientRequestTypeToString k" for k by (cases k) simp_all
  moreover have "clientResponseTypeToString (named_response_type m) = clientResponseTypeToString m" for m by (cases m) simp_all
  moreover have "marketUpdateTypeToString (named_update_type u) = marketUpdateTypeToString u" for u by (cases u) simp_all
  ultimately show "requestToString (named_request rq) = requestToString rq"
    "responseToString (named_response rs) = responseToString rs" "updateToString (named_update mu) = updateToString mu"
    by (simp_all add: requestToString_def responseToString_def updateToString_def named_request_def named_response_def named_update_def)
qed

lemma text_reads:
  "readRequest (field_values (requestToString rq)) = Some (named_request rq)"
  "readResponse (field_values (responseToString rs)) = Some (named_response rs)"
  "readUpdate (field_values (updateToString mu)) = Some (named_update mu)"
  by (simp_all add: requestToString_def responseToString_def updateToString_def named_request_def named_response_def named_update_def)

subsection \<open>Properties\<close>

text \<open>
  C26: what the text of a message tells. The values in the text of a request, a response or a
  market update read back as the message, but for the type and the side where these are none of
  the values their enum names: all of those are printed as UNKNOWN. So two messages have the same
  text in the log exactly when they are equal up to the choice of such a value; if the type and
  the side of both have names, exactly when they are the same message.
\<close>

theorem message_texts_roundtrip:
  "readRequest (field_values (requestToString rq)) = Some (named_request rq) \<and>
   readResponse (field_values (responseToString rs)) = Some (named_response rs) \<and>
   readUpdate (field_values (updateToString mu)) = Some (named_update mu) \<and>
   (requestToString rq = requestToString rq' \<longleftrightarrow> named_request rq = named_request rq') \<and>
   (responseToString rs = responseToString rs' \<longleftrightarrow> named_response rs = named_response rs') \<and>
   (updateToString mu = updateToString mu' \<longleftrightarrow> named_update mu = named_update mu')"
  by (intro conjI; (rule text_reads)?) (metis named_texts text_reads option.inject)+

text \<open>
  C27: the text of an order whose links are null or inside the pool. It is printed without a
  fault and tells every field of the order but the links: it reads back as the order without
  links (a side without a name as UNKNOWN) and, in place of the links, the market ids of the two
  orders beside it, the reserved id where there is none.
\<close>

theorem order_text_roundtrip:
  assumes "prev_order x = None \<or> the (prev_order x) < pool_size (order_pool b)"
    and "next_order x = None \<or> the (next_order x) < pool_size (order_pool b)"
  shows "\<exists>t. orderToString x b = Inr t \<and> readOrder (field_values t) =
    Some (named_order x, neighbour_id (prev_order x) b, neighbour_id (next_order x) b)"
  using assms by (simp add: orderToString_def order_text_def link_id_neighbour named_order_def)

definition text_book :: MEOrderBook where
  "text_book = (newMEOrderBook (\<lambda>_ _. None) (\<lambda>_. None) 1)
     \<lparr>order_pool := set_obj 0 (defaultOrder\<lparr>o_market_order_id := 7\<rparr>) (MemPool 4 defaultOrder)\<rparr>"

theorem order_text_roundtrip_witness:
  "\<exists>t. orderToString (defaultOrder\<lparr>o_price := - 5, o_side := Side_SELL, next_order := Some 0\<rparr>) text_book = Inr t \<and>
    readOrder (field_values t) = Some (defaultOrder\<lparr>o_price := - 5, o_side := Side_SELL\<rparr>, OrderId_INVALID, 7)"
  using order_text_roundtrip [of "defaultOrder\<lparr>o_price := - 5, o_side := Side_SELL, next_order := Some 0\<rparr>" text_book]
  by (simp add: named_order_def neighbour_id_def text_book_def defaultOrder_def MemPool_def set_obj_def)

end
