(* ===== verification/Logger_Threads.thy ===== *)
theory Logger_Threads
  imports Logger LF_Queue_Threads
begin

text \<open>
  The logger as two threads (src/logger.cpp): the one that logs and finally runs the
  destructor, and the one that runs \<open>flushQueue\<close>, interleaved access by access over the
  ring of LF_Queue_Threads. The log calls come from one thread, as the ring asks.
\<close>

text \<open>
  Where the logger thread is in its loop: at the test of \<open>running_\<close>, before \<open>getNextToRead\<close>,
  before the test \<open>size() && next\<close> with the pointer it got, before writing the element, at the
  two halves of \<open>updataReadIndex\<close>, asleep, or returned.
\<close>

datatype loop_pc = L_guard | L_peek | L_test "nat option" | L_write nat | L_store | L_count | L_sleep | L_done

text \<open>And where the destructor is: not yet called, waiting, past the wait, joining, returned.\<close>

datatype closing_pc = D_open | D_wait | D_stop | D_join | D_closed

record log_threads =
  ring :: "LogElement spsc"
  written :: string
  flag :: bool
  lpc :: loop_pc
  dpc :: closing_pc
  todo :: "LogElement list"

definition log_init :: "nat \<Rightarrow> LogElement list \<Rightarrow> log_threads" where
  "log_init n es = \<lparr>ring = spsc_init n (LE_CHAR (CHR 0x00)), written = [], flag = True, lpc = L_guard,
     dpc = D_open, todo = es\<rparr>"

abbreviation log_ring :: "log_threads \<Rightarrow> LogElement LFQueue" where
  "log_ring s \<equiv> shared (ring s)"

subsection \<open>The steps\<close>

inductive flush_step :: "(32 word \<Rightarrow> string) \<Rightarrow> (64 word \<Rightarrow> string) \<Rightarrow> log_threads \<Rightarrow> log_threads \<Rightarrow> bool" for ff fd where
  l_guard: "lpc s = L_guard \<Longrightarrow> flush_step ff fd s (s\<lparr>lpc := if flag s then L_peek else L_done\<rparr>)"
| l_peek: "lpc s = L_peek \<Longrightarrow> flush_step ff fd s (s\<lparr>lpc := L_test (getNextToRead (log_ring s))\<rparr>)"
| l_enter: "lpc s = L_test (Some i) \<Longrightarrow> lfq_size (log_ring s) \<noteq> 0 \<Longrightarrow> flush_step ff fd s
    (s\<lparr>lpc := L_write i, ring := (ring s)\<lparr>cpc := C_peeked i\<rparr>\<rparr>)"
| l_leave: "lpc s = L_test next \<Longrightarrow> next = None \<or> lfq_size (log_ring s) = 0 \<Longrightarrow> flush_step ff fd s (s\<lparr>lpc := L_sleep\<rparr>)"
| l_write: "lpc s = L_write i \<Longrightarrow> flush_step ff fd s
    (s\<lparr>lpc := L_store, written := written s @ render ff fd (q_store (log_ring s) i),
       ring := (ring s)\<lparr>cpc := C_read, got := got (ring s) @ [q_store (log_ring s) i]\<rparr>\<rparr>)"
| l_store: "lpc s = L_store \<Longrightarrow> flush_step ff fd s
    (s\<lparr>lpc := L_count, ring := (ring s)\<lparr>shared := store_read_index (log_ring s), cpc := C_indexed, freed := Suc (freed (ring s))\<rparr>\<rparr>)"
| l_count: "lpc s = L_count \<Longrightarrow> flush_step ff fd s
    (s\<lparr>lpc := L_peek, ring := (ring s)\<lparr>shared := count_down (log_ring s), cpc := C_idle\<rparr>\<rparr>)"
| l_sleep: "lpc s = L_sleep \<Longrightarrow> flush_step ff fd s (s\<lparr>lpc := L_guard\<rparr>)"

text \<open>
  The other thread pushes the elements of its log calls, each with the three accesses of
  \<open>pushValue\<close>, and then runs the destructor.
\<close>

inductive caller_step :: "log_threads \<Rightarrow> log_threads \<Rightarrow> bool" where
  d_write: "todo s = v # vs \<Longrightarrow> ppc (ring s) = P_idle \<Longrightarrow> caller_step s
    (s\<lparr>todo := vs, ring := (ring s)\<lparr>shared := write_slot (getNextToWriteTo (log_ring s)) v (log_ring s), ppc := P_written v\<rparr>\<rparr>)"
| d_index: "ppc (ring s) = P_written v \<Longrightarrow> caller_step s
    (s\<lparr>ring := (ring s)\<lparr>shared := store_write_index (log_ring s), ppc := P_indexed, sent := sent (ring s) @ [v]\<rparr>\<rparr>)"
| d_count: "ppc (ring s) = P_indexed \<Longrightarrow> caller_step s
    (s\<lparr>ring := (ring s)\<lparr>shared := count_up (log_ring s), ppc := P_idle\<rparr>\<rparr>)"
| d_close: "dpc s = D_open \<Longrightarrow> todo s = [] \<Longrightarrow> ppc (ring s) = P_idle \<Longrightarrow> caller_step s (s\<lparr>dpc := D_wait\<rparr>)"
| d_wait: "dpc s = D_wait \<Longrightarrow> caller_step s (if lfq_size (log_ring s) = 0 then s\<lparr>dpc := D_stop\<rparr> else s)"
| d_stop: "dpc s = D_stop \<Longrightarrow> caller_step s (s\<lparr>flag := False, dpc := D_join\<rparr>)"
| d_join: "dpc s = D_join \<Longrightarrow> lpc s = L_done \<Longrightarrow> caller_step s (s\<lparr>dpc := D_closed\<rparr>)"

text \<open>
  The elements published and not yet given back. \<open>pushValue\<close> does not look whether there is
  room for one more, and past the size of the ring an unread element would be overwritten (and
  a ring that is exactly full looks empty). So what the two threads do is studied under a bound:
  in a run of \<open>log_step m\<close> the caller is scheduled to write a slot only when fewer than \<open>m\<close> elements
  are pending. How many elements are logged in all is not bounded; the ring may go round any
  number of times.
\<close>

definition pending :: "log_threads \<Rightarrow> nat" where
  "pending s = length (sent (ring s)) - freed (ring s)"

inductive log_step :: "nat \<Rightarrow> (32 word \<Rightarrow> string) \<Rightarrow> (64 word \<Rightarrow> string) \<Rightarrow> log_threads \<Rightarrow> log_threads \<Rightarrow> bool" for m ff fd where
  by_logger: "flush_step ff fd s t \<Longrightarrow> log_step m ff fd s t"
| by_caller: "caller_step s t \<Longrightarrow> pending s < m \<or> todo t = todo s \<Longrightarrow> log_step m ff fd s t"

inductive_cases flush_stepE: "flush_step ff fd s t"
inductive_cases caller_stepE: "caller_step s t"

subsection \<open>The invariant\<close>

definition pushes_inv :: "LogElement list \<Rightarrow> log_threads \<Rightarrow> bool" where
  "pushes_inv es s \<longleftrightarrow> sent (ring s) @ (case ppc (ring s) of P_written v \<Rightarrow> [v] | _ \<Rightarrow> []) @ todo s = es \<and>
     (dpc s \<noteq> D_open \<longrightarrow> todo s = [] \<and> ppc (ring s) = P_idle)"

fun loop_cpc :: "loop_pc \<Rightarrow> consumer_pc" where
  "loop_cpc (L_write i) = C_peeked i"
| "loop_cpc L_store = C_read"
| "loop_cpc L_count = C_indexed"
| "loop_cpc _ = C_idle"

definition loop_inv :: "nat \<Rightarrow> 'a spsc \<Rightarrow> loop_pc \<Rightarrow> bool" where
  "loop_inv n r l \<longleftrightarrow> cpc r = loop_cpc l \<and>
     (\<forall>i. l = L_test (Some i) \<longrightarrow> freed r < length (sent r) \<and> i = freed r mod n)"

definition closing_inv :: "log_threads \<Rightarrow> bool" where
  "closing_inv s \<longleftrightarrow> (flag s \<longleftrightarrow> dpc s \<in> {D_open, D_wait, D_stop}) \<and> (lpc s = L_done \<longrightarrow> \<not> flag s) \<and>
     (dpc s \<in> {D_stop, D_join, D_closed} \<longrightarrow> freed (ring s) = length (sent (ring s)) \<and> cpc (ring s) = C_idle) \<and>
     (dpc s = D_closed \<longrightarrow> lpc s = L_done)"

definition log_inv :: "nat \<Rightarrow> (32 word \<Rightarrow> string) \<Rightarrow> (64 word \<Rightarrow> string) \<Rightarrow> nat \<Rightarrow> LogElement list \<Rightarrow> log_threads \<Rightarrow> bool" where
  "log_inv m ff fd n es s \<longleftrightarrow> spsc_inv m n (ring s) \<and> pushes_inv es s \<and> loop_inv n (ring s) (lpc s) \<and>
     closing_inv s \<and> written s = render_all ff fd (got (ring s))"

lemma log_inv_init: "0 < n \<Longrightarrow> log_inv m ff fd n es (log_init n es)"
  by (simp add: log_inv_def log_init_def spsc_inv_init pushes_inv_def loop_inv_def closing_inv_def render_all_def)
    (simp add: spsc_init_def)

text \<open>Every step is one of the ring, or leaves it alone.\<close>

lemma flush_ring:
  assumes "flush_step ff fd s t" "log_inv m ff fd n es s" "m < n"
  shows "ring t = ring s \<or> spsc_step m (ring s) (ring t)"
proof -
  have ix: "indices_inv m n (ring s)" using assms(2) by (simp add: log_inv_def spsc_inv_def)
  from assms(1) show ?thesis
  proof cases
    case (l_enter i)
    then have "getNextToRead (log_ring s) = Some i" "cpc (ring s) = C_idle"
      using getNextToRead_indices [OF ix assms(3)] assms(2) by (simp_all add: log_inv_def loop_inv_def)
    with l_enter show ?thesis using spsc_step.c_peek [of "ring s" i] by simp
  next
    case (l_write i)
    with assms(2) show ?thesis using spsc_step.c_read [of "ring s" i] by (simp add: log_inv_def loop_inv_def)
  next
    case l_store
    with assms(2) show ?thesis using spsc_step.c_index [of "ring s"] by (simp add: log_inv_def loop_inv_def)
  next
    case l_count
    with assms(2) show ?thesis using spsc_step.c_count [of "ring s"] by (simp add: log_inv_def loop_inv_def)
  qed simp_all
qed

lemma caller_ring:
  assumes "caller_step s t" "pending s < m \<or> todo t = todo s"
  shows "ring t = ring s \<or> spsc_step m (ring s) (ring t)"
  using assms(1)
proof cases
  case (d_write v vs)
  then have "todo t \<noteq> todo s" by (auto simp: neq_Nil_conv)
  with assms(2) have "length (sent (ring s)) - freed (ring s) < m" by (simp add: pending_def)
  with d_write show ?thesis using spsc_step.p_write [of "ring s" m v] by simp
next
  case (d_index v)
  then show ?thesis using spsc_step.p_index [of "ring s" v] by simp
next
  case d_count
  then show ?thesis using spsc_step.p_count [of "ring s"] by simp
qed simp_all


lemma flush_inv:
  assumes step: "flush_step ff fd s t" and inv: "log_inv m ff fd n es s" and n: "m < n"
  shows "log_inv m ff fd n es t"
proof -
  have spsc: "spsc_inv m n (ring s)" using inv by (simp add: log_inv_def)
  then have spsc': "spsc_inv m n (ring t)"
    using flush_ring [OF step inv n] spsc_inv_step [OF _ n] by auto
  have peek: "getNextToRead (log_ring s) = (if freed (ring s) < length (sent (ring s)) then Some (freed (ring s) mod n) else None)"
    using spsc n by (intro getNextToRead_indices) (simp_all add: spsc_inv_def)
  have "pushes_inv es t" using step inv by cases (auto simp: log_inv_def pushes_inv_def)
  moreover have "loop_inv n (ring t) (lpc t)" using step inv by cases (auto simp: log_inv_def loop_inv_def peek)
  moreover have "closing_inv t"
    using step inv by cases (auto simp: log_inv_def loop_inv_def closing_inv_def split: if_splits)
  moreover have "written t = render_all ff fd (got (ring t))"
    using step inv by cases (auto simp: log_inv_def render_all_def)
  ultimately show ?thesis using spsc' by (simp add: log_inv_def)
qed

text \<open>The count is zero only when everything published was given back, once the caller is idle.\<close>

lemma unat_of_nat_64: "k < 2 ^ 64 \<Longrightarrow> unat (of_nat k :: 64 word) = k"
  by (simp add: unat_of_nat)

lemma size_zero:
  assumes "spsc_inv m n r" "m < n" "n < 2 ^ 63" "ppc r = P_idle"
  shows "lfq_size (shared r) = 0 \<longleftrightarrow> freed r = length (sent r) \<and> cpc r = C_idle"
proof -
  let ?k = "length (sent r) - freed r + (if cpc r = C_indexed then 1 else 0)"
  have le: "freed r \<le> length (sent r)" "length (sent r) - freed r \<le> m" using assms(1) by (simp_all add: spsc_inv_defs)
  have "num_elements (shared r) = of_nat ?k" using assms(1,4) le(1) by (simp add: spsc_inv_defs of_nat_diff)
  moreover have "?k < 2 ^ 64" using le assms(2,3) by (auto simp: not_less)
  ultimately have "unat (num_elements (shared r)) = ?k" by (simp only: unat_of_nat_64)
  then have "num_elements (shared r) = 0 \<longleftrightarrow> ?k = 0" by (metis unat_eq_zero)
  then show ?thesis using le assms(1) by (auto simp: lfq_size_def spsc_inv_def read_inv_def split: consumer_pc.splits)
qed

lemma caller_inv:
  assumes step: "caller_step s t" and room: "pending s < m \<or> todo t = todo s" and inv: "log_inv m ff fd n es s" and n: "m < n" "n < 2 ^ 63"
  shows "log_inv m ff fd n es t"
proof -
  have spsc: "spsc_inv m n (ring s)" and push: "pushes_inv es s" using inv by (simp_all add: log_inv_def)
  then have spsc': "spsc_inv m n (ring t)"
    using caller_ring [OF step room] spsc_inv_step [OF _ n(1)] by auto
  have "pushes_inv es t" using step inv by cases (auto simp: log_inv_def pushes_inv_def)
  moreover have "loop_inv n (ring t) (lpc t)"
    using step inv by cases (auto simp: log_inv_def loop_inv_def)
  moreover have "closing_inv t"
    using step
  proof cases
    case d_wait
    then show ?thesis
      using inv size_zero [OF spsc n]
      by (auto simp: log_inv_def loop_inv_def closing_inv_def pushes_inv_def)
  qed (use inv in \<open>auto simp: log_inv_def closing_inv_def pushes_inv_def\<close>)
  moreover have "written t = render_all ff fd (got (ring t))"
    using step inv by cases (auto simp: log_inv_def render_all_def)
  ultimately show ?thesis using spsc' by (simp add: log_inv_def)
qed


lemma log_step_inv: "log_step m ff fd s t \<Longrightarrow> log_inv m ff fd n es s \<Longrightarrow> m < n \<Longrightarrow> n < 2 ^ 63 \<Longrightarrow> log_inv m ff fd n es t"
  by (cases rule: log_step.cases) (auto intro: flush_inv caller_inv)

subsection \<open>The work that is left\<close>

text \<open>
  A count of what the two threads still have to do. The logger's place in its loop counts
  less than an element, and an element less than any step of the caller.
\<close>

fun loop_left :: "nat \<Rightarrow> loop_pc \<Rightarrow> nat" where
  "loop_left k L_count = 9"
| "loop_left k L_peek = (if k = 0 then 8 else 4)"
| "loop_left k (L_test None) = 7"
| "loop_left k L_sleep = 6"
| "loop_left k L_guard = 5"
| "loop_left k (L_test (Some i)) = 3"
| "loop_left k (L_write i) = 2"
| "loop_left k L_store = 1"
| "loop_left k L_done = 0"

fun closing_left :: "closing_pc \<Rightarrow> nat" where
  "closing_left D_open = 4"
| "closing_left D_wait = 3"
| "closing_left D_stop = 2"
| "closing_left D_join = 1"
| "closing_left D_closed = 0"

definition caller_left :: "log_threads \<Rightarrow> nat" where
  "caller_left s = 3 * length (todo s) + (case ppc (ring s) of P_idle \<Rightarrow> 0 | P_written v \<Rightarrow> 2 | P_indexed \<Rightarrow> 1) +
     closing_left (dpc s)"

definition log_left :: "LogElement list \<Rightarrow> log_threads \<Rightarrow> nat" where
  "log_left es s = 20 * caller_left s + 20 * (length es - freed (ring s)) + loop_left (pending s) (lpc s)"

lemma loop_left_9: "loop_left k l \<le> 9"
  by (cases "(k, l)" rule: loop_left.cases) auto

lemma caller_helps:
  "caller_left t < caller_left s \<Longrightarrow> freed (ring t) = freed (ring s) \<Longrightarrow> lpc t = lpc s \<Longrightarrow> log_left es t < log_left es s"
  using loop_left_9 [of "pending t" "lpc s"] by (simp add: log_left_def)

lemma stepI: "step s t \<Longrightarrow> Q t \<Longrightarrow> \<exists>t. step s t \<and> Q t"
  by blast

text \<open>Unless it waits, the caller has a step that brings it on.\<close>

lemma caller_helpful:
  assumes "\<not> (todo s \<noteq> [] \<and> ppc (ring s) = P_idle \<and> m \<le> pending s)" "\<not> (dpc s = D_wait \<and> lfq_size (log_ring s) \<noteq> 0)" "\<not> (dpc s = D_join \<and> lpc s \<noteq> L_done)" "dpc s \<noteq> D_closed"
    and push: "pushes_inv es s"
  shows "\<exists>t. (caller_step s t \<and> (pending s < m \<or> todo t = todo s)) \<and> log_left es t < log_left es s"
proof (cases "ppc (ring s)")
  case (P_written v)
  from caller_step.d_index [OF this] show ?thesis
    by (intro exI conjI, assumption) (simp, rule caller_helps, simp_all add: caller_left_def P_written)
next
  case P_indexed
  from caller_step.d_count [OF this] show ?thesis
    by (intro exI conjI, assumption) (simp, rule caller_helps, simp_all add: caller_left_def P_indexed)
next
  case idle: P_idle
  show ?thesis
  proof (cases "todo s")
    case (Cons v vs)
    have "pending s < m" using assms(1) idle Cons by simp
    with caller_step.d_write [OF Cons idle]
    have "\<exists>t. (caller_step s t \<and> (pending s < m \<or> todo t = todo s)) \<and> caller_left t < caller_left s \<and>
        freed (ring t) = freed (ring s) \<and> lpc t = lpc s" by (auto simp: caller_left_def idle Cons)
    then show ?thesis using caller_helps by blast
  next
    case Nil
    have "\<exists>t. caller_step s t \<and> todo t = todo s \<and> caller_left t < caller_left s \<and> freed (ring t) = freed (ring s) \<and> lpc t = lpc s"
    proof (cases "dpc s")
      case D_open
      from caller_step.d_close [OF this Nil idle] show ?thesis
        by (rule stepI) (simp add: caller_left_def D_open idle)
    next
      case D_wait
      from caller_step.d_wait [OF this] assms(2) D_wait show ?thesis
        by (intro exI [of _ "s\<lparr>dpc := D_stop\<rparr>"]) (simp add: caller_left_def idle)
    next
      case D_stop
      from caller_step.d_stop [OF this] show ?thesis
        by (rule stepI) (simp add: caller_left_def D_stop idle)
    next
      case D_join
      with assms(3) have "lpc s = L_done" by simp
      from caller_step.d_join [OF D_join this] show ?thesis
        by (rule stepI) (simp add: caller_left_def D_join idle)
    qed (use assms(4) in simp)
    then show ?thesis using caller_helps by blast
  qed
qed

text \<open>
  When the caller waits for the logger thread, or for room in the ring, that thread has such a
  step.
\<close>

lemma logger_helpful:
  assumes inv: "log_inv m ff fd n es s" and m: "0 < m" "m < n" "n < 2 ^ 63"
    and waits: "dpc s = D_wait \<and> lfq_size (log_ring s) \<noteq> 0 \<or> dpc s = D_join \<and> lpc s \<noteq> L_done \<or>
      todo s \<noteq> [] \<and> ppc (ring s) = P_idle \<and> m \<le> pending s"
  shows "\<exists>t. flush_step ff fd s t \<and> log_left es t < log_left es s"
proof -
  let ?f = "freed (ring s)" and ?l = "length (sent (ring s))"
  have spsc: "spsc_inv m n (ring s)" and idle: "ppc (ring s) = P_idle" and le: "?l \<le> length es"
    using inv waits by (auto simp: log_inv_def pushes_inv_def)
  have fl: "?f \<le> ?l" using spsc by (simp add: spsc_inv_defs)
  have peek: "getNextToRead (log_ring s) = (if ?f < ?l then Some (?f mod n) else None)"
    using getNextToRead_indices [of m n "ring s"] spsc m by (simp add: spsc_inv_def)
  have size: "lfq_size (log_ring s) = 0 \<longleftrightarrow> ?f = ?l \<and> cpc (ring s) = C_idle" by (rule size_zero [OF spsc m(2,3) idle])
  have cpc: "cpc (ring s) = loop_cpc (lpc s)" and some: "\<And>i. lpc s = L_test (Some i) \<Longrightarrow> ?f < ?l"
    using inv by (auto simp: log_inv_def loop_inv_def)
  have join: "dpc s = D_join \<Longrightarrow> \<not> flag s" and wait: "dpc s \<noteq> D_join \<Longrightarrow> flag s" and live: "lpc s \<noteq> L_done"
    using inv waits by (auto simp: log_inv_def closing_inv_def pushes_inv_def)
  have room: "todo s \<noteq> [] \<Longrightarrow> dpc s = D_open \<and> ?f < ?l"
    using inv waits m(1) by (auto simp: log_inv_def pushes_inv_def pending_def)
  have less: "lpc s = L_store \<Longrightarrow> ?f < ?l" using spsc cpc by (auto simp: spsc_inv_def read_inv_def)
  note left = log_left_def caller_left_def pending_def idle
  show ?thesis
  proof (cases "lpc s")
    case L_guard
    with cpc waits size room fl wait have "flag s \<Longrightarrow> ?f < ?l" by (cases "dpc s = D_join") (auto dest: join)
    with flush_step.l_guard [OF L_guard] show ?thesis by (rule_tac stepI) (auto simp: left L_guard)
  next
    case L_peek
    from flush_step.l_peek [OF this] show ?thesis
      by (rule stepI) (use fl L_peek peek in \<open>auto simp: left\<close>)
  next
    case (L_test x)
    show ?thesis
    proof (cases x)
      case None
      from flush_step.l_leave [OF L_test] None show ?thesis by (intro exI conjI) (auto simp: left L_test)
    next
      case (Some i)
      with L_test some have "?f < ?l" by simp
      with size have "lfq_size (log_ring s) \<noteq> 0" by simp
      from flush_step.l_enter [OF L_test [unfolded Some] this] show ?thesis
        by (rule stepI) (simp add: left L_test Some)
    qed
  next
    case (L_write i)
    from flush_step.l_write [OF this] show ?thesis by (rule stepI) (simp add: left L_write)
  next
    case L_store
    from flush_step.l_store [OF this] show ?thesis
      by (rule stepI) (use less [OF L_store] le L_store in \<open>simp add: left\<close>)
  next
    case L_count
    from flush_step.l_count [OF this] show ?thesis by (rule stepI) (simp add: left L_count)
  next
    case L_sleep
    from flush_step.l_sleep [OF this] show ?thesis by (rule stepI) (simp add: left L_sleep)
  qed (use live in simp)
qed

interpretation logging: finishing_system "log_init n es" "log_step m ff fd"
  "\<lambda>s. 0 < m \<and> m < n \<and> n < 2 ^ 63 \<longrightarrow> log_inv m ff fd n es s" "log_left es"
  "\<lambda>s. 0 < m \<and> m < n \<and> n < 2 ^ 63 \<longrightarrow> dpc s = D_closed" for m n es ff fd
proof unfold_locales
  show "0 < m \<and> m < n \<and> n < 2 ^ 63 \<longrightarrow> log_inv m ff fd n es (log_init n es)" by (auto intro: log_inv_init)
  show "0 < m \<and> m < n \<and> n < 2 ^ 63 \<longrightarrow> log_inv m ff fd n es t"
    if "log_step m ff fd s t" "0 < m \<and> m < n \<and> n < 2 ^ 63 \<longrightarrow> log_inv m ff fd n es s" for s t
    using that log_step_inv by blast
  fix s
  assume inv: "0 < m \<and> m < n \<and> n < 2 ^ 63 \<longrightarrow> log_inv m ff fd n es s"
    and go: "\<not> (0 < m \<and> m < n \<and> n < 2 ^ 63 \<longrightarrow> dpc s = D_closed)"
  then have i: "log_inv m ff fd n es s" "0 < m" "m < n" "n < 2 ^ 63" "dpc s \<noteq> D_closed" by auto
  then have push: "pushes_inv es s" by (simp add: log_inv_def)
  show "\<exists>t. log_step m ff fd s t \<and> log_left es t < log_left es s"
    using caller_helpful [OF _ _ _ i(5) push, of m] logger_helpful [OF i(1-4)] log_step.intros by blast
qed


subsection \<open>Properties\<close>

text \<open>
  A series of log calls, as one thread makes them: what it pushes one after the other is the
  program of the caller.
\<close>

fun log_calls :: "(string \<times> log_arg list) list \<Rightarrow> LogElement LFQueue \<Rightarrow> LogElement LFQueue res" where
  "log_calls [] q = Inr q"
| "log_calls ((s, as) # calls) q = bnd (log_fmt s as q) (log_calls calls)"

definition log_elements :: "(string \<times> log_arg list) list \<Rightarrow> LogElement list" where
  "log_elements calls = concat (map (\<lambda>(s, as). fill (tokens s) as) calls)"

lemma log_calls_elements:
  "\<forall>(s, as) \<in> set calls. holes s = length as \<Longrightarrow> log_calls calls q = Inr (push_list push (log_elements calls) q)"
  by (induction calls arbitrary: q) (auto simp: log_elements_def log_fmt_spec push_list_append)

lemma render_elements:
  "render_all ff fd (log_elements calls) = concat (map (\<lambda>(s, as). log_text ff fd s as) calls)"
  by (induction calls) (auto simp: log_elements_def log_text_def render_all_def)

lemma closed_written:
  assumes "log_inv m ff fd n es s" "dpc s = D_closed"
  shows "written s = render_all ff fd es"
  using assms by (auto simp: log_inv_def closing_inv_def pushes_inv_def spsc_inv_def read_inv_def)

text \<open>
  C23: the log file under concurrency, for a ring that is never filled: some bound \<open>m\<close> below its
  number of slots (and above zero; the ring has fewer than 2 ^ 63 slots) holds for the elements
  pending whenever the caller writes another one, and one thread makes all the calls. Then in
  every interleaving of the logger thread with that thread, which makes a series of log calls of
  any total length and then runs the destructor, the file holds at any moment the text of a
  prefix of the elements pushed, never a torn, repeated or reordered one; and when the
  destructor has returned it holds the text of all the calls.
\<close>

theorem log_file_prefix:
  assumes "reachable (log_init n (log_elements calls)) (log_step m ff fd) s"
    and "0 < m" "m < n" "n < 2 ^ 63"
  shows "(\<exists>k. written s = render_all ff fd (take k (log_elements calls))) \<and>
    (dpc s = D_closed \<longrightarrow> written s = concat (map (\<lambda>(s, as). log_text ff fd s as) calls))"
proof
  have inv: "log_inv m ff fd n (log_elements calls) s" using logging.reachable_inv [OF assms(1)] assms(2-4) by blast
  then have "\<exists>k. got (ring s) = take k (sent (ring s))"
    by (auto simp: log_inv_def spsc_inv_def read_inv_def split: consumer_pc.splits)
  moreover have "\<exists>zs. log_elements calls = sent (ring s) @ zs" using inv unfolding log_inv_def pushes_inv_def by metis
  ultimately have "\<exists>k. got (ring s) = take k (log_elements calls)"
    by (metis append_take_drop_id append.assoc append_eq_conv_conj)
  with inv show "\<exists>k. written s = render_all ff fd (take k (log_elements calls))" by (auto simp: log_inv_def)
  show "dpc s = D_closed \<longrightarrow> written s = concat (map (\<lambda>(s, as). log_text ff fd s as) calls)"
    using closed_written [OF inv] by (simp add: render_elements)
qed

definition example_calls :: "(string \<times> log_arg list) list" where
  "example_calls = [(''n=%'', [A_int (- 5)]), (''!'', [])]"

lemma example_log:
  "length (log_elements example_calls) = 4"
  "concat (map (\<lambda>(s, as). log_text (\<lambda>_. []) (\<lambda>_. []) s as) example_calls) = ''n=-5!''"
  by code_simp+

text \<open>Four elements through a ring of three slots: it goes round.\<close>

theorem log_file_prefix_witness:
  "\<exists>s. reachable (log_init 3 (log_elements example_calls)) (log_step 2 (\<lambda>_. []) (\<lambda>_. [])) s \<and> written s = ''n=-5!''"
proof -
  let ?init = "log_init 3 (log_elements example_calls)" and ?step = "log_step 2 (\<lambda>_. []) (\<lambda>_. [])"
  have b: "0 < (2::nat)" "(2::nat) < 3" "(3::nat) < 2 ^ 63" by simp_all
  obtain k s where "(?step ^^ k) ?init s" "dpc s = D_closed"
    using logging.finishes [of 2 3 "\<lambda>_. []" "\<lambda>_. []" "log_elements example_calls", OF logging.init_inv] b by blast
  then have r: "reachable ?init ?step s" "dpc s = D_closed" using reachable_run [OF reachable.start] by auto
  with log_file_prefix [OF r(1) b] example_log(2) show ?thesis by auto
qed

text \<open>
  C24: the destructor of a logger can always finish while the ring is not filled. From every
  state that a run under such a bound can reach, whatever was scheduled so far, the two threads
  have a way to go on under the same bound after which the destructor has returned and the file
  is complete: no such interleaving loses an element or leaves the threads waiting for each
  other. (Without a bound this fails: a ring that is exactly full looks empty to the logger
  thread, and the destructor waits for ever.)
\<close>

theorem log_can_close:
  assumes "reachable (log_init n (log_elements calls)) (log_step m ff fd) s"
    and "0 < m" "m < n" "n < 2 ^ 63"
  shows "\<exists>k t. (log_step m ff fd ^^ k) s t \<and> dpc t = D_closed \<and>
    written t = concat (map (\<lambda>(s, as). log_text ff fd s as) calls)"
proof -
  let ?I = "\<lambda>s. 0 < m \<and> m < n \<and> n < 2 ^ 63 \<longrightarrow> log_inv m ff fd n (log_elements calls) s"
  have inv: "?I s" using logging.reachable_inv [OF assms(1)] by blast
  obtain k t where t: "(log_step m ff fd ^^ k) s t" "dpc t = D_closed" using logging.finishes [OF inv] assms(2-4) by blast
  have "log_inv m ff fd n (log_elements calls) t" using logging.run_inv [OF t(1) inv] assms(2-4) by blast
  from closed_written [OF this t(2)] t show ?thesis by (auto simp: render_elements)
qed

theorem log_can_close_witness:
  "\<exists>k t. (log_step 2 (\<lambda>_. []) (\<lambda>_. []) ^^ k) (log_init 3 (log_elements example_calls)) t \<and> dpc t = D_closed \<and>
    written t = ''n=-5!''"
  using example_log(2) log_can_close [OF reachable.start, of 2 3 "\<lambda>_. []" "\<lambda>_. []" example_calls] by simp

end
