(* ===== verification/Thread_Utils.thy ===== *)
theory Thread_Utils
  imports Systems
begin

text \<open>
  include/thread_utils.h: a thread is started and its creator waits for one of two flags. The
  creator and the new thread are two small programs over the flags; a step of the system is
  one access of one of them, in any order. Everything the lambda \<open>thread_body\<close> captures is
  captured by reference: \<open>core_id\<close>, the two flags, and the objects \<open>name\<close>, \<open>func\<close> and
  \<open>args\<close> refer to, which are temporaries of the caller's expression. They are gone once
  \<open>createAndStartThread\<close> has returned, so the state records whether the new thread reached
  for one of them after that. The kernel decides whether the affinity can be set.
\<close>

definition setThreadCore :: "(int set \<Rightarrow> int) \<Rightarrow> int \<Rightarrow> bool" where
  "setThreadCore pthread_setaffinity core_id \<longleftrightarrow> pthread_setaffinity {core_id} = 0"

text \<open>Where the two threads are.\<close>

datatype creator_pc =
    C_new                  \<comment> \<open>\<open>new std::thread(thread_body)\<close>\<close>
  | C_wait                 \<comment> \<open>\<open>while (running == false and failed == false)\<close>\<close>
  | C_test                 \<comment> \<open>\<open>if (failed == true)\<close>\<close>
  | C_join                 \<comment> \<open>\<open>t->join(); delete t\<close>\<close>
  | C_returned bool        \<comment> \<open>whether the pointer returned is a thread\<close>

datatype thread_pc =
    T_none                 \<comment> \<open>not created\<close>
  | T_pin                  \<comment> \<open>the test of the affinity\<close>
  | T_failed               \<comment> \<open>the message about it and \<open>failed = true\<close>\<close>
  | T_return               \<comment> \<open>the \<open>return\<close> after that store\<close>
  | T_running              \<comment> \<open>the message and \<open>running = true\<close>\<close>
  | T_call                 \<comment> \<open>about to call \<open>func\<close> with \<open>args\<close>\<close>
  | T_func                 \<comment> \<open>inside \<open>func\<close>\<close>
  | T_done                 \<comment> \<open>the thread's body has ended\<close>

record start_state =
  creator :: creator_pc
  new_thread :: thread_pc
  running_flag :: bool
  failed_flag :: bool
  dangling_use :: bool

definition start_init :: start_state where
  "start_init = \<lparr>creator = C_new, new_thread = T_none, running_flag = False, failed_flag = False, dangling_use = False\<rparr>"

definition returned :: "start_state \<Rightarrow> bool" where
  "returned s \<longleftrightarrow> (case creator s of C_returned _ \<Rightarrow> True | _ \<Rightarrow> False)"

text \<open>
  \<open>pinned\<close> is the value of \<open>not (core_id >= 0 and setThreadCore(core_id) == false)\<close>. \<open>sleep\<close>
  is the one step that changes nothing.
\<close>

definition pinned :: "(int set \<Rightarrow> int) \<Rightarrow> int \<Rightarrow> bool" where
  "pinned affinity core_id \<longleftrightarrow> \<not> (core_id \<ge> 0 \<and> \<not> setThreadCore affinity core_id)"

definition captures :: "start_state \<Rightarrow> start_state" where
  "captures s = s\<lparr>dangling_use := dangling_use s \<or> returned s\<rparr>"

inductive start_step :: "(int set \<Rightarrow> int) \<Rightarrow> int \<Rightarrow> start_state \<Rightarrow> start_state \<Rightarrow> bool" for affinity core_id where
  create: "creator s = C_new \<Longrightarrow> start_step affinity core_id s (s\<lparr>creator := C_wait, new_thread := T_pin\<rparr>)"
| woken: "creator s = C_wait \<Longrightarrow> running_flag s \<or> failed_flag s \<Longrightarrow>
    start_step affinity core_id s (s\<lparr>creator := C_test\<rparr>)"
| test_failed: "creator s = C_test \<Longrightarrow> failed_flag s \<Longrightarrow> start_step affinity core_id s (s\<lparr>creator := C_join\<rparr>)"
| test_running: "creator s = C_test \<Longrightarrow> \<not> failed_flag s \<Longrightarrow>
    start_step affinity core_id s (s\<lparr>creator := C_returned True\<rparr>)"
| join: "creator s = C_join \<Longrightarrow> new_thread s = T_done \<Longrightarrow>
    start_step affinity core_id s (s\<lparr>creator := C_returned False\<rparr>)"
| pin: "new_thread s = T_pin \<Longrightarrow>
    start_step affinity core_id s ((captures s)\<lparr>new_thread := if pinned affinity core_id then T_running else T_failed\<rparr>)"
| set_failed: "new_thread s = T_failed \<Longrightarrow>
    start_step affinity core_id s ((captures s)\<lparr>failed_flag := True, new_thread := T_return\<rparr>)"
| body_returns: "new_thread s = T_return \<Longrightarrow> start_step affinity core_id s (s\<lparr>new_thread := T_done\<rparr>)"
| set_running: "new_thread s = T_running \<Longrightarrow>
    start_step affinity core_id s ((captures s)\<lparr>running_flag := True, new_thread := T_call\<rparr>)"
| call_func: "new_thread s = T_call \<Longrightarrow> start_step affinity core_id s ((captures s)\<lparr>new_thread := T_func\<rparr>)"
| func_ends: "new_thread s = T_func \<Longrightarrow> start_step affinity core_id s (s\<lparr>new_thread := T_done\<rparr>)"

definition sleep :: "start_state \<Rightarrow> start_state \<Rightarrow> bool" where
  "sleep s s' \<longleftrightarrow> creator s = C_wait \<and> \<not> running_flag s \<and> \<not> failed_flag s \<and> s' = s"

definition start_turn :: "(int set \<Rightarrow> int) \<Rightarrow> int \<Rightarrow> start_state \<Rightarrow> start_state \<Rightarrow> bool" where
  "start_turn affinity core_id s s' \<longleftrightarrow> start_step affinity core_id s s' \<or> sleep s s'"

abbreviation start_reach :: "(int set \<Rightarrow> int) \<Rightarrow> int \<Rightarrow> start_state \<Rightarrow> bool" where
  "start_reach affinity core_id \<equiv> reachable start_init (start_turn affinity core_id)"

lemma start_reach_step: "start_reach affinity core_id s \<Longrightarrow> start_step affinity core_id s s' \<Longrightarrow> start_reach affinity core_id s'"
  by (auto simp: start_turn_def intro: reachable.step)

inductive_cases start_stepE: "start_step affinity core_id s s'"

subsection \<open>The invariant\<close>

text \<open>How the flags and the two program counters go together.\<close>

definition start_inv :: "bool \<Rightarrow> start_state \<Rightarrow> bool" where
  "start_inv ok s \<longleftrightarrow>
     (creator s = C_new \<longleftrightarrow> new_thread s = T_none) \<and>
     (running_flag s \<longleftrightarrow> ok \<and> new_thread s \<in> {T_call, T_func, T_done}) \<and>
     (failed_flag s \<longleftrightarrow> \<not> ok \<and> new_thread s \<in> {T_return, T_done}) \<and>
     (new_thread s \<in> {T_failed, T_return} \<longrightarrow> \<not> ok) \<and> (new_thread s = T_running \<longrightarrow> ok) \<and>
     (new_thread s \<in> {T_call, T_func} \<longrightarrow> ok) \<and>
     (creator s = C_test \<longrightarrow> running_flag s \<or> failed_flag s) \<and>
     (creator s = C_join \<longrightarrow> failed_flag s) \<and>
     (creator s = C_returned True \<longrightarrow> running_flag s) \<and>
     (creator s = C_returned False \<longrightarrow> failed_flag s \<and> new_thread s = T_done) \<and>
     (dangling_use s \<longrightarrow> creator s = C_returned True)"

lemma start_inv_init: "start_inv ok start_init"
  by (simp add: start_inv_def start_init_def)

lemma start_inv_step:
  "start_step affinity core_id s s' \<Longrightarrow> start_inv (pinned affinity core_id) s \<Longrightarrow> start_inv (pinned affinity core_id) s'"
  by (erule start_stepE) (auto simp: start_inv_def captures_def returned_def split: creator_pc.splits)

interpretation start: invariant_system start_init "start_turn affinity core_id" "start_inv (pinned affinity core_id)"
  for affinity core_id
  by unfold_locales (auto simp: start_inv_init start_turn_def sleep_def intro: start_inv_step)

subsection \<open>Progress\<close>

fun creator_left :: "creator_pc \<Rightarrow> nat" where
  "creator_left C_new = 10" | "creator_left C_wait = 3" | "creator_left C_test = 2" | "creator_left C_join = 1"
| "creator_left (C_returned _) = 0"

fun thread_left :: "thread_pc \<Rightarrow> nat" where
  "thread_left T_none = 0" | "thread_left T_pin = 4" | "thread_left T_failed = 2" | "thread_left T_return = 1" | "thread_left T_running = 3"
| "thread_left T_call = 2" | "thread_left T_func = 1" | "thread_left T_done = 0"

definition steps_left :: "start_state \<Rightarrow> nat" where
  "steps_left s = creator_left (creator s) + thread_left (new_thread s)"

lemma start_step_left: "start_step affinity core_id s s' \<Longrightarrow> steps_left s' < steps_left s"
  by (erule start_stepE) (auto simp: steps_left_def captures_def)

lemma start_progress:
  assumes "start_inv ok s" "\<not> returned s"
  shows "\<exists>s'. start_step affinity core_id s s'"
proof (cases "creator s")
  case C_new
  then show ?thesis by (blast intro: create)
next
  case C_wait
  show ?thesis
  proof (cases "new_thread s")
    case T_none
    with C_wait assms(1) show ?thesis by (simp add: start_inv_def)
  next
    case T_done
    with C_wait assms(1) have "running_flag s \<or> failed_flag s" by (auto simp: start_inv_def)
    with C_wait show ?thesis by (blast intro: woken)
  qed (blast intro: start_step.intros)+
next
  case C_test
  then show ?thesis by (blast intro: test_failed test_running)
next
  case C_join
  with assms(1) have "new_thread s \<in> {T_return, T_done}" by (auto simp: start_inv_def)
  with C_join show ?thesis by (blast intro: join body_returns)
next
  case (C_returned b)
  with assms(2) show ?thesis by (simp add: returned_def)
qed

text \<open>Without its sleeps, the start of a thread is a terminating system.\<close>

interpretation awake: terminating_system start_init "start_step affinity core_id" "start_inv (pinned affinity core_id)"
  steps_left returned for affinity core_id
  by unfold_locales (blast intro: start_inv_init start_inv_step start_step_left start_progress)+

text \<open>
  The result of a call, a thread or null, for the code that calls it; that the two threads
  arrive at it is what the first two properties below say.
\<close>

definition createAndStartThread :: "(int set \<Rightarrow> int) \<Rightarrow> int \<Rightarrow> bool" where
  "createAndStartThread affinity core_id \<longleftrightarrow> pinned affinity core_id"

subsection \<open>Properties\<close>

text \<open>
  C38: what the result of \<open>createAndStartThread\<close> means. If it returns a thread, the affinity
  was set as asked, \<open>running\<close> is true and the new thread is at, in or past its function; if
  it returns null, the affinity could not be set and the body of the new thread has ended,
  not only stored \<open>failed\<close>, without calling the function and without having used anything it
  captured after its lifetime. Until then the creator is held at \<open>join\<close>: a state in which the
  new thread is still between the store to \<open>failed\<close> and its return is one in which nothing
  has been returned.
\<close>

theorem start_result:
  assumes "start_reach affinity core_id s" "creator s = C_returned b"
  shows "b = createAndStartThread affinity core_id \<and>
    (if b then running_flag s \<and> new_thread s \<in> {T_call, T_func, T_done}
     else failed_flag s \<and> new_thread s = T_done \<and> \<not> dangling_use s)"
  using start.reachable_inv [OF assms(1)] assms(2) by (cases b) (auto simp: start_inv_def createAndStartThread_def)

text \<open>
  C39: starting a thread cannot get stuck. Whatever state the two threads have reached and
  however they are scheduled from there, they make at most ten more steps, sleeping apart;
  where neither can make one, \<open>createAndStartThread\<close> has returned; and they can always get
  there.
\<close>

theorem start_terminates:
  assumes "start_reach affinity core_id s"
  shows "(\<forall>n s'. (start_step affinity core_id ^^ n) s s' \<longrightarrow> n \<le> 10) \<and>
    ((\<nexists>s'. start_step affinity core_id s s') \<longrightarrow> returned s) \<and>
    (\<exists>n s'. (start_step affinity core_id ^^ n) s s' \<and> returned s')"
proof -
  have inv: "start_inv (pinned affinity core_id) s" by (rule start.reachable_inv [OF assms])
  have "steps_left s \<le> 10"
    using inv by (cases "creator s"; cases "new_thread s") (simp_all add: steps_left_def start_inv_def)
  with awake.run_bounded [OF _ inv] awake.stuck_finished [OF inv] awake.finishes [OF inv] show ?thesis by fastforce
qed

text \<open>
  C40: the new thread can use what it captured after it is gone. Whenever the thread starts
  at all, there is a run in which \<open>createAndStartThread\<close> returns between the store to
  \<open>running\<close> and the call of \<open>func\<close>, so that the call goes through references to objects
  whose lifetime has ended.
\<close>

theorem start_dangles:
  assumes "pinned affinity core_id"
  shows "\<exists>s. start_reach affinity core_id s \<and> creator s = C_returned True \<and> new_thread s = T_func \<and> dangling_use s"
proof -
  let ?s = "\<lambda>c t r d. \<lparr>creator = c, new_thread = t, running_flag = r, failed_flag = False, dangling_use = d\<rparr>"
  note go = start_reach_step [of affinity core_id]
  have 1: "start_reach affinity core_id (?s C_wait T_pin False False)"
    using go [OF reachable.start create] by (simp add: start_init_def)
  have 2: "start_reach affinity core_id (?s C_wait T_running False False)"
    using go [OF 1 pin] assms by (simp add: captures_def returned_def)
  have 3: "start_reach affinity core_id (?s C_wait T_call True False)"
    using go [OF 2 set_running] by (simp add: captures_def returned_def)
  have 4: "start_reach affinity core_id (?s C_test T_call True False)" using go [OF 3 woken] by simp
  have 5: "start_reach affinity core_id (?s (C_returned True) T_call True False)" using go [OF 4 test_running] by simp
  have "start_reach affinity core_id (?s (C_returned True) T_func True True)"
    using go [OF 5 call_func] by (simp add: captures_def returned_def)
  then show ?thesis by (intro exI) auto
qed

theorem start_dangles_witness:
  "\<exists>s. start_reach (\<lambda>_. 22) (- 1) s \<and> creator s = C_returned True \<and> dangling_use s"
  using start_dangles [of "\<lambda>_. 22" "- 1"] by (auto simp: pinned_def)

theorem start_terminates_witness:
  "\<exists>n s'. n \<le> 10 \<and> (start_step (\<lambda>_. 0) 3 ^^ n) start_init s' \<and> returned s'"
  using start_terminates [OF reachable.start, of "\<lambda>_. 0" 3] by blast

theorem start_result_witness:
  "\<exists>s. start_reach (\<lambda>_. 22) 3 s \<and> creator s = C_returned False \<and> new_thread s = T_done"
proof -
  let ?s = "\<lambda>c t f. \<lparr>creator = c, new_thread = t, running_flag = False, failed_flag = f, dangling_use = False\<rparr>"
  note go = start_reach_step [of "\<lambda>_. 22" 3]
  have 1: "start_reach (\<lambda>_. 22) 3 (?s C_wait T_pin False)"
    using go [OF reachable.start create] by (simp add: start_init_def)
  have 2: "start_reach (\<lambda>_. 22) 3 (?s C_wait T_failed False)"
    using go [OF 1 pin] by (simp add: captures_def returned_def pinned_def setThreadCore_def)
  have 3: "start_reach (\<lambda>_. 22) 3 (?s C_wait T_return True)"
    using go [OF 2 set_failed] by (simp add: captures_def returned_def)
  have 4: "start_reach (\<lambda>_. 22) 3 (?s C_test T_return True)" using go [OF 3 woken] by simp
  have 5: "start_reach (\<lambda>_. 22) 3 (?s C_join T_return True)" using go [OF 4 test_failed] by simp
  have 5: "start_reach (\<lambda>_. 22) 3 (?s C_join T_done True)" using go [OF 5 body_returns] by simp
  have 6: "start_reach (\<lambda>_. 22) 3 (?s (C_returned False) T_done True)" using go [OF 5 join] by simp
  from start_result [OF 6] 6 show ?thesis by (intro exI [of _ "?s (C_returned False) T_done True"]) simp
qed

end
