(* ===== verification/Matching_Engine.thy ===== *)
theory Matching_Engine
  imports Book_Properties Thread_Utils
begin

text \<open>
  The engine of src/matching_engine.cpp: its constructor, \<open>start\<close>, \<open>stop\<close>,
  \<open>processClientRequest\<close> and the loop of \<open>run\<close>. The engine's own thread and the thread that
  writes requests into \<open>incoming_request_\<close> meet at that ring only, so a run is a sequence
  of events: a request arrives, or the loop body runs once while \<open>run_\<close> is set, or \<open>stop\<close>
  is called from outside.
\<close>

record MatchingEngine =
  ticker_order_book :: "MEOrderBook list"
  incoming_request :: "MEClientRequest LFQueue"
  engine_io :: EngineIO
  run_flag :: bool

text \<open>
  The constructor. \<open>raw\<close> is what the memory of the book of each ticker held before; the
  rings behind the three pointers and the environment of the log are arguments.
\<close>

definition newMatchingEngine :: "(nat \<Rightarrow> (nat \<Rightarrow> nat \<Rightarrow> ptr) \<times> (nat \<Rightarrow> ptr)) \<Rightarrow> MEClientRequest LFQueue \<Rightarrow>
    EngineIO \<Rightarrow> MatchingEngine" where
  "newMatchingEngine raw client_request io =
     \<lparr>ticker_order_book = map (\<lambda>i. newMEOrderBook (fst (raw i)) (snd (raw i)) (of_nat i)) [0..<ME_MAX_TICKERS],
      incoming_request = client_request, engine_io = io\<lparr>io_logger := newLogger, io_time_str := []\<rparr>,
      run_flag = False\<rparr>"

text \<open>
  \<open>start\<close> asks for a thread on any core, the core id -1, so the affinity is never touched.
\<close>

definition start :: "(int set \<Rightarrow> int) \<Rightarrow> MatchingEngine \<Rightarrow> MatchingEngine res" where
  "start affinity e =
     (let e = e\<lparr>run_flag := True\<rparr> in
      bnd (ASSERT (createAndStartThread affinity (- 1)) ''Failed to start MatchingEngine thread.'') (\<lambda>_. Inr e))"

lemma start_succeeds: "start affinity e = Inr (e\<lparr>run_flag := True\<rparr>)"
  by (simp add: start_def createAndStartThread_def pinned_def)

definition stop :: "MatchingEngine \<Rightarrow> MatchingEngine" where
  "stop e = e\<lparr>run_flag := False\<rparr>"

definition processClientRequest :: "MEClientRequest \<Rightarrow> MatchingEngine \<Rightarrow> MatchingEngine res" where
  "processClientRequest client_request e =
     (if unat (rq_ticker_id client_request) < length (ticker_order_book e)
      then let order_book = ticker_order_book e ! unat (rq_ticker_id client_request) in
        (case rq_type client_request of
           Req_NEW \<Rightarrow> Inr e
         | Req_CANCEL \<Rightarrow> Inr e
         | _ \<Rightarrow> FATAL (''Received invalid client-request-type:'' @ clientRequestTypeToString (rq_type client_request)))
      else Inl Out_of_bounds)"

text \<open>The two log lines of \<open>run\<close>, \<open>"%:% %() %\n"\<close> and \<open>"%:% %() % Processing %\n"\<close>.\<close>

definition run_fmt :: string where
  "run_fmt = ''%:% %() %'' @ [CHR 0x0A]"

definition processing_fmt :: string where
  "processing_fmt = ''%:% %() % Processing %'' @ [CHR 0x0A]"

definition log_run :: "string \<Rightarrow> 32 word \<Rightarrow> string list \<Rightarrow> EngineIO \<Rightarrow> EngineIO res" where
  "log_run fmt line texts io =
     (let io1 = read_time io in
      bnd (log_fmt fmt ([A_cstr (io_file io1), A_int line, A_cstr ''run'', A_string (io_time_str io1)] @ map A_string texts)
             (log_queue (io_logger io1)))
        (\<lambda>q. Inr (io1\<lparr>io_logger := (io_logger io1)\<lparr>log_queue := q\<rparr>\<rparr>)))"

definition run_begin :: "MatchingEngine \<Rightarrow> MatchingEngine res" where
  "run_begin e = bnd (log_run run_fmt 33 [] (engine_io e)) (\<lambda>io. Inr (e\<lparr>engine_io := io\<rparr>))"

text \<open>
  The body of the loop. \<open>me_client_request\<close> points into the ring, so the request is read
  there; it is given back only after it was processed.
\<close>

definition run_body :: "MatchingEngine \<Rightarrow> MatchingEngine res" where
  "run_body e =
     (case getNextToRead (incoming_request e) of
        None \<Rightarrow> Inr e
      | Some i \<Rightarrow>
          let me_client_request = q_store (incoming_request e) i in
          bnd (log_run processing_fmt 37 [requestToString me_client_request] (engine_io e)) (\<lambda>io.
          bnd (processClientRequest me_client_request (e\<lparr>engine_io := io\<rparr>)) (\<lambda>e.
          Inr (e\<lparr>incoming_request := updataReadIndex (incoming_request e)\<rparr>))))"

datatype engine_event = Request MEClientRequest | Loop | Stop

fun engine_step :: "engine_event \<Rightarrow> MatchingEngine \<Rightarrow> MatchingEngine res" where
  "engine_step (Request r) e = Inr (e\<lparr>incoming_request := push r (incoming_request e)\<rparr>)"
| "engine_step Loop e = (if run_flag e then run_body e else Inr e)"
| "engine_step Stop e = Inr (stop e)"

fun engine_run :: "engine_event list \<Rightarrow> MatchingEngine \<Rightarrow> MatchingEngine res" where
  "engine_run [] e = Inr e"
| "engine_run (ev # evs) e = bnd (engine_step ev e) (engine_run evs)"

subsection \<open>What a step does\<close>

lemma log_run_total:
  assumes "holes fmt = 4 + length texts"
  shows "\<exists>io'. log_run fmt line texts io = Inr io' \<and> same_rings io io'"
  using assms by (simp add: log_run_def Let_def log_fmt_spec same_rings_def read_time_def)

lemma holes_run: "holes run_fmt = 4" "holes processing_fmt = 5"
  by (simp_all add: run_fmt_def processing_fmt_def holes_def)

text \<open>What no step of the engine touches.\<close>

definition idle_step :: "MatchingEngine \<Rightarrow> MatchingEngine \<Rightarrow> bool" where
  "idle_step e e' \<longleftrightarrow> ticker_order_book e' = ticker_order_book e \<and> same_rings (engine_io e) (engine_io e')"

lemma idle_step_refl [simp]: "idle_step e e"
  by (simp add: idle_step_def same_rings_def)

lemma idle_step_trans: "idle_step a b \<Longrightarrow> idle_step b c \<Longrightarrow> idle_step a c"
  by (simp add: idle_step_def same_rings_def)

lemma processClientRequest_Inr_iff:
  "processClientRequest r e = Inr e' \<longleftrightarrow>
     e' = e \<and> unat (rq_ticker_id r) < length (ticker_order_book e) \<and> rq_type r \<in> {Req_NEW, Req_CANCEL}"
  by (cases "rq_type r") (auto simp: processClientRequest_def)

definition valid_request :: "MatchingEngine \<Rightarrow> MEClientRequest \<Rightarrow> bool" where
  "valid_request e r \<longleftrightarrow> unat (rq_ticker_id r) < length (ticker_order_book e) \<and> rq_type r \<in> {Req_NEW, Req_CANCEL}"

lemma run_body_reads:
  assumes "getNextToRead (incoming_request e) = Some i"
  shows "if valid_request e (q_store (incoming_request e) i)
    then \<exists>e'. run_body e = Inr e' \<and> idle_step e e' \<and> run_flag e' = run_flag e \<and>
      incoming_request e' = updataReadIndex (incoming_request e)
    else run_body e = Inl (if unat (rq_ticker_id (q_store (incoming_request e) i)) < length (ticker_order_book e)
      then Fatal (''Received invalid client-request-type:'' @ clientRequestTypeToString (rq_type (q_store (incoming_request e) i))) else Out_of_bounds)"
proof -
  let ?r = "q_store (incoming_request e) i"
  obtain io' where io: "log_run processing_fmt 37 [requestToString ?r] (engine_io e) = Inr io'" "same_rings (engine_io e) io'"
    using log_run_total [of processing_fmt "[requestToString ?r]" 37 "engine_io e"] holes_run by auto
  then show ?thesis
    by (cases "rq_type ?r") (auto simp: run_body_def Let_def assms processClientRequest_def FATAL_def
        valid_request_def idle_step_def)
qed

lemma run_body_idle: "run_body e = Inr e' \<Longrightarrow> idle_step e e'"
  using run_body_reads [of e] by (cases "getNextToRead (incoming_request e)") (auto simp: run_body_def split: if_splits)

lemma engine_step_idle: "engine_step ev e = Inr e' \<Longrightarrow> idle_step e e'"
  by (cases ev) (auto simp: stop_def idle_step_def same_rings_def dest: run_body_idle split: if_splits)

lemma engine_run_append: "engine_run (xs @ ys) e = bnd (engine_run xs e) (engine_run ys)"
proof (induction xs arbitrary: e)
  case (Cons x xs)
  then show ?case by (cases "engine_step x e") simp_all
qed simp

lemma loops_consume:
  assumes "lfq_ok (incoming_request e)" "run_flag e"
    and "items (incoming_request e) = good @ rest" "\<forall>r \<in> set good. valid_request e r"
  shows "\<exists>e'. engine_run (replicate (length good) Loop) e = Inr e' \<and> idle_step e e' \<and> run_flag e' \<and>
    lfq_ok (incoming_request e') \<and> items (incoming_request e') = rest"
  using assms
proof (induction good arbitrary: e)
  case Nil
  then show ?case by auto
next
  case (Cons r good)
  let ?q = "incoming_request e"
  have inv: "lfq_inv ?q" "items ?q \<noteq> []" using Cons.prems by (auto simp: lfq_ok_def)
  have nx: "getNextToRead ?q = Some (next_read_index ?q)" "q_store ?q (next_read_index ?q) = r"
    using getNextToRead_ok [OF Cons.prems(1)] hd_items [OF inv] Cons.prems(3) by auto
  obtain e1 where e1: "run_body e = Inr e1" "idle_step e e1" "run_flag e1" "incoming_request e1 = updataReadIndex ?q"
    using run_body_reads [OF nx(1)] nx(2) Cons.prems(2,4) by auto
  have "lfq_ok (updataReadIndex ?q) \<and> items (updataReadIndex ?q) = good @ rest"
    using lfq.deq_law [OF Cons.prems(1), of r "good @ rest"] pop_cases [OF Cons.prems(1)] Cons.prems(3) by auto
  moreover have "\<forall>r \<in> set good. valid_request e1 r"
    using Cons.prems(4) e1(2) by (simp add: valid_request_def idle_step_def)
  ultimately obtain e' where "engine_run (replicate (length good) Loop) e1 = Inr e'" "idle_step e1 e'" "run_flag e'"
    "lfq_ok (incoming_request e')" "items (incoming_request e') = rest"
    using Cons.IH [of e1] e1 by auto
  with e1 Cons.prems(2) idle_step_trans [OF e1(2)] show ?case by auto
qed

subsection \<open>Properties\<close>

text \<open>
  C14: whatever requests arrive and however the engine's loop is scheduled, a run that does
  not end in a fault leaves every order book and both outgoing rings as they were: NEW and
  CANCEL requests are read, logged and given back, and nothing else.
\<close>

theorem engine_never_trades:
  assumes "engine_run evs e = Inr e'"
  shows "ticker_order_book e' = ticker_order_book e \<and>
    outgoing_response (engine_io e') = outgoing_response (engine_io e) \<and>
    outgoing_md_updates (engine_io e') = outgoing_md_updates (engine_io e)"
proof -
  have "idle_step e e'"
    using assms
  proof (induction evs arbitrary: e)
    case (Cons ev evs)
    then show ?case using engine_step_idle idle_step_trans by (fastforce simp: res_simps)
  qed simp
  then show ?thesis by (simp add: idle_step_def same_rings_def)
qed

text \<open>
  C15: requests are processed in the order they arrived, one per turn of the loop, up to the
  first one the engine cannot process; that one ends the run, with a message that names its
  type if that is not NEW or CANCEL, by an access outside the book table if its ticker is not
  below eight.
\<close>

theorem engine_processes_in_order:
  assumes "lfq_ok (incoming_request e)" "run_flag e"
    and "items (incoming_request e) = good @ bad # rest"
    and "\<forall>r \<in> set good. valid_request e r" "\<not> valid_request e bad"
  shows "(\<exists>e'. engine_run (replicate (length good) Loop) e = Inr e' \<and> items (incoming_request e') = bad # rest) \<and>
    engine_run (replicate (length good + Suc n) Loop) e =
      Inl (if unat (rq_ticker_id bad) < length (ticker_order_book e)
           then Fatal (''Received invalid client-request-type:'' @ clientRequestTypeToString (rq_type bad)) else Out_of_bounds)"
proof -
  obtain e' where e': "engine_run (replicate (length good) Loop) e = Inr e'" "idle_step e e'" "run_flag e'"
    "lfq_ok (incoming_request e')" "items (incoming_request e') = bad # rest"
    using loops_consume [OF assms(1-4)] by blast
  let ?q = "incoming_request e'"
  have nx: "getNextToRead ?q = Some (next_read_index ?q)" "q_store ?q (next_read_index ?q) = bad"
    using getNextToRead_ok [OF e'(4)] hd_items [of ?q] e'(4,5) by (auto simp: lfq_ok_def)
  have same: "ticker_order_book e' = ticker_order_book e" using e'(2) by (simp add: idle_step_def)
  have "run_body e' = Inl (if unat (rq_ticker_id bad) < length (ticker_order_book e)
      then Fatal (''Received invalid client-request-type:'' @ clientRequestTypeToString (rq_type bad)) else Out_of_bounds)"
    using run_body_reads [OF nx(1)] assms(5) nx(2) by (simp add: valid_request_def same)
  with e'(3) have "engine_run (replicate (Suc n) Loop) e' = Inl (if unat (rq_ticker_id bad) < length (ticker_order_book e)
      then Fatal (''Received invalid client-request-type:'' @ clientRequestTypeToString (rq_type bad)) else Out_of_bounds)" by simp
  with e' show ?thesis unfolding replicate_add engine_run_append by simp
qed

definition example_engine :: "MEClientRequest list \<Rightarrow> MatchingEngine" where
  "example_engine rs = (newMatchingEngine (\<lambda>_. (\<lambda>_ _. None, \<lambda>_. None)) (push_list push rs (LFQueue 8 defaultRequest)) example_io)
     \<lparr>run_flag := True\<rparr>"

definition new_request :: MEClientRequest where
  "new_request = defaultRequest\<lparr>rq_type := Req_NEW, rq_client_id := 1, rq_ticker_id := 2, rq_order_id := 5,
     rq_side := Side_BUY, rq_price := 100, rq_quantity := 10\<rparr>"

lemma example_engine_simps [simp]:
  "length (ticker_order_book (example_engine rs)) = 8" "run_flag (example_engine rs)"
  "incoming_request (example_engine rs) = push_list push rs (LFQueue 8 defaultRequest)"
  by (simp_all add: example_engine_def newMatchingEngine_def ME_MAX_TICKERS_def)

lemma example_incoming:
  "length rs \<le> 7 \<Longrightarrow> lfq_ok (push_list push rs (LFQueue 8 defaultRequest)) \<and>
     items (push_list push rs (LFQueue 8 defaultRequest)) = rs"
  using lfq.push_list_contents [OF lfq_ok_LFQueue [of 8 defaultRequest], of rs] by simp

theorem engine_never_trades_witness:
  "\<exists>e'. engine_run [Loop] (example_engine [new_request]) = Inr e' \<and> items (incoming_request e') = [] \<and>
    ticker_order_book e' = ticker_order_book (example_engine [new_request]) \<and>
    outgoing_response (engine_io e') = outgoing_response (engine_io (example_engine [new_request])) \<and>
    outgoing_md_updates (engine_io e') = outgoing_md_updates (engine_io (example_engine [new_request]))"
proof -
  have "lfq_ok (incoming_request (example_engine [new_request]))"
    "items (incoming_request (example_engine [new_request])) = [new_request] @ []"
    using example_incoming [of "[new_request]"] by auto
  moreover have "valid_request (example_engine [new_request]) new_request"
    by (simp add: valid_request_def new_request_def defaultRequest_def)
  ultimately obtain e' where "engine_run (replicate (length [new_request]) Loop) (example_engine [new_request]) = Inr e'"
    "items (incoming_request e') = []"
    using loops_consume [of "example_engine [new_request]" "[new_request]" "[]"] by auto
  with engine_never_trades [of "replicate (length [new_request]) Loop" "example_engine [new_request]" e'] show ?thesis by auto
qed

theorem engine_processes_in_order_witness:
  "engine_run (replicate 3 Loop) (example_engine [new_request, defaultRequest\<lparr>rq_ticker_id := 1\<rparr>]) =
     Inl (Fatal ''Received invalid client-request-type:INVALID'')"
proof -
  let ?rs = "[new_request, defaultRequest\<lparr>rq_ticker_id := 1\<rparr>]"
  have "lfq_ok (incoming_request (example_engine ?rs))"
    "items (incoming_request (example_engine ?rs)) = [new_request] @ defaultRequest\<lparr>rq_ticker_id := 1\<rparr> # []"
    using example_incoming [of ?rs] by auto
  moreover have "\<forall>r \<in> set [new_request]. valid_request (example_engine ?rs) r"
    "\<not> valid_request (example_engine ?rs) (defaultRequest\<lparr>rq_ticker_id := 1\<rparr>)"
    by (simp_all add: valid_request_def new_request_def defaultRequest_def)
  ultimately show ?thesis
    using engine_processes_in_order [of "example_engine ?rs" "[new_request]" "defaultRequest\<lparr>rq_ticker_id := 1\<rparr>" "[]" 1]
    by (simp add: numeral_3_eq_3 defaultRequest_def del: replicate.simps)
qed

end
