(* ===== verification/Lifecycle.thy ===== *)
theory Lifecycle
  imports Matching_Engine
begin

text \<open>
  The beginnings and ends of the long-lived objects: the constructor and destructor of
  \<open>Logger\<close> (src/logger.cpp), the destructors of \<open>MEOrderBook\<close> (src/me_order_book.cpp) and
  \<open>MatchingEngine\<close> (src/matching_engine.cpp). A destructor that waits may wait for ever; then
  its value is \<open>Diverges\<close>.
\<close>

subsection \<open>The logger\<close>

text \<open>
  \<open>opened\<close> says whether the file could be opened. The pointer \<open>createAndStartThread\<close> returns
  is stored unchecked; it is the second component.
\<close>

definition openLogger :: "string \<Rightarrow> bool \<Rightarrow> (int set \<Rightarrow> int) \<Rightarrow> (Logger \<times> bool) res" where
  "openLogger file_name opened affinity =
     bnd (ASSERT opened (''Could not open log file: '' @ file_name)) (\<lambda>_.
     Inr (newLogger, createAndStartThread affinity (- 1)))"

text \<open>
  The wait of the destructor: a second of sleep lets the logger thread, which sleeps for a
  millisecond between its rounds, run at least one round.
\<close>

partial_function (option) wait_empty :: "(32 word \<Rightarrow> string) \<Rightarrow> (64 word \<Rightarrow> string) \<Rightarrow> Logger \<Rightarrow> Logger option" where
  "wait_empty ff fd l = (if lfq_size (log_queue l) \<noteq> 0 then wait_empty ff fd (flush_round ff fd l) else Some l)"

text \<open>
  The destructor: after the wait the thread is told to stop and joined. It leaves its loop at
  the next test of \<open>running_\<close>, because a round always ends.
\<close>

definition closeLogger :: "(32 word \<Rightarrow> string) \<Rightarrow> (64 word \<Rightarrow> string) \<Rightarrow> Logger \<Rightarrow> Logger res" where
  "closeLogger ff fd l = (case wait_empty ff fd l of None \<Rightarrow> Inl Diverges
     | Some l \<Rightarrow> Inr (flush_round ff fd (l\<lparr>running := False\<rparr>)))"

subsection \<open>The order book and the engine\<close>

text \<open>
  The destructor of the book logs a text of the book and clears its pointers. The member
  \<open>toString(bool, bool)\<close> it calls is declared and defined nowhere: the parameter \<open>toString0\<close>.
\<close>

definition book_fmt :: string where
  "book_fmt = ''%:% %() % OrderBook'' @ [CHR 0x0A] @ ''%'' @ [CHR 0x0A]"

definition book_args :: "(MEOrderBook \<Rightarrow> bool \<Rightarrow> bool \<Rightarrow> string) \<Rightarrow> MEOrderBook \<Rightarrow> string \<Rightarrow> log_arg list" where
  "book_args toString0 b time = [A_cstr ''me_order_book.cpp'', A_int 6, A_cstr ''~MEOrderBook'', A_string time,
     A_string (toString0 b False True)]"

definition closeBook :: "(MEOrderBook \<Rightarrow> bool \<Rightarrow> bool \<Rightarrow> string) \<Rightarrow> MEOrderBook \<Rightarrow> EngineIO \<Rightarrow>
    (MEOrderBook \<times> EngineIO) res" where
  "closeBook toString0 b io =
     (let io = read_time io in
      bnd (log_fmt book_fmt (book_args toString0 b (io_time_str io)) (log_queue (io_logger io))) (\<lambda>q.
      Inr (b\<lparr>bids_by_price := None, asks_by_price := None, cid_oid_to_order := (\<lambda>_ _. None)\<rparr>,
           io\<lparr>io_logger := (io_logger io)\<lparr>log_queue := q\<rparr>\<rparr>)))"

fun closeBooks :: "(MEOrderBook \<Rightarrow> bool \<Rightarrow> bool \<Rightarrow> string) \<Rightarrow> MEOrderBook list \<Rightarrow> EngineIO \<Rightarrow> EngineIO res" where
  "closeBooks toString0 [] io = Inr io"
| "closeBooks toString0 (b # bs) io = bnd (closeBook toString0 b io) (\<lambda>(_, io). closeBooks toString0 bs io)"

text \<open>
  The destructor of the engine: stop the loop, release the books one by one, then the member
  \<open>logger_\<close> is destroyed.
\<close>

definition closeEngine :: "(MEOrderBook \<Rightarrow> bool \<Rightarrow> bool \<Rightarrow> string) \<Rightarrow> (32 word \<Rightarrow> string) \<Rightarrow> (64 word \<Rightarrow> string) \<Rightarrow>
    MatchingEngine \<Rightarrow> MatchingEngine res" where
  "closeEngine toString0 ff fd e =
     (let e = e\<lparr>run_flag := False\<rparr> in
      bnd (closeBooks toString0 (ticker_order_book e) (engine_io e)) (\<lambda>io.
      bnd (closeLogger ff fd (io_logger io)) (\<lambda>l.
      Inr (e\<lparr>ticker_order_book := [], engine_io := io\<lparr>io_logger := l\<rparr>\<rparr>))))"

subsection \<open>What the waits do\<close>

lemma size_zero_iff: "lfq_size q = 0 \<longleftrightarrow> items q = []"
  by (simp add: lfq_size_def items_def unat_eq_zero)

lemma wait_empty_drains:
  assumes "lfq_ok (log_queue l)" "running l"
  shows "\<exists>l'. wait_empty ff fd l = Some l' \<and> items (log_queue l') = [] \<and> lfq_ok (log_queue l') \<and> running l' \<and>
    log_file l' = log_file l @ render_all ff fd (items (log_queue l))"
proof (cases "lfq_size (log_queue l) = 0")
  case True
  with assms show ?thesis by (subst wait_empty.simps) (simp add: size_zero_iff render_all_def)
next
  case False
  let ?l = "flush_round ff fd l"
  have d: "log_file ?l = log_file l @ render_all ff fd (items (log_queue l))" "items (log_queue ?l) = []"
    "lfq_ok (log_queue ?l)" "running ?l"
    using drain_ok [OF assms(1), of ff fd] assms(2) by (simp_all add: flush_round_def)
  then have "wait_empty ff fd ?l = Some ?l" by (subst wait_empty.simps) (simp add: size_zero_iff)
  with False d show ?thesis by (subst wait_empty.simps) simp
qed

lemma wait_empty_stuck:
  assumes "flush_round ff fd l = l" "lfq_size (log_queue l) \<noteq> 0"
  shows "wait_empty ff fd l = None"
proof (rule ccontr)
  assume "wait_empty ff fd l \<noteq> None"
  then obtain l' where "wait_empty ff fd l = Some l'" by blast
  then have "flush_round ff fd l = l \<longrightarrow> lfq_size (log_queue l) = 0"
    by (rule wait_empty.raw_induct [where P = "\<lambda>ff fd l l'. flush_round ff fd l = l \<longrightarrow> lfq_size (log_queue l) = 0", rotated])
      (metis option.distinct(1))
  with assms show False by blast
qed


lemma closeLogger_drains:
  assumes "lfq_ok (log_queue l)" "running l"
  shows "\<exists>l'. closeLogger ff fd l = Inr l' \<and> items (log_queue l') = [] \<and> \<not> running l' \<and>
    log_file l' = log_file l @ render_all ff fd (items (log_queue l))"
proof -
  obtain l' where "wait_empty ff fd l = Some l'" "items (log_queue l') = []" "running l'"
    "log_file l' = log_file l @ render_all ff fd (items (log_queue l))"
    using wait_empty_drains [OF assms] by blast
  then show ?thesis by (intro exI [of _ "l'\<lparr>running := False\<rparr>"]) (simp add: closeLogger_def flush_round_def)
qed

subsection \<open>What the destructors log\<close>

lemma holes_book [simp]: "holes book_fmt = 5"
  by (simp add: book_fmt_def)

definition book_elements :: "(MEOrderBook \<Rightarrow> bool \<Rightarrow> bool \<Rightarrow> string) \<Rightarrow> (nat \<Rightarrow> string) \<Rightarrow> nat \<Rightarrow> MEOrderBook list \<Rightarrow> LogElement list" where
  "book_elements toString0 ctime k bs =
     concat (map (\<lambda>(i, b). fill (tokens book_fmt) (book_args toString0 b (getCurrentTimeStr (ctime (k + i)))))
       (enumerate 0 bs))"

lemma book_elements_Cons:
  "book_elements toString0 ctime k (b # bs) =
     fill (tokens book_fmt) (book_args toString0 b (getCurrentTimeStr (ctime k))) @ book_elements toString0 ctime (Suc k) bs"
proof -
  have "map (\<lambda>(i, b). fill (tokens book_fmt) (book_args toString0 b (getCurrentTimeStr (ctime (k + i))))) (enumerate (Suc 0) bs) =
      map (\<lambda>(i, b). fill (tokens book_fmt) (book_args toString0 b (getCurrentTimeStr (ctime (Suc k + i))))) (enumerate 0 bs)"
    by (rule nth_equalityI) (simp_all add: nth_enumerate_eq)
  then show ?thesis by (simp add: book_elements_def)
qed

lemma closeBooks_logs:
  "\<exists>io'. closeBooks toString0 bs io = Inr io' \<and> running (io_logger io') = running (io_logger io) \<and>
    log_file (io_logger io') = log_file (io_logger io) \<and> same_rings io io' \<and>
    log_queue (io_logger io') = push_list push (book_elements toString0 (io_ctime io) (io_ticks io) bs) (log_queue (io_logger io))"
proof (induction bs arbitrary: io)
  case Nil
  then show ?case by (simp add: book_elements_def same_rings_def)
next
  case (Cons b bs)
  obtain b' io1 where 1: "closeBook toString0 b io = Inr (b', io1)" "running (io_logger io1) = running (io_logger io)"
    "log_file (io_logger io1) = log_file (io_logger io)" "same_rings io io1" "io_ctime io1 = io_ctime io"
    "io_ticks io1 = Suc (io_ticks io)"
    "log_queue (io_logger io1) = push_list push (fill (tokens book_fmt)
       (book_args toString0 b (getCurrentTimeStr (io_ctime io (io_ticks io))))) (log_queue (io_logger io))"
    by (simp add: closeBook_def Let_def log_fmt_spec read_time_def book_args_def same_rings_def)
  from Cons.IH [of io1] 1 show ?case
    by (auto simp: book_elements_Cons push_list_append same_rings_def)
qed

text \<open>
  If the log ring has room for the text of every book, releasing the engine stops its loop,
  writes what was pending and one entry for each book, in ticker order, and leaves the rings
  to the other threads as they were.
\<close>

lemma closeEngine_closes:
  assumes "lfq_ok (log_queue (io_logger (engine_io e)))" "running (io_logger (engine_io e))"
    and "els = book_elements toString0 (io_ctime (engine_io e)) (io_ticks (engine_io e)) (ticker_order_book e)"
    and "length (items (log_queue (io_logger (engine_io e)))) + length els \<le> usable (log_queue (io_logger (engine_io e)))"
  shows "\<exists>e'. closeEngine toString0 ff fd e = Inr e' \<and> \<not> run_flag e' \<and> same_rings (engine_io e) (engine_io e') \<and>
    log_file (io_logger (engine_io e')) = log_file (io_logger (engine_io e)) @
      render_all ff fd (items (log_queue (io_logger (engine_io e)))) @ render_all ff fd els"
proof -
  let ?io = "engine_io e"
  obtain io1 where io1: "closeBooks toString0 (ticker_order_book e) ?io = Inr io1" "running (io_logger io1)"
    "log_file (io_logger io1) = log_file (io_logger ?io)" "same_rings ?io io1"
    "log_queue (io_logger io1) = push_list push els (log_queue (io_logger ?io))"
    using closeBooks_logs [of toString0 "ticker_order_book e" ?io] assms(2,3) by auto
  have q: "lfq_ok (log_queue (io_logger io1))" "items (log_queue (io_logger io1)) = items (log_queue (io_logger ?io)) @ els"
    using lfq.push_list_contents [OF assms(1,4)] io1(5) by auto
  obtain l' where l': "closeLogger ff fd (io_logger io1) = Inr l'"
    "log_file l' = log_file (io_logger io1) @ render_all ff fd (items (log_queue (io_logger io1)))"
    using closeLogger_drains [OF q(1) io1(2)] by blast
  show ?thesis using io1 q(2) l'
    by (intro exI [of _ "e\<lparr>run_flag := False, ticker_order_book := [], engine_io := io1\<lparr>io_logger := l'\<rparr>\<rparr>"])
      (simp add: closeEngine_def Let_def render_all_def same_rings_def)
qed


subsection \<open>A ring that was filled\<close>

text \<open>
  Nothing stops the callers of \<open>log\<close> from pushing more than the ring holds. Where the indices
  and the count go then, for any number of elements pushed:
\<close>

definition ring_at :: "'a LFQueue \<Rightarrow> nat \<Rightarrow> bool" where
  "ring_at q c \<longleftrightarrow> 0 < q_size q \<and> next_read_index q < q_size q \<and> unat (num_elements q) = c \<and>
     next_write_index q = (next_read_index q + c) mod q_size q"

lemma ring_at_ok: "lfq_ok q \<Longrightarrow> ring_at q (length (items q))"
  by (simp add: ring_at_def lfq_ok_def lfq_inv_def)

lemma ring_at_pushes:
  "ring_at q c \<Longrightarrow> c + length vs < 2 ^ 64 \<Longrightarrow>
   ring_at (push_list push vs q) (c + length vs) \<and> q_size (push_list push vs q) = q_size q"
proof (induction vs arbitrary: q c)
  case (Cons v vs)
  then have "unat (num_elements q + 1) = Suc c" by (simp add: ring_at_def unat_word_ariths)
  with Cons.prems have "ring_at (push v q) (Suc c)" by (simp add: ring_at_def mod_Suc_eq)
  with Cons.IH [of "push v q" "Suc c"] Cons.prems show ?case by simp
qed simp

text \<open>The count is ahead of the distance from the read to the write index.\<close>

definition surplus :: "'a LFQueue \<Rightarrow> nat \<Rightarrow> bool" where
  "surplus q d \<longleftrightarrow> next_read_index q < q_size q \<and> d < q_size q \<and> d < unat (num_elements q) \<and>
     next_write_index q = (next_read_index q + d) mod q_size q"

lemma ring_at_surplus: "ring_at q c \<Longrightarrow> q_size q \<le> c \<Longrightarrow> surplus q (c mod q_size q)"
  by (simp add: ring_at_def surplus_def mod_simps) (meson less_le_trans mod_less_divisor)

text \<open>
  Then the logger thread stops at the write index with the count above zero, and no later
  round changes anything.
\<close>

lemma drain_surplus:
  "surplus (log_queue l) d \<Longrightarrow>
   getNextToRead (log_queue (drain ff fd l)) = None \<and> lfq_size (log_queue (drain ff fd l)) \<noteq> 0 \<and>
   running (drain ff fd l) = running l"
proof (induction d arbitrary: l)
  case 0
  then have "getNextToRead (log_queue l) = None" by (simp add: surplus_def getNextToRead_def)
  moreover have "num_elements (log_queue l) \<noteq> 0" using 0 by (auto simp: surplus_def)
  ultimately show ?case by (simp add: drain.simps [of ff fd l] lfq_size_def)
next
  case (Suc d)
  let ?q = "log_queue l"
  have n: "num_elements ?q \<noteq> 0" using Suc.prems by (auto simp: surplus_def)
  have "next_read_index ?q \<noteq> next_write_index ?q"
    using Suc.prems mod_add_inj [of 0 "q_size ?q" "Suc d" "next_read_index ?q"] by (auto simp: surplus_def)
  then have r: "getNextToRead ?q = Some (next_read_index ?q)" by (simp add: getNextToRead_def)
  have "surplus (updataReadIndex ?q) d"
    using Suc.prems unat_minus_one [OF n] by (auto simp: surplus_def mod_simps)
  then show ?case using Suc.IH n by (subst (1 2 3) drain.simps) (simp add: r lfq_size_def)
qed

lemma closeLogger_surplus:
  assumes "surplus (log_queue l) d" "running l"
  shows "closeLogger ff fd l = Inl Diverges"
proof -
  let ?l = "flush_round ff fd l"
  have d: "getNextToRead (log_queue ?l) = None" "lfq_size (log_queue ?l) \<noteq> 0"
    using drain_surplus [OF assms(1)] assms(2) by (simp_all add: flush_round_def)
  have idle: "flush_round ff fd k = k" if "getNextToRead (log_queue k) = None" for k
    using that by (simp add: flush_round_def drain.simps [of ff fd k])
  have "flush_round ff fd ?l = ?l" by (rule idle [OF d(1)])
  then have "wait_empty ff fd ?l = None" using d(2) by (rule wait_empty_stuck)
  moreover have "lfq_size (log_queue l) \<noteq> 0" using assms(1) by (auto simp: surplus_def lfq_size_def)
  ultimately show ?thesis by (simp add: closeLogger_def wait_empty.simps [of ff fd l])
qed

subsection \<open>Properties\<close>

text \<open>
  C25: when the destructor of a logger ends. Let a ring that works as a queue get any number of
  elements more, fewer than 2 ^ 64 in all, while its thread does not read, as \<open>log\<close> does without
  looking at the room. If together with what was pending they are fewer than the ring has slots,
  the destructor ends with all of them in the file; if they fill the ring exactly or run over,
  it waits for ever.
\<close>

theorem close_logger:
  assumes "lfq_ok (log_queue l)" "running l"
    and "length (items (log_queue l)) + length es < 2 ^ 64"
  shows "if length (items (log_queue l)) + length es < q_size (log_queue l)
    then \<exists>l'. closeLogger ff fd (l\<lparr>log_queue := push_list push es (log_queue l)\<rparr>) = Inr l' \<and>
      items (log_queue l') = [] \<and> \<not> running l' \<and>
      log_file l' = log_file l @ render_all ff fd (items (log_queue l)) @ render_all ff fd es
    else closeLogger ff fd (l\<lparr>log_queue := push_list push es (log_queue l)\<rparr>) = Inl Diverges"
proof (cases "length (items (log_queue l)) + length es < q_size (log_queue l)")
  case True
  then have "lfq_ok (push_list push es (log_queue l)) \<and> items (push_list push es (log_queue l)) = items (log_queue l) @ es"
    using lfq.push_list_contents [OF assms(1), of es] by (simp add: usable_def)
  with closeLogger_drains [of "l\<lparr>log_queue := push_list push es (log_queue l)\<rparr>" ff fd] assms(2) True
  show ?thesis by (simp add: render_all_def)
next
  case False
  have "ring_at (push_list push es (log_queue l)) (length (items (log_queue l)) + length es) \<and>
      q_size (push_list push es (log_queue l)) = q_size (log_queue l)"
    by (rule ring_at_pushes [OF ring_at_ok [OF assms(1)] assms(3)])
  with False have "surplus (push_list push es (log_queue l)) ((length (items (log_queue l)) + length es) mod q_size (log_queue l))"
    using ring_at_surplus by (metis linorder_not_less)
  with False closeLogger_surplus [of "l\<lparr>log_queue := push_list push es (log_queue l)\<rparr>"] assms(2) show ?thesis by simp
qed

theorem close_logger_witness:
  "closeLogger (\<lambda>_. []) (\<lambda>_. []) (newLogger\<lparr>log_queue :=
     push_list push (replicate (LOG_QUEUE_SIZE + 3) (LE_CHAR CHR ''x'')) (log_queue newLogger)\<rparr>) = Inl Diverges"
proof -
  have "lfq_ok (log_queue newLogger)" "running newLogger" "items (log_queue newLogger) = []"
    "q_size (log_queue newLogger) = LOG_QUEUE_SIZE"
    by (simp_all add: newLogger_def lfq_ok_LFQueue LOG_QUEUE_SIZE_def)
  with close_logger [of newLogger "replicate (LOG_QUEUE_SIZE + 3) (LE_CHAR CHR ''x'')" "\<lambda>_. []" "\<lambda>_. []"]
  show ?thesis by (simp add: LOG_QUEUE_SIZE_def del: push_list.simps replicate.simps)
qed

end
