(* ===== verification/Exchange_Main.thy ===== *)
theory Exchange_Main
  imports Lifecycle
begin

text \<open>
  src/exchange_main.cpp: the process. \<open>main\<close> makes the logger, the three rings and the
  engine, starts the engine's thread and then logs a line every turn of an endless loop; the
  handler of SIGINT takes logger and engine down and exits. A run is the start, a schedule of
  turns of the threads, and the handler. The engine's thread enters
  \<open>MatchingEngine::run\<close>, which logs a line, at its first turn and runs its loop body at the
  later ones; nobody writes into the ring of requests, which \<open>main\<close> keeps to itself. While
  \<open>main\<close> sleeps the thread of its logger runs; that of the engine's logger has turns of its own.
\<close>

record Exchange =
  x_logger :: Logger
  x_engine :: MatchingEngine
  x_entered :: bool    \<comment> \<open>the engine's thread is in \<open>run\<close>\<close>
  x_ctime :: "nat \<Rightarrow> string"
  x_ticks :: nat

text \<open>\<open>logger->log("%:% %() % ...\n", __FILE__, __LINE__, __FUNCTION__, getCurrentTimeStr(&time_str))\<close>\<close>

definition main_fmt :: "string \<Rightarrow> string" where
  "main_fmt what = ''%:% %() % '' @ what @ [CHR 0x0A]"

definition main_args :: "32 word \<Rightarrow> string \<Rightarrow> log_arg list" where
  "main_args line time = [A_cstr ''exchange_main.cpp'', A_int line, A_cstr ''main'', A_string time]"

definition log_main :: "32 word \<Rightarrow> string \<Rightarrow> (nat \<Rightarrow> string) \<Rightarrow> nat \<Rightarrow> Logger \<Rightarrow> Logger res" where
  "log_main line what ctime k l =
     bnd (log_fmt (main_fmt what) (main_args line (getCurrentTimeStr (ctime k))) (log_queue l)) (\<lambda>q.
     Inr (l\<lparr>log_queue := q\<rparr>))"

text \<open>
  The start. \<open>ok1\<close> and \<open>ok2\<close> say whether the two log files could be opened, \<open>raw\<close> is what
  the memory of the books held, \<open>ctime\<close> and \<open>ctime2\<close> are the clocks of the two threads.
\<close>

definition starting :: string where "starting = ''Starting Matching Engine...''"
definition sleeping :: string where "sleeping = ''Sleeping for a few milliseconds..''"

definition main_begin :: "bool \<Rightarrow> bool \<Rightarrow> (int set \<Rightarrow> int) \<Rightarrow> (nat \<Rightarrow> (nat \<Rightarrow> nat \<Rightarrow> ptr) \<times> (nat \<Rightarrow> ptr)) \<Rightarrow>
    (nat \<Rightarrow> string) \<Rightarrow> (nat \<Rightarrow> string) \<Rightarrow> Exchange res" where
  "main_begin ok1 ok2 affinity raw ctime ctime2 =
     bnd (openLogger ''exchange_main.log'' ok1 affinity) (\<lambda>(l, _).
     let client_requests = LFQueue ME_MAX_CLIENT_UPDATES defaultRequest;
         client_responses = LFQueue ME_MAX_CLIENT_UPDATES defaultResponse;
         market_updates = LFQueue ME_MAX_MARKET_UPDATES defaultUpdate in
     bnd (log_main 28 starting ctime 0 l) (\<lambda>l.
     bnd (openLogger ''exchange_matching_enging.log'' ok2 affinity) (\<lambda>(l2, _).
     let io = \<lparr>outgoing_response = client_responses, outgoing_md_updates = market_updates, io_logger = l2,
           io_time_str = [], io_ctime = ctime2, io_ticks = 0, io_file = ''matching_engine.cpp''\<rparr> in
     bnd (start affinity (newMatchingEngine raw client_requests io)) (\<lambda>e.
     Inr \<lparr>x_logger = l, x_engine = e, x_entered = False, x_ctime = ctime, x_ticks = 1\<rparr>))))"

text \<open>One turn of the loop; the logger thread catches up during \<open>usleep\<close>.\<close>

definition main_turn :: "(32 word \<Rightarrow> string) \<Rightarrow> (64 word \<Rightarrow> string) \<Rightarrow> Exchange \<Rightarrow> Exchange res" where
  "main_turn ff fd x = bnd (log_main 33 sleeping (x_ctime x) (x_ticks x) (x_logger x)) (\<lambda>l.
     Inr (x\<lparr>x_logger := flush_round ff fd l, x_ticks := Suc (x_ticks x)\<rparr>))"

text \<open>A turn of the engine's thread, and one of the thread of its logger.\<close>

definition engine_turn :: "Exchange \<Rightarrow> Exchange res" where
  "engine_turn x =
     (if \<not> x_entered x then bnd (run_begin (x_engine x)) (\<lambda>e. Inr (x\<lparr>x_engine := e, x_entered := True\<rparr>))
      else if run_flag (x_engine x) then bnd (run_body (x_engine x)) (\<lambda>e. Inr (x\<lparr>x_engine := e\<rparr>))
      else Inr x)"

definition set_engine_logger :: "Logger \<Rightarrow> Exchange \<Rightarrow> Exchange" where
  "set_engine_logger l x =
     x\<lparr>x_engine := (x_engine x)\<lparr>engine_io := (engine_io (x_engine x))\<lparr>io_logger := l\<rparr>\<rparr>\<rparr>"

abbreviation engine_logger :: "Exchange \<Rightarrow> Logger" where
  "engine_logger x \<equiv> io_logger (engine_io (x_engine x))"

datatype process_event = Main_turn | Engine_turn | Engine_logger_turn

fun process_step :: "(32 word \<Rightarrow> string) \<Rightarrow> (64 word \<Rightarrow> string) \<Rightarrow> process_event \<Rightarrow> Exchange \<Rightarrow> Exchange res" where
  "process_step ff fd Main_turn x = main_turn ff fd x"
| "process_step ff fd Engine_turn x = engine_turn x"
| "process_step ff fd Engine_logger_turn x = Inr (set_engine_logger (flush_round ff fd (engine_logger x)) x)"

fun process_steps :: "(32 word \<Rightarrow> string) \<Rightarrow> (64 word \<Rightarrow> string) \<Rightarrow> process_event list \<Rightarrow> Exchange \<Rightarrow> Exchange res" where
  "process_steps ff fd [] x = Inr x"
| "process_steps ff fd (ev # evs) x = bnd (process_step ff fd ev x) (process_steps ff fd evs)"

text \<open>
  The handler. It sleeps ten seconds first; the turns the threads get meanwhile are the last
  ones of the schedule.
\<close>

definition signal_handler :: "(MEOrderBook \<Rightarrow> bool \<Rightarrow> bool \<Rightarrow> string) \<Rightarrow> (32 word \<Rightarrow> string) \<Rightarrow> (64 word \<Rightarrow> string) \<Rightarrow>
    Exchange \<Rightarrow> (Logger \<times> MatchingEngine) res" where
  "signal_handler toString0 ff fd x =
     bnd (closeLogger ff fd (x_logger x)) (\<lambda>l.
     bnd (closeEngine toString0 ff fd (x_engine x)) (\<lambda>e. Inr (l, e)))"

subsection \<open>What a turn does to the log\<close>

definition main_elements :: "32 word \<Rightarrow> string \<Rightarrow> string \<Rightarrow> LogElement list" where
  "main_elements line what time = fill (tokens (main_fmt what)) (main_args line (getCurrentTimeStr time))"

lemma main_holes: "holes (main_fmt starting) = 4" "holes (main_fmt sleeping) = 4"
  by (simp_all add: main_fmt_def starting_def sleeping_def)

lemma log_main_pushes:
  assumes "holes (main_fmt what) = 4"
  shows "log_main line what ctime k l =
    Inr (l\<lparr>log_queue := push_list push (main_elements line what (ctime k)) (log_queue l)\<rparr>)"
  using assms by (simp add: log_main_def log_fmt_spec main_args_def main_elements_def)

lemma length_time: "length (c_string (getCurrentTimeStr t)) \<le> length t"
  by (auto simp: c_string_def getCurrentTimeStr_def intro: order_trans [OF length_takeWhile_le])

lemma main_elements_length:
  "length (main_elements line what t) = length (filter (\<lambda>t. t \<noteq> Tok_hole) (tokens (main_fmt what))) + 22 +
     length (c_string (getCurrentTimeStr t))" if "what = starting \<or> what = sleeping"
  using that by (auto simp: main_elements_def main_args_def main_fmt_def starting_def sleeping_def c_string_def)

lemma main_elements_short:
  assumes "what = starting \<or> what = sleeping" "length t \<le> 26"
  shows "length (main_elements line what t) \<le> 200"
proof -
  have "length (filter (\<lambda>t. t \<noteq> Tok_hole) (tokens (main_fmt starting))) \<le> 100"
    "length (filter (\<lambda>t. t \<noteq> Tok_hole) (tokens (main_fmt sleeping))) \<le> 100" by code_simp+
  with assms length_time [of t] main_elements_length [OF assms(1), of line t] show ?thesis by auto
qed


text \<open>A logger between turns: \<open>written l\<close> is its file once it has caught up.\<close>

definition written :: "(32 word \<Rightarrow> string) \<Rightarrow> (64 word \<Rightarrow> string) \<Rightarrow> Logger \<Rightarrow> string" where
  "written ff fd l = log_file l @ render_all ff fd (items (log_queue l))"

definition main_ok :: "Exchange \<Rightarrow> bool" where
  "main_ok x \<longleftrightarrow> lfq_ok (log_queue (x_logger x)) \<and> running (x_logger x) \<and> 400 \<le> usable (log_queue (x_logger x)) \<and>
     length (items (log_queue (x_logger x))) \<le> 200 \<and> (\<forall>k. length (x_ctime x k) \<le> 26)"

lemma main_turn_logs:
  assumes "main_ok x"
  shows "\<exists>x'. main_turn ff fd x = Inr x' \<and> main_ok x' \<and> x_engine x' = x_engine x \<and> x_entered x' = x_entered x \<and> x_ctime x' = x_ctime x \<and>
    x_ticks x' = Suc (x_ticks x) \<and> written ff fd (x_logger x') =
      written ff fd (x_logger x) @ render_all ff fd (main_elements 33 sleeping (x_ctime x (x_ticks x)))"
proof -
  let ?els = "main_elements 33 sleeping (x_ctime x (x_ticks x))"
  let ?q = "push_list push ?els (log_queue (x_logger x))"
  have "length ?els \<le> 200" using main_elements_short assms by (simp add: main_ok_def)
  then have room: "length (items (log_queue (x_logger x))) + length ?els \<le> usable (log_queue (x_logger x))"
    using assms unfolding main_ok_def by linarith
  have q: "lfq_ok ?q" "items ?q = items (log_queue (x_logger x)) @ ?els" "usable ?q = usable (log_queue (x_logger x))"
    using lfq.push_list_contents [OF _ room] assms by (auto simp: main_ok_def)
  let ?l = "(x_logger x)\<lparr>log_queue := ?q\<rparr>"
  have d: "log_file (flush_round ff fd ?l) = log_file ?l @ render_all ff fd (items ?q)"
    "items (log_queue (flush_round ff fd ?l)) = []" "lfq_ok (log_queue (flush_round ff fd ?l))"
    "running (flush_round ff fd ?l)" "usable (log_queue (flush_round ff fd ?l)) = usable ?q"
    using drain_ok [of ?l ff fd] q(1) assms by (simp_all add: flush_round_def main_ok_def)
  show ?thesis
    by (intro exI [of _ "x\<lparr>x_logger := flush_round ff fd ?l, x_ticks := Suc (x_ticks x)\<rparr>"])
      (use assms d q in \<open>simp add: main_turn_def log_main_pushes main_holes main_ok_def written_def render_all_def\<close>)
qed

text \<open>
  The engine's side: before its thread is in \<open>run\<close> the log is empty, after that it holds one
  line; the loop finds no request.
\<close>

definition run_elements :: "string \<Rightarrow> LogElement list" where
  "run_elements time = fill (tokens run_fmt)
     [A_cstr ''matching_engine.cpp'', A_int 33, A_cstr ''run'', A_string (getCurrentTimeStr time)]"

definition new_books :: "(nat \<Rightarrow> (nat \<Rightarrow> nat \<Rightarrow> ptr) \<times> (nat \<Rightarrow> ptr)) \<Rightarrow> MEOrderBook list" where
  "new_books raw = map (\<lambda>i. newMEOrderBook (fst (raw i)) (snd (raw i)) (of_nat i)) [0..<ME_MAX_TICKERS]"

definition engine_waits :: "(nat \<Rightarrow> string) \<Rightarrow> MEOrderBook list \<Rightarrow> MatchingEngine \<Rightarrow> bool" where
  "engine_waits ctime2 books e \<longleftrightarrow> io_ctime (engine_io e) = ctime2 \<and> io_file (engine_io e) = ''matching_engine.cpp'' \<and>
     run_flag e \<and> getNextToRead (incoming_request e) = None \<and> ticker_order_book e = books"

definition engine_logged :: "(32 word \<Rightarrow> string) \<Rightarrow> (64 word \<Rightarrow> string) \<Rightarrow> nat \<Rightarrow> LogElement list \<Rightarrow> MatchingEngine \<Rightarrow> bool" where
  "engine_logged ff fd k els e \<longleftrightarrow> (let l = io_logger (engine_io e) in
     io_ticks (engine_io e) = k \<and> lfq_ok (log_queue l) \<and> running l \<and> usable (log_queue l) = LOG_QUEUE_SIZE - 1 \<and>
     length (items (log_queue l)) \<le> length els \<and> written ff fd l = render_all ff fd els)"

definition engine_ok :: "(32 word \<Rightarrow> string) \<Rightarrow> (64 word \<Rightarrow> string) \<Rightarrow> (nat \<Rightarrow> string) \<Rightarrow> MEOrderBook list \<Rightarrow> Exchange \<Rightarrow> bool" where
  "engine_ok ff fd ctime2 books x \<longleftrightarrow> engine_waits ctime2 books (x_engine x) \<and>
     (if x_entered x then engine_logged ff fd (Suc 0) (run_elements (ctime2 0)) (x_engine x)
      else engine_logged ff fd 0 [] (x_engine x))"

lemma run_begin_logs:
  assumes "engine_waits ctime2 books e" "engine_logged ff fd 0 [] e" "length (run_elements (ctime2 0)) < LOG_QUEUE_SIZE"
  shows "\<exists>e'. run_begin e = Inr e' \<and> engine_waits ctime2 books e' \<and> engine_logged ff fd (Suc 0) (run_elements (ctime2 0)) e'"
proof -
  let ?l = "io_logger (engine_io e)" and ?els = "run_elements (ctime2 0)"
  have l: "lfq_ok (log_queue ?l)" "items (log_queue ?l) = []" "usable (log_queue ?l) = LOG_QUEUE_SIZE - 1"
    "running ?l" "io_ticks (engine_io e) = 0" "log_file ?l = []"
    using assms(2) by (simp_all add: engine_logged_def Let_def written_def render_all_def del: length_items)
  have q: "lfq_ok (push_list push ?els (log_queue ?l))" "items (push_list push ?els (log_queue ?l)) = ?els"
    "usable (push_list push ?els (log_queue ?l)) = LOG_QUEUE_SIZE - 1"
    using lfq.push_list_contents [OF l(1), of ?els] assms(3) l(2,3) by auto
  let ?io = "(read_time (engine_io e))\<lparr>io_logger := ?l\<lparr>log_queue := push_list push ?els (log_queue ?l)\<rparr>\<rparr>"
  have "run_begin e = Inr (e\<lparr>engine_io := ?io\<rparr>)"
    using assms(1) l(5) by (simp add: run_begin_def log_run_def Let_def read_time_def log_fmt_spec holes_run
        engine_waits_def run_elements_def)
  then show ?thesis
    by (intro exI [of _ "e\<lparr>engine_io := ?io\<rparr>"])
      (use assms(1) q l in \<open>simp add: engine_waits_def engine_logged_def Let_def written_def render_all_def read_time_def del: length_items\<close>)
qed

lemma engine_turn_ok:
  assumes "engine_ok ff fd ctime2 books x" "length (run_elements (ctime2 0)) < LOG_QUEUE_SIZE"
  shows "\<exists>x'. engine_turn x = Inr x' \<and> engine_ok ff fd ctime2 books x' \<and> x_entered x' \<and>
    x_logger x' = x_logger x \<and> x_ctime x' = x_ctime x \<and> x_ticks x' = x_ticks x"
proof (cases "x_entered x")
  case True
  with assms(1) have "run_body (x_engine x) = Inr (x_engine x)"
    by (simp add: engine_ok_def engine_waits_def run_body_def)
  with True assms(1) show ?thesis by (simp add: engine_turn_def)
next
  case False
  with assms obtain e' where "run_begin (x_engine x) = Inr e'" "engine_waits ctime2 books e'"
    "engine_logged ff fd (Suc 0) (run_elements (ctime2 0)) e'"
    using run_begin_logs [of ctime2 books "x_engine x" ff fd] by (auto simp: engine_ok_def)
  with False show ?thesis by (simp add: engine_turn_def engine_ok_def)
qed

lemma engine_logger_turn_ok:
  assumes "engine_ok ff fd ctime2 books x"
  shows "engine_ok ff fd ctime2 books (set_engine_logger (flush_round ff fd (engine_logger x)) x)"
proof -
  have "engine_logged ff fd k els e \<Longrightarrow> engine_logged ff fd k els (e\<lparr>engine_io := (engine_io e)\<lparr>io_logger :=
      flush_round ff fd (io_logger (engine_io e))\<rparr>\<rparr>)" for k els e
    using drain_ok [of "io_logger (engine_io e)" ff fd]
    by (simp add: engine_logged_def Let_def flush_round_def written_def render_all_def del: length_items)
  with assms show ?thesis by (auto simp: engine_ok_def set_engine_logger_def engine_waits_def)
qed

lemma process_steps_log:
  assumes "length (run_elements (ctime2 0)) < LOG_QUEUE_SIZE"
  shows "main_ok x \<Longrightarrow> engine_ok ff fd ctime2 books x \<Longrightarrow>
    \<exists>x'. process_steps ff fd evs x = Inr x' \<and> main_ok x' \<and> engine_ok ff fd ctime2 books x' \<and>
      x_entered x' = (x_entered x \<or> Engine_turn \<in> set evs) \<and>
      written ff fd (x_logger x') = written ff fd (x_logger x) @
        concat (map (\<lambda>k. render_all ff fd (main_elements 33 sleeping (x_ctime x k)))
          [x_ticks x..<x_ticks x + count_list evs Main_turn])"
proof (induction evs arbitrary: x)
  case (Cons ev evs)
  show ?case
  proof (cases ev)
    case Main_turn
    obtain x1 where 1: "main_turn ff fd x = Inr x1" "main_ok x1" "x_engine x1 = x_engine x" "x_entered x1 = x_entered x"
      "x_ctime x1 = x_ctime x" "x_ticks x1 = Suc (x_ticks x)" "written ff fd (x_logger x1) =
        written ff fd (x_logger x) @ render_all ff fd (main_elements 33 sleeping (x_ctime x (x_ticks x)))"
      using main_turn_logs [OF Cons.prems(1)] by blast
    have "engine_ok ff fd ctime2 books x1" using Cons.prems(2) 1 by (simp add: engine_ok_def)
    moreover have "[x_ticks x..<x_ticks x + Suc n] = x_ticks x # [Suc (x_ticks x)..<Suc (x_ticks x) + n]" for n
      by (simp add: upt_rec [of "x_ticks x"])
    ultimately show ?thesis using Cons.IH [OF 1(2)] 1 Main_turn by auto
  next
    case Engine_turn
    obtain x1 where 1: "engine_turn x = Inr x1" "engine_ok ff fd ctime2 books x1" "x_entered x1"
      "x_logger x1 = x_logger x" "x_ctime x1 = x_ctime x" "x_ticks x1 = x_ticks x"
      using engine_turn_ok [OF Cons.prems(2) assms] by blast
    then have "main_ok x1" using Cons.prems(1) by (simp add: main_ok_def)
    from Cons.IH [OF this 1(2)] 1 Engine_turn show ?thesis by auto
  next
    case Engine_logger_turn
    let ?x = "set_engine_logger (flush_round ff fd (engine_logger x)) x"
    have "main_ok ?x" using Cons.prems(1) by (simp add: main_ok_def set_engine_logger_def)
    from Cons.IH [OF this engine_logger_turn_ok [OF Cons.prems(2)]] Engine_logger_turn show ?thesis
      by (auto simp: set_engine_logger_def)
  qed
qed simp

lemma main_begin_result:
  assumes "\<forall>k. length (ctime k) \<le> 26"
  shows "\<exists>x. main_begin True True affinity raw ctime ctime2 = Inr x \<and> main_ok x \<and> x_ticks x = 1 \<and> x_ctime x = ctime \<and>
    written ff fd (x_logger x) = render_all ff fd (main_elements 28 starting (ctime 0)) \<and>
    \<not> x_entered x \<and> engine_ok ff fd ctime2 (new_books raw) x"
proof -
  let ?els = "main_elements 28 starting (ctime 0)"
  have new: "lfq_ok (log_queue newLogger)" "items (log_queue newLogger) = []" "usable (log_queue newLogger) = LOG_QUEUE_SIZE - 1"
    "running newLogger" "log_file newLogger = []"
    by (simp_all add: newLogger_def lfq_ok_LFQueue LOG_QUEUE_SIZE_def)
  have short: "length ?els \<le> 200" using main_elements_short assms by simp
  then have room: "length (items (log_queue newLogger)) + length ?els \<le> usable (log_queue newLogger)"
    by (simp add: new LOG_QUEUE_SIZE_def)
  let ?q = "push_list push ?els (log_queue newLogger)"
  have q: "lfq_ok ?q" "items ?q = ?els" "usable ?q = LOG_QUEUE_SIZE - 1"
    using lfq.push_list_contents [OF new(1) room] new by auto
  then show ?thesis using assms short new
    by (simp add: main_begin_def openLogger_def log_main_pushes main_holes start_succeeds newMatchingEngine_def
        main_ok_def written_def Let_def LOG_QUEUE_SIZE_def engine_ok_def engine_waits_def engine_logged_def new_books_def
        render_all_def LFQueue_def getNextToRead_def del: length_items)
qed

subsection \<open>Property\<close>

text \<open>
  C16: a run of the process. Both log files can be opened; the threads get any turns in any
  order, the engine's thread at least its first one, before the handler, which sleeps ten
  seconds, releases the engine; the texts of the clock have at most 26 characters, and the
  line of the engine's thread and the texts of its books fit the log ring together. Then the
  process gets through its handler; exchange_main.log holds the line of the start and one line
  for each turn of \<open>main\<close>, in order and with the time of its turn, and the engine's log the line
  its thread logged when it entered \<open>run\<close>, followed by one entry for each of its books.
\<close>

theorem exchange_run:
  assumes "\<forall>k. length (ctime k) \<le> 26" "Engine_turn \<in> set evs"
    and "els = book_elements toString0 ctime2 1 (new_books raw)"
    and "length (run_elements (ctime2 0)) + length els < LOG_QUEUE_SIZE"
  shows "\<exists>x x' l e. main_begin True True affinity raw ctime ctime2 = Inr x \<and> process_steps ff fd evs x = Inr x' \<and>
    signal_handler toString0 ff fd x' = Inr (l, e) \<and>
    log_file l = render_all ff fd (main_elements 28 starting (ctime 0)) @
      concat (map (\<lambda>k. render_all ff fd (main_elements 33 sleeping (ctime k))) [1..<Suc (count_list evs Main_turn)]) \<and>
    log_file (io_logger (engine_io e)) = render_all ff fd (run_elements (ctime2 0)) @ render_all ff fd els \<and> \<not> run_flag e"
proof -
  have short: "length (run_elements (ctime2 0)) < LOG_QUEUE_SIZE" using assms(4) by simp
  obtain x where x: "main_begin True True affinity raw ctime ctime2 = Inr x" "main_ok x" "x_ticks x = 1" "x_ctime x = ctime"
    "written ff fd (x_logger x) = render_all ff fd (main_elements 28 starting (ctime 0))"
    "engine_ok ff fd ctime2 (new_books raw) x"
    using main_begin_result [OF assms(1)] by blast
  obtain x' where x': "process_steps ff fd evs x = Inr x'" "main_ok x'" "engine_ok ff fd ctime2 (new_books raw) x'" "x_entered x'"
    "written ff fd (x_logger x') = written ff fd (x_logger x) @
      concat (map (\<lambda>k. render_all ff fd (main_elements 33 sleeping (x_ctime x k))) [x_ticks x..<x_ticks x + count_list evs Main_turn])"
    using process_steps_log [OF short x(2,6), of evs] assms(2) by auto
  obtain l where l: "closeLogger ff fd (x_logger x') = Inr l" "log_file l = written ff fd (x_logger x')"
    using closeLogger_drains [of "x_logger x'" ff fd] x'(2) by (auto simp: main_ok_def written_def)
  let ?e = "x_engine x'"
  have w: "engine_waits ctime2 (new_books raw) ?e" "engine_logged ff fd (Suc 0) (run_elements (ctime2 0)) ?e"
    using x'(3,4) by (simp_all add: engine_ok_def)
  have els: "els = book_elements toString0 (io_ctime (engine_io ?e)) (io_ticks (engine_io ?e)) (ticker_order_book ?e)"
    using w assms(3) by (simp add: engine_waits_def engine_logged_def Let_def)
  have "length (items (log_queue (engine_logger x'))) + length els \<le> usable (log_queue (engine_logger x'))"
    using w(2) assms(4) unfolding engine_logged_def Let_def by linarith
  then obtain e where "closeEngine toString0 ff fd ?e = Inr e" "\<not> run_flag e"
    "log_file (io_logger (engine_io e)) = render_all ff fd (run_elements (ctime2 0)) @ render_all ff fd els"
    using closeEngine_closes [OF _ _ els, of ff fd] w(2) by (auto simp: engine_logged_def Let_def written_def)
  with x x' l show ?thesis by (auto simp: signal_handler_def)
qed

lemma short_books: "length (book_elements (\<lambda>_ _ _. []) (\<lambda>_. []) k bs) \<le> 100 * length bs"
proof (induction bs arbitrary: k)
  case (Cons b bs)
  have one: "fill (tokens book_fmt) (book_args (\<lambda>_ _ _. []) b (getCurrentTimeStr [])) =
      fill (tokens book_fmt) [A_cstr ''me_order_book.cpp'', A_int 6, A_cstr ''~MEOrderBook'', A_string [], A_string []]"
    by (simp add: book_args_def getCurrentTimeStr_def)
  have "length (fill (tokens book_fmt) [A_cstr ''me_order_book.cpp'', A_int 6, A_cstr ''~MEOrderBook'', A_string [], A_string []]) \<le> 100"
    by code_simp
  with Cons.IH [of "Suc k"] show ?case unfolding book_elements_Cons one length_append by simp
qed (simp add: book_elements_def)

theorem exchange_run_witness:
  "\<exists>x x' l e bs. main_begin True True (\<lambda>_. 0) (\<lambda>_. (\<lambda>_ _. None, \<lambda>_. None)) (\<lambda>_. []) (\<lambda>_. []) = Inr x \<and>
    process_steps (\<lambda>_. []) (\<lambda>_. []) [Engine_turn, Main_turn, Engine_logger_turn, Engine_turn] x = Inr x' \<and>
    signal_handler (\<lambda>_ _ _. []) (\<lambda>_. []) (\<lambda>_. []) x' = Inr (l, e) \<and>
    log_file l = ''exchange_main.cpp:28 main()  Starting Matching Engine...'' @ [CHR 0x0A] @
      ''exchange_main.cpp:33 main()  Sleeping for a few milliseconds..'' @ [CHR 0x0A] \<and>
    log_file (io_logger (engine_io e)) = ''matching_engine.cpp:33 run() '' @ [CHR 0x0A] @ bs"
proof -
  let ?raw = "\<lambda>_. (\<lambda>_ _. None, \<lambda>_. None)" and ?evs = "[Engine_turn, Main_turn, Engine_logger_turn, Engine_turn]"
  let ?els = "book_elements (\<lambda>_ _ _. []) (\<lambda>_. []) 1 (new_books ?raw)"
  have r: "length (run_elements []) \<le> 100" by code_simp
  have "length ?els \<le> 100 * 8" using short_books [of 1 "new_books ?raw"] by (simp add: new_books_def ME_MAX_TICKERS_def)
  with r have len: "length (run_elements []) + length ?els < LOG_QUEUE_SIZE" unfolding LOG_QUEUE_SIZE_def by linarith
  have lines: "render_all (\<lambda>_. []) (\<lambda>_. []) (main_elements 28 starting []) =
      ''exchange_main.cpp:28 main()  Starting Matching Engine...'' @ [CHR 0x0A]"
    "render_all (\<lambda>_. []) (\<lambda>_. []) (main_elements 33 sleeping []) =
      ''exchange_main.cpp:33 main()  Sleeping for a few milliseconds..'' @ [CHR 0x0A]"
    "render_all (\<lambda>_. []) (\<lambda>_. []) (run_elements []) = ''matching_engine.cpp:33 run() '' @ [CHR 0x0A]"
    by code_simp+
  have "Engine_turn \<in> set ?evs" "count_list ?evs Main_turn = 1" by simp_all
  with exchange_run [of "\<lambda>_. []" ?evs ?els "\<lambda>_ _ _. []" "\<lambda>_. []" ?raw "\<lambda>_. 0" "\<lambda>_. []" "\<lambda>_. []"] len
  show ?thesis by (simp add: lines) blast
qed

end
