(* ===== verification/Socket_Utils.thy ===== *)
theory Socket_Utils
  imports Engine_IO
begin

unbundle bit_operations_syntax

text \<open>
  include/socket_utils.h and src/socket_utils.cpp: how a socket is made, and the environment
  all the network code shares. The kernel and the resolver are outside the sources and are a
  parameter, the record \<open>Kernel\<close>: a system call is a value of \<open>sys_call\<close>, and \<open>k_call\<close> says,
  given the calls so far with their results, what the next one returns and which \<open>errno\<close> it
  leaves when it returns -1; the three calls of epoll are there for the server. The
  environment records what the program does to the outside:
  the log, the calls made here with their results, the descriptors closed and the bytes
  handed to \<open>send\<close>. Nothing in this file closes a descriptor. Constants of the system
  headers have their Linux values.
\<close>

definition MaxTCPServerBacklog :: "32 word" where
  "MaxTCPServerBacklog = 1024"

datatype sock_opt = TCP_NODELAY | IP_TTL | IP_MULTICAST_TTL | SO_TIMESTAMP | SO_REUSEADDR

datatype sys_call =
    Sys_socket "32 word" "32 word" "32 word"
  | Sys_getfl "32 word"
  | Sys_setfl "32 word" "32 word"
  | Sys_setsockopt "32 word" sock_opt "32 word"
  | Sys_connect "32 word" string
  | Sys_bind "32 word" string
  | Sys_listen "32 word" "32 word"
  | Sys_epoll_create "32 word"
  | Sys_epoll_add "32 word" "32 word" "32 word" nat
  | Sys_epoll_del "32 word" "32 word"

record ifaddr =
  ifa_name :: string
  ifa_family :: "32 word option"
  ifa_host :: string

record addrinfo =
  ai_family :: "32 word"
  ai_socktype :: "32 word"
  ai_protocol :: "32 word"
  ai_flags :: "32 word"
  ai_addr :: string

record Kernel =
  k_call :: "(sys_call \<times> 32 word) list \<Rightarrow> sys_call \<Rightarrow> 32 word \<times> 32 word"
  k_ifaddrs :: "ifaddr list option"
  k_getaddrinfo :: "string \<Rightarrow> string \<Rightarrow> addrinfo \<Rightarrow> 32 word \<times> 32 word \<times> addrinfo list"
  k_strerror :: "32 word \<Rightarrow> string"
  k_gai_strerror :: "32 word \<Rightarrow> string"

record NetEnv =
  net_logger :: Logger
  net_ctime :: "nat \<Rightarrow> string"
  net_ticks :: nat
  net_closed :: "32 word list"
  net_wire :: "(32 word \<times> char list) list"
  net_calls :: "(sys_call \<times> 32 word) list"
  net_errno :: "32 word"

text \<open>\<open>logger_.log(fmt, __FILE__, __LINE__, __FUNCTION__, getCurrentTimeStr(...), args)\<close>\<close>

definition log_at :: "string \<Rightarrow> 32 word \<Rightarrow> string \<Rightarrow> string \<Rightarrow> log_arg list \<Rightarrow> NetEnv \<Rightarrow> NetEnv res" where
  "log_at file line function fmt args env =
     (let t = getCurrentTimeStr (net_ctime env (net_ticks env)) in
      bnd (log_fmt (''%:% %() % '' @ fmt @ [CHR 0x0A])
             ([A_cstr file, A_int line, A_cstr function, A_string t] @ args) (log_queue (net_logger env)))
        (\<lambda>q. Inr (env\<lparr>net_logger := (net_logger env)\<lparr>log_queue := q\<rparr>, net_ticks := Suc (net_ticks env)\<rparr>)))"

definition sys :: "Kernel \<Rightarrow> sys_call \<Rightarrow> NetEnv \<Rightarrow> 32 word \<times> NetEnv" where
  "sys k c st = (let (r, e) = k_call k (net_calls st) c in
     (r, st\<lparr>net_calls := net_calls st @ [(c, r)], net_errno := if r = - 1 then e else net_errno st\<rparr>))"

definition AF_INET :: "32 word" where "AF_INET = 2"
definition O_NONBLOCK :: "32 word" where "O_NONBLOCK = 0x800"
definition EWOULDBLOCK :: "32 word" where "EWOULDBLOCK = 11"
definition EINPROGRESS :: "32 word" where "EINPROGRESS = 115"

subsection \<open>The helpers\<close>

text \<open>The address of the first IPv4 interface of that name; \<open>ifa_addr\<close> may be null.\<close>

fun iface_loop :: "string \<Rightarrow> ifaddr list \<Rightarrow> string" where
  "iface_loop iface [] = []"
| "iface_loop iface (ifa # ifas) =
     (if ifa_family ifa = Some AF_INET \<and> iface = ifa_name ifa then ifa_host ifa else iface_loop iface ifas)"

definition getIfaceIP :: "Kernel \<Rightarrow> string \<Rightarrow> string" where
  "getIfaceIP k iface = (case k_ifaddrs k of None \<Rightarrow> [] | Some ifas \<Rightarrow> iface_loop iface ifas)"

definition setNonBlocking :: "Kernel \<Rightarrow> 32 word \<Rightarrow> NetEnv \<Rightarrow> bool \<times> NetEnv" where
  "setNonBlocking k fd st =
     (let (flags, st) = sys k (Sys_getfl fd) st in
      if flags = - 1 then (False, st)
      else if flags AND O_NONBLOCK \<noteq> 0 then (True, st)
      else let (r, st) = sys k (Sys_setfl fd (flags OR O_NONBLOCK)) st in (r \<noteq> - 1, st))"

definition set_option :: "sock_opt \<Rightarrow> 32 word \<Rightarrow> Kernel \<Rightarrow> 32 word \<Rightarrow> NetEnv \<Rightarrow> bool \<times> NetEnv" where
  "set_option opt value k fd st = (let (r, st) = sys k (Sys_setsockopt fd opt value) st in (r \<noteq> - 1, st))"

definition setNoDelay :: "Kernel \<Rightarrow> 32 word \<Rightarrow> NetEnv \<Rightarrow> bool \<times> NetEnv" where
  "setNoDelay k fd st = set_option TCP_NODELAY 1 k fd st"

definition wouldBlock :: "NetEnv \<Rightarrow> bool" where
  "wouldBlock st \<longleftrightarrow> net_errno st = EWOULDBLOCK \<or> net_errno st = EINPROGRESS"

definition setTTL :: "Kernel \<Rightarrow> 32 word \<Rightarrow> 32 word \<Rightarrow> NetEnv \<Rightarrow> bool \<times> NetEnv" where
  "setTTL k fd ttl st = set_option IP_TTL ttl k fd st"

definition setMcastTTL :: "Kernel \<Rightarrow> 32 word \<Rightarrow> 32 word \<Rightarrow> NetEnv \<Rightarrow> bool \<times> NetEnv" where
  "setMcastTTL k fd mcast_ttl st = set_option IP_MULTICAST_TTL mcast_ttl k fd st"

definition setSOTimestamp :: "Kernel \<Rightarrow> 32 word \<Rightarrow> NetEnv \<Rightarrow> bool \<times> NetEnv" where
  "setSOTimestamp k fd st = set_option SO_TIMESTAMP 1 k fd st"

text \<open>\<open>atoi\<close> of the C library: leading space, a sign, then digits up to the first other character.\<close>

fun digits_value :: "int \<Rightarrow> string \<Rightarrow> int" where
  "digits_value n [] = n"
| "digits_value n (c # s) = (if is_digit c then digits_value (10 * n + int (char_digit c)) s else n)"

definition is_space :: "char \<Rightarrow> bool" where
  "is_space c \<longleftrightarrow> c \<in> {CHR '' '', CHR 0x09, CHR 0x0A, CHR 0x0B, CHR 0x0C, CHR 0x0D}"

definition atoi :: "string \<Rightarrow> 32 word" where
  "atoi s = (case dropWhile is_space s of
     [] \<Rightarrow> 0
   | c # t \<Rightarrow> word_of_int (if c = CHR ''-'' then - digits_value 0 t else if c = CHR ''+'' then digits_value 0 t
       else digits_value 0 (c # t)))"

definition is_multicast :: "string \<Rightarrow> bool" where
  "is_multicast ip \<longleftrightarrow> atoi ip AND 0xe0 \<noteq> 0"

subsection \<open>Creating a socket\<close>

definition log_socket :: "string \<Rightarrow> log_arg list \<Rightarrow> NetEnv \<Rightarrow> NetEnv res" where
  "log_socket fmt args st =
     bnd (log_fmt (fmt @ [CHR 0x0A]) args (log_queue (net_logger st))) (\<lambda>q.
     Inr (st\<lparr>net_logger := (net_logger st)\<lparr>log_queue := q\<rparr>\<rparr>))"

text \<open>
  One \<open>if (needed && !call) { log; return -1; }\<close>. The value \<open>None\<close> stands for the return of -1
  out of the loop, \<open>Some fd\<close> for the descriptor at the end of a turn.
\<close>

definition failed :: "Kernel \<Rightarrow> string \<Rightarrow> NetEnv \<Rightarrow> (32 word option \<times> NetEnv) res" where
  "failed k what st =
     bnd (log_socket (what @ '' failed. errno:%'') [A_cstr (k_strerror k (net_errno st))] st) (\<lambda>st. Inr (None, st))"

definition require :: "Kernel \<Rightarrow> bool \<Rightarrow> (NetEnv \<Rightarrow> bool \<times> NetEnv) \<Rightarrow> string \<Rightarrow>
    (NetEnv \<Rightarrow> (32 word option \<times> NetEnv) res) \<Rightarrow> NetEnv \<Rightarrow> (32 word option \<times> NetEnv) res" where
  "require k needed call what rest st =
     (if needed then let (ok, st) = call st in if ok then rest st else failed k what st else rest st)"

definition sys_ok :: "Kernel \<Rightarrow> sys_call \<Rightarrow> NetEnv \<Rightarrow> bool \<times> NetEnv" where
  "sys_ok k c st = (let (r, st) = sys k c st in (r \<noteq> - 1, st))"

definition connect_ok :: "Kernel \<Rightarrow> 32 word \<Rightarrow> string \<Rightarrow> NetEnv \<Rightarrow> bool \<times> NetEnv" where
  "connect_ok k fd addr st = (let (r, st) = sys k (Sys_connect fd addr) st in (\<not> (r = - 1 \<and> \<not> wouldBlock st), st))"

record sock_opts =
  is_udp :: bool
  is_blocking :: bool
  is_listening :: bool
  ttl :: "32 word"
  needs_so_timestamp :: bool

definition set_up :: "Kernel \<Rightarrow> string \<Rightarrow> sock_opts \<Rightarrow> addrinfo \<Rightarrow> 32 word \<Rightarrow> NetEnv \<Rightarrow> (32 word option \<times> NetEnv) res" where
  "set_up k ip opts rp fd =
     require k (\<not> is_blocking opts) (setNonBlocking k fd) ''setNonBlocking()'' (
     require k (\<not> is_blocking opts \<and> \<not> is_udp opts) (setNoDelay k fd) ''setNoDelay()'' (
     require k (\<not> is_listening opts) (connect_ok k fd (ai_addr rp)) ''connect()'' (
     require k (is_listening opts) (set_option SO_REUSEADDR 1 k fd) ''setsockopt() SO_REUSEADDR'' (
     require k (is_listening opts) (sys_ok k (Sys_bind fd (ai_addr rp))) ''bind()'' (
     require k (\<not> is_udp opts \<and> is_listening opts) (sys_ok k (Sys_listen fd MaxTCPServerBacklog)) ''listen()'' (
     require k (is_udp opts \<and> ttl opts \<noteq> 0 \<and> is_multicast ip) (setMcastTTL k fd (ttl opts)) ''setMcastTTL()'' (
     require k (is_udp opts \<and> ttl opts \<noteq> 0 \<and> \<not> is_multicast ip) (setTTL k fd (ttl opts)) ''setTTL()'' (
     require k (needs_so_timestamp opts) (setSOTimestamp k fd) ''setSOTimestamp()'' (
     \<lambda>st. Inr (Some fd, st))))))))))"

definition open_address :: "Kernel \<Rightarrow> string \<Rightarrow> sock_opts \<Rightarrow> addrinfo \<Rightarrow> NetEnv \<Rightarrow> (32 word option \<times> NetEnv) res" where
  "open_address k ip opts rp st =
     (let (fd, st) = sys k (Sys_socket (ai_family rp) (ai_socktype rp) (ai_protocol rp)) st in
      if fd = - 1 then failed k ''socket()'' st else set_up k ip opts rp fd st)"

text \<open>The loop over the resolved addresses: every turn overwrites \<open>fd\<close>.\<close>

fun address_loop :: "Kernel \<Rightarrow> string \<Rightarrow> sock_opts \<Rightarrow> 32 word \<Rightarrow> addrinfo list \<Rightarrow> NetEnv \<Rightarrow> (32 word \<times> NetEnv) res" where
  "address_loop k ip opts fd [] st = Inr (fd, st)"
| "address_loop k ip opts fd (rp # rps) st =
     bnd (open_address k ip opts rp st) (\<lambda>(r, st).
     case r of None \<Rightarrow> Inr (- 1, st) | Some fd \<Rightarrow> address_loop k ip opts fd rps st)"

definition hints :: "string \<Rightarrow> sock_opts \<Rightarrow> addrinfo" where
  "hints ip opts = \<lparr>ai_family = AF_INET, ai_socktype = (if is_udp opts then 2 else 1), ai_protocol = (if is_udp opts then 17 else 6),
     ai_flags = (if is_listening opts then 1 else 0) OR (if ip \<noteq> [] \<and> is_digit (hd ip) then 4 else 0) OR 0x400, ai_addr = []\<rparr>"

text \<open>What \<open>TCPSocket::connect\<close> asks for: TCP, not blocking, with kernel time stamps.\<close>

definition tcp_opts :: "bool \<Rightarrow> sock_opts" where
  "tcp_opts listening = \<lparr>is_udp = False, is_blocking = False, is_listening = listening, ttl = 0, needs_so_timestamp = True\<rparr>"

abbreviation A_bool :: "bool \<Rightarrow> log_arg" where
  "A_bool b \<equiv> A_int (if b then 1 else 0)"

definition createSocket :: "Kernel \<Rightarrow> string \<Rightarrow> string \<Rightarrow> 32 word \<Rightarrow> sock_opts \<Rightarrow> NetEnv \<Rightarrow> (32 word \<times> NetEnv) res" where
  "createSocket k t_ip iface port opts st =
     (let ip = (if t_ip = [] then getIfaceIP k iface else t_ip) in
      bnd (log_at ''socket_utils.cpp'' 56 ''createSocket''
             ''ip:% iface:% port:% is_udp:% is_blocking:% is_listening:% ttl:% SO_time:%''
             [A_string ip, A_string iface, A_int port, A_bool (is_udp opts), A_bool (is_blocking opts),
              A_bool (is_listening opts), A_int (ttl opts), A_bool (needs_so_timestamp opts)] st) (\<lambda>st.
      let (rc, e, result) = k_getaddrinfo k ip (to_string_int (sint port)) (hints ip opts);
          st = st\<lparr>net_errno := if rc \<noteq> 0 then e else net_errno st\<rparr> in
      if rc \<noteq> 0 then
        bnd (log_socket ''getaddrinfo() failed. error:% errno:%''
               [A_cstr (k_gai_strerror k rc), A_cstr (k_strerror k (net_errno st))] st) (\<lambda>st. Inr (- 1, st))
      else address_loop k ip opts (- 1) result st))"


subsection \<open>What the calls leave behind\<close>

text \<open>\<open>grows T\<close>: the calls \<open>T\<close> were made, nothing was closed or sent.\<close>

definition grows :: "(sys_call \<times> 32 word) list \<Rightarrow> NetEnv \<Rightarrow> NetEnv \<Rightarrow> bool" where
  "grows T st st' \<longleftrightarrow> net_calls st' = net_calls st @ T \<and> net_closed st' = net_closed st \<and> net_wire st' = net_wire st"

lemma grows_refl [simp]: "grows [] st st"
  by (simp add: grows_def)

lemma grows_trans: "grows T st st1 \<Longrightarrow> grows T' st1 st2 \<Longrightarrow> grows (T @ T') st st2"
  by (simp add: grows_def)

lemma sys_grows: "sys k c st = (r, st') \<Longrightarrow> grows [(c, r)] st st'"
  by (auto simp: sys_def grows_def Let_def split: prod.splits)

text \<open>The descriptors \<open>socket\<close> returned.\<close>

fun opened :: "(sys_call \<times> 32 word) list \<Rightarrow> 32 word list" where
  "opened [] = []"
| "opened ((Sys_socket _ _ _, r) # T) = (if r \<noteq> - 1 then r # opened T else opened T)"
| "opened (_ # T) = opened T"

lemma opened_append [simp]: "opened (T @ T') = opened T @ opened T'"
  by (induction T rule: opened.induct) auto

definition succeeded :: "sys_call \<Rightarrow> (sys_call \<times> 32 word) list \<Rightarrow> bool" where
  "succeeded c T \<longleftrightarrow> (\<exists>r. r \<noteq> - 1 \<and> (c, r) \<in> set T)"

definition unblocked :: "32 word \<Rightarrow> (sys_call \<times> 32 word) list \<Rightarrow> bool" where
  "unblocked fd T \<longleftrightarrow> (\<exists>flags. flags \<noteq> - 1 \<and> (Sys_getfl fd, flags) \<in> set T \<and>
     (flags AND O_NONBLOCK \<noteq> 0 \<or> succeeded (Sys_setfl fd (flags OR O_NONBLOCK)) T))"

definition tried :: "sys_call \<Rightarrow> (sys_call \<times> 32 word) list \<Rightarrow> bool" where
  "tried c T \<longleftrightarrow> (\<exists>r. (c, r) \<in> set T)"

lemma succeeded_append [simp]: "succeeded c (A @ B) \<longleftrightarrow> succeeded c A \<or> succeeded c B"
  and tried_append [simp]: "tried c (A @ B) \<longleftrightarrow> tried c A \<or> tried c B"
  and unblocked_append [simp]: "unblocked fd A \<or> unblocked fd B \<Longrightarrow> unblocked fd (A @ B)"
  by (auto simp: succeeded_def tried_def unblocked_def)

text \<open>A call that opens nothing and, when it says it succeeded, has made calls that satisfy \<open>P\<close>.\<close>

definition helper :: "(NetEnv \<Rightarrow> bool \<times> NetEnv) \<Rightarrow> ((sys_call \<times> 32 word) list \<Rightarrow> bool) \<Rightarrow> bool" where
  "helper call P \<longleftrightarrow> (\<forall>st b st'. call st = (b, st') \<longrightarrow> (\<exists>T. grows T st st' \<and> opened T = [] \<and> (b \<longrightarrow> P T)))"

lemma helperD: "helper call P \<Longrightarrow> call st = (b, st') \<Longrightarrow> \<exists>T. grows T st st' \<and> (b \<longrightarrow> P T)"
  unfolding helper_def by blast

lemma helper_set_option: "helper (set_option opt v k fd) (succeeded (Sys_setsockopt fd opt v))"
  by (auto simp: helper_def set_option_def succeeded_def dest!: sys_grows split: prod.splits)

lemma helper_sys_ok: "\<forall>r. opened [(c, r)] = [] \<Longrightarrow> helper (sys_ok k c) (succeeded c)"
  by (auto simp: helper_def sys_ok_def succeeded_def dest!: sys_grows split: prod.splits)

lemma helper_conj:
  assumes "helper f P" "helper g Q" "\<And>A B. P A \<Longrightarrow> Q B \<Longrightarrow> R (A @ B)"
  shows "helper (\<lambda>st. let (ok, st) = f st in if ok then g st else (False, st)) R"
  unfolding helper_def
proof (intro allI impI)
  fix st b st'
  assume r: "(let (ok, st) = f st in if ok then g st else (False, st)) = (b, st')"
  obtain ok st1 where f: "f st = (ok, st1)" by fastforce
  with assms(1) obtain T where T: "grows T st st1" "opened T = []" "ok \<longrightarrow> P T" unfolding helper_def by blast
  show "\<exists>T. grows T st st' \<and> opened T = [] \<and> (b \<longrightarrow> R T)"
  proof (cases ok)
    case True
    with r f have g: "g st1 = (b, st')" by simp
    with assms(2) obtain T' where T': "grows T' st1 st'" "opened T' = []" "b \<longrightarrow> Q T'" unfolding helper_def by blast
    with T True assms(3) grows_trans [OF T(1) T'(1)] show ?thesis by (intro exI [of _ "T @ T'"]) simp
  next
    case False
    with r f T show ?thesis by auto
  qed
qed

text \<open>
  A kernel that lets every descriptor be configured and registered, and what the calls then
  say. Nothing is asked of the other calls.
\<close>

fun configures :: "sys_call \<Rightarrow> bool" where
  "configures (Sys_getfl _) = True"
| "configures (Sys_setfl _ _) = True"
| "configures (Sys_setsockopt _ _ _) = True"
| "configures (Sys_epoll_add _ _ _ _) = True"
| "configures _ = False"

definition obliging :: "Kernel \<Rightarrow> bool" where
  "obliging k \<longleftrightarrow> (\<forall>T c. configures c \<longrightarrow> fst (k_call k T c) \<noteq> - 1)"

lemma obliging_sys: "obliging k \<Longrightarrow> configures c \<Longrightarrow> fst (sys k c st) \<noteq> - 1"
  by (auto simp: obliging_def sys_def Let_def split: prod.splits) (metis fst_conv)

lemma obliging_calls:
  assumes "obliging k"
  shows "configures c \<Longrightarrow> fst (sys_ok k c st)" "fst (setNoDelay k fd st)" "fst (setNonBlocking k fd st)"
  using obliging_sys [OF assms, of c st] obliging_sys [OF assms, of "Sys_setsockopt fd TCP_NODELAY 1" st]
    obliging_sys [OF assms, of "Sys_getfl fd" st]
    obliging_sys [OF assms, of "Sys_setfl fd (fst (sys k (Sys_getfl fd) st) OR O_NONBLOCK)" "snd (sys k (Sys_getfl fd) st)"]
  by (simp_all add: sys_ok_def setNoDelay_def set_option_def setNonBlocking_def Let_def case_prod_beta)

lemma helper_connect: "helper (connect_ok k fd addr) (tried (Sys_connect fd addr))"
  by (auto simp: helper_def connect_ok_def tried_def dest!: sys_grows split: prod.splits)

lemma helper_setNonBlocking: "helper (setNonBlocking k fd) (unblocked fd)"
  unfolding helper_def
proof (intro allI impI)
  fix st b st'
  assume r: "setNonBlocking k fd st = (b, st')"
  obtain flags st1 where 1: "sys k (Sys_getfl fd) st = (flags, st1)" by fastforce
  obtain w st2 where 2: "sys k (Sys_setfl fd (flags OR O_NONBLOCK)) st1 = (w, st2)" by fastforce
  note g = sys_grows [OF 1] grows_trans [OF sys_grows [OF 1] sys_grows [OF 2]]
  show "\<exists>T. grows T st st' \<and> opened T = [] \<and> (b \<longrightarrow> unblocked fd T)"
  proof (cases "flags = - 1 \<or> flags AND O_NONBLOCK \<noteq> 0")
    case True
    with r 1 g(1) show ?thesis
      by (intro exI [of _ "[(Sys_getfl fd, flags)]"]) (auto simp: setNonBlocking_def unblocked_def split: if_splits)
  next
    case False
    with r 1 2 g(2) show ?thesis
      by (intro exI [of _ "[(Sys_getfl fd, flags), (Sys_setfl fd (flags OR O_NONBLOCK), w)]"])
        (auto simp: setNonBlocking_def unblocked_def succeeded_def Let_def)
  qed
qed

lemma log_socket_total: "holes (fmt @ [CHR 0x0A]) = length args \<Longrightarrow> \<exists>st'. log_socket fmt args st = Inr st' \<and> grows [] st st'"
  by (simp add: log_socket_def log_fmt_spec grows_def)

definition step_name :: "string \<Rightarrow> bool" where
  "step_name what \<longleftrightarrow> holes ((what @ '' failed. errno:%'') @ [CHR 0x0A]) = 1"

lemma failed_result: "step_name what \<Longrightarrow> \<exists>st'. failed k what st = Inr (None, st') \<and> grows [] st st'"
  using log_socket_total [of "what @ '' failed. errno:%''" "[A_cstr (k_strerror k (net_errno st))]" st]
  by (auto simp: failed_def step_name_def)

text \<open>
  The rule every step of \<open>open_address\<close> is taken through: it either ends the turn with -1 or
  has succeeded what was needed and goes on.
\<close>

lemma require_result:
  assumes "step_name what" "helper call P"
  shows "\<exists>T st1. grows T st st1 \<and> opened T = [] \<and>
    (require k needed call what rest st = Inr (None, st1) \<or>
     require k needed call what rest st = rest st1 \<and> (needed \<longrightarrow> P T))"
proof (cases needed)
  case True
  obtain b st2 where c: "call st = (b, st2)" by fastforce
  then obtain T where T: "grows T st st2" "opened T = []" "b \<longrightarrow> P T" using assms(2) unfolding helper_def by blast
  obtain st3 where f: "failed k what st2 = Inr (None, st3)" "grows [] st2 st3" using failed_result [OF assms(1)] by blast
  show ?thesis
  proof (cases b)
    case True
    with c T \<open>needed\<close> show ?thesis by (intro exI [of _ T] exI [of _ st2]) (simp add: require_def)
  next
    case False
    with c T f grows_trans [OF T(1) f(2)] \<open>needed\<close> show ?thesis
      by (intro exI [of _ T] exI [of _ st3]) (simp add: require_def)
  qed
next
  case False
  then show ?thesis by (intro exI [of _ "[]"] exI [of _ st]) (simp add: require_def)
qed

text \<open>
  Chains of such steps: \<open>chain Q r\<close> says that the result is -1, or a descriptor after calls
  satisfying \<open>Q\<close>.
\<close>

definition chain :: "NetEnv \<Rightarrow> 32 word \<Rightarrow> ((sys_call \<times> 32 word) list \<Rightarrow> bool) \<Rightarrow> (32 word option \<times> NetEnv) res \<Rightarrow> bool" where
  "chain st fd Q r \<longleftrightarrow> (\<exists>T st1 x. r = Inr (x, st1) \<and> grows T st st1 \<and> opened T = [] \<and> (x = None \<or> x = Some fd \<and> Q T))"

lemma chain_end: "chain st fd (\<lambda>_. True) (Inr (Some fd, st))"
  by (auto simp: chain_def intro: exI [of _ "[]"])

lemma chain_require:
  assumes "step_name what" "helper call P" "\<And>st. chain st fd Q (rest st)"
  shows "chain st fd (\<lambda>T. \<exists>A B. T = A @ B \<and> (needed \<longrightarrow> P A) \<and> Q B) (require k needed call what rest st)"
proof -
  obtain T st1 where T: "grows T st st1" "opened T = []"
    "require k needed call what rest st = Inr (None, st1) \<or>
     require k needed call what rest st = rest st1 \<and> (needed \<longrightarrow> P T)"
    using require_result [OF assms(1,2)] by blast
  from T(3) show ?thesis
  proof
    assume "require k needed call what rest st = Inr (None, st1)"
    with T(1,2) show ?thesis by (auto simp: chain_def)
  next
    assume r: "require k needed call what rest st = rest st1 \<and> (needed \<longrightarrow> P T)"
    obtain T' st2 x where T': "rest st1 = Inr (x, st2)" "grows T' st1 st2" "opened T' = []" "x = None \<or> x = Some fd \<and> Q T'"
      using assms(3) [of st1] unfolding chain_def by blast
    with r grows_trans [OF T(1) T'(2)] T(2) show ?thesis
      unfolding chain_def by (intro exI [of _ "T @ T'"] exI [of _ st2] exI [of _ x]) auto
  qed
qed


text \<open>What the calls made for one address amount to when it was set up completely.\<close>

definition fully_configured :: "string \<Rightarrow> sock_opts \<Rightarrow> addrinfo \<Rightarrow> 32 word \<Rightarrow> (sys_call \<times> 32 word) list \<Rightarrow> bool" where
  "fully_configured ip opts rp fd T \<longleftrightarrow>
     (\<not> is_blocking opts \<longrightarrow> unblocked fd T) \<and>
     (\<not> is_blocking opts \<and> \<not> is_udp opts \<longrightarrow> succeeded (Sys_setsockopt fd TCP_NODELAY 1) T) \<and>
     (\<not> is_listening opts \<longrightarrow> tried (Sys_connect fd (ai_addr rp)) T) \<and>
     (is_listening opts \<longrightarrow> succeeded (Sys_setsockopt fd SO_REUSEADDR 1) T \<and> succeeded (Sys_bind fd (ai_addr rp)) T) \<and>
     (is_listening opts \<and> \<not> is_udp opts \<longrightarrow> succeeded (Sys_listen fd MaxTCPServerBacklog) T) \<and>
     (is_udp opts \<and> ttl opts \<noteq> 0 \<longrightarrow>
        succeeded (Sys_setsockopt fd (if is_multicast ip then IP_MULTICAST_TTL else IP_TTL) (ttl opts)) T) \<and>
     (needs_so_timestamp opts \<longrightarrow> succeeded (Sys_setsockopt fd SO_TIMESTAMP 1) T)"

lemma step_names:
  "step_name ''socket()''" "step_name ''setNonBlocking()''" "step_name ''setNoDelay()''" "step_name ''connect()''"
  "step_name ''setsockopt() SO_REUSEADDR''" "step_name ''bind()''" "step_name ''listen()''"
  "step_name ''setMcastTTL()''" "step_name ''setTTL()''" "step_name ''setSOTimestamp()''"
  by (simp_all add: step_name_def)

lemma chain_weaken: "chain st fd Q r \<Longrightarrow> (\<And>T. Q T \<Longrightarrow> Q' T) \<Longrightarrow> chain st fd Q' r"
  by (auto simp: chain_def)

lemma set_up_chain: "chain st fd (fully_configured ip opts rp fd) (set_up k ip opts rp fd st)"
proof -
  note h = helper_set_option [of _ _ k fd]
  have opts: "helper (setNoDelay k fd) (succeeded (Sys_setsockopt fd TCP_NODELAY 1))"
    "helper (setMcastTTL k fd (ttl opts)) (succeeded (Sys_setsockopt fd IP_MULTICAST_TTL (ttl opts)))"
    "helper (setTTL k fd (ttl opts)) (succeeded (Sys_setsockopt fd IP_TTL (ttl opts)))"
    "helper (setSOTimestamp k fd) (succeeded (Sys_setsockopt fd SO_TIMESTAMP 1))"
    using h by (simp_all add: helper_def setNoDelay_def setMcastTTL_def setTTL_def setSOTimestamp_def)
  have sys: "helper (sys_ok k (Sys_bind fd (ai_addr rp))) (succeeded (Sys_bind fd (ai_addr rp)))"
    "helper (sys_ok k (Sys_listen fd MaxTCPServerBacklog)) (succeeded (Sys_listen fd MaxTCPServerBacklog))"
    by (simp_all add: helper_sys_ok)
  show ?thesis unfolding set_up_def
    by (rule chain_weaken,
        rule chain_require [OF step_names(2) helper_setNonBlocking], rule chain_require [OF step_names(3) opts(1)],
        rule chain_require [OF step_names(4) helper_connect], rule chain_require [OF step_names(5) h],
        rule chain_require [OF step_names(6) sys(1)], rule chain_require [OF step_names(7) sys(2)],
        rule chain_require [OF step_names(8) opts(2)], rule chain_require [OF step_names(9) opts(3)],
        rule chain_require [OF step_names(10) opts(4)], rule chain_end)
      (elim exE conjE, simp add: fully_configured_def)
qed


lemma open_address_result:
  "\<exists>T st1 x. open_address k ip opts rp st = Inr (x, st1) \<and> grows T st st1 \<and>
    (case x of None \<Rightarrow> length (opened T) \<le> 1
     | Some fd \<Rightarrow> fd \<noteq> - 1 \<and> opened T = [fd] \<and> fully_configured ip opts rp fd T)"
proof -
  let ?c = "Sys_socket (ai_family rp) (ai_socktype rp) (ai_protocol rp)"
  obtain fd st1 where s: "sys k ?c st = (fd, st1)" by fastforce
  note g = sys_grows [OF s]
  show ?thesis
  proof (cases "fd = - 1")
    case True
    obtain st2 where f: "failed k ''socket()'' st1 = Inr (None, st2)" "grows [] st1 st2"
      using failed_result [OF step_names(1)] by blast
    from True s f(1) grows_trans [OF g f(2)] show ?thesis
      by (intro exI [of _ "[(?c, fd)]"] exI [of _ st2] exI [of _ None]) (simp add: open_address_def)
  next
    case False
    obtain T st2 x where c: "set_up k ip opts rp fd st1 = Inr (x, st2)" "grows T st1 st2" "opened T = []"
      "x = None \<or> x = Some fd \<and> fully_configured ip opts rp fd T"
      using set_up_chain [of st1 fd ip opts rp k] unfolding chain_def by blast
    have "fully_configured ip opts rp fd T \<Longrightarrow> fully_configured ip opts rp fd ((?c, fd) # T)"
      by (auto simp: fully_configured_def succeeded_def tried_def unblocked_def)
    with False s c grows_trans [OF g c(2)] show ?thesis
      by (intro exI [of _ "(?c, fd) # T"] exI [of _ st2] exI [of _ x]) (auto simp: open_address_def)
  qed
qed

lemma fully_configured_append: "fully_configured ip opts rp fd A \<or> fully_configured ip opts rp fd B \<Longrightarrow> fully_configured ip opts rp fd (A @ B)"
  unfolding fully_configured_def by (elim disjE) simp_all

lemma address_loop_result:
  "\<exists>T st1 fd. address_loop k ip opts fd0 rps st = Inr (fd, st1) \<and> grows T st st1 \<and>
    (rps = [] \<longrightarrow> fd = fd0 \<and> T = []) \<and>
    (if fd = - 1 then length (opened T) \<le> length rps
     else rps \<noteq> [] \<longrightarrow> length (opened T) = length rps \<and> last (opened T) = fd \<and>
       (\<forall>i < length rps. fully_configured ip opts (rps ! i) (opened T ! i) T))"
proof (induction rps arbitrary: fd0 st)
  case (Cons rp rps)
  obtain T st1 x where o: "open_address k ip opts rp st = Inr (x, st1)" "grows T st st1"
    "case x of None \<Rightarrow> length (opened T) \<le> 1
     | Some fd \<Rightarrow> fd \<noteq> - 1 \<and> opened T = [fd] \<and> fully_configured ip opts rp fd T"
    using open_address_result by blast
  show ?case
  proof (cases x)
    case None
    with o show ?thesis by (intro exI [of _ T] exI [of _ st1] exI [of _ "- 1"]) simp
  next
    case (Some fd1)
    obtain T' st2 fd where l: "address_loop k ip opts fd1 rps st1 = Inr (fd, st2)" "grows T' st1 st2"
      "rps = [] \<longrightarrow> fd = fd1 \<and> T' = []"
      "if fd = - 1 then length (opened T') \<le> length rps
       else rps \<noteq> [] \<longrightarrow> length (opened T') = length rps \<and> last (opened T') = fd \<and>
         (\<forall>i < length rps. fully_configured ip opts (rps ! i) (opened T' ! i) T')"
      using Cons.IH by blast
    have fd1: "fd1 \<noteq> - 1" "opened T = [fd1]" "fully_configured ip opts rp fd1 T" using o(3) Some by simp_all
    have "fully_configured ip opts ((rp # rps) ! i) (opened (T @ T') ! i) (T @ T')"
      if "fd \<noteq> - 1" "i < length (rp # rps)" for i
      using that l(3,4) fd1 fully_configured_append [of ip opts _ _ T T'] by (cases i) fastforce+
    with o(1) Some l fd1 grows_trans [OF o(2) l(2)] show ?thesis
      by (intro exI [of _ "T @ T'"] exI [of _ st2] exI [of _ fd]) auto
  qed
qed (auto intro: exI [of _ "[]"])


definition the_ip :: "Kernel \<Rightarrow> string \<Rightarrow> string \<Rightarrow> string" where
  "the_ip k t_ip iface = (if t_ip = [] then getIfaceIP k iface else t_ip)"

definition resolved :: "Kernel \<Rightarrow> string \<Rightarrow> string \<Rightarrow> 32 word \<Rightarrow> sock_opts \<Rightarrow> 32 word \<times> 32 word \<times> addrinfo list" where
  "resolved k t_ip iface port opts =
     (let ip = the_ip k t_ip iface in k_getaddrinfo k ip (to_string_int (sint port)) (hints ip opts))"

lemma createSocket_log:
  assumes "resolved k t_ip iface port opts = (rc, e, result)"
  shows "\<exists>st1. grows [] st st1 \<and> createSocket k t_ip iface port opts st =
    (if rc \<noteq> 0 then
        bnd (log_socket ''getaddrinfo() failed. error:% errno:%''
               [A_cstr (k_gai_strerror k rc), A_cstr (k_strerror k (net_errno st1))] st1) (\<lambda>st. Inr (- 1, st))
      else address_loop k (the_ip k t_ip iface) opts (- 1) result st1)"
proof -
  let ?ip = "the_ip k t_ip iface"
  let ?args = "[A_string ?ip, A_string iface, A_int port, A_bool (is_udp opts), A_bool (is_blocking opts),
              A_bool (is_listening opts), A_int (ttl opts), A_bool (needs_so_timestamp opts)]"
  have "holes (''%:% %() % '' @ ''ip:% iface:% port:% is_udp:% is_blocking:% is_listening:% ttl:% SO_time:%'' @ [CHR 0x0A]) =
      4 + length ?args" by simp
  then obtain st1 where l: "log_at ''socket_utils.cpp'' 56 ''createSocket''
      ''ip:% iface:% port:% is_udp:% is_blocking:% is_listening:% ttl:% SO_time:%'' ?args st = Inr st1" "grows [] st st1"
    by (simp add: log_at_def Let_def log_fmt_spec grows_def)
  let ?st = "st1\<lparr>net_errno := if rc \<noteq> 0 then e else net_errno st1\<rparr>"
  have "grows [] st ?st" using l(2) by (simp add: grows_def)
  with l(1) assms show ?thesis
    by (intro exI [of _ ?st]) (simp add: createSocket_def resolved_def Let_def flip: the_ip_def)
qed

lemma createSocket_result:
  assumes "resolved k t_ip iface port opts = (rc, e, result)"
  shows "\<exists>T st1 fd. createSocket k t_ip iface port opts st = Inr (fd, st1) \<and> grows T st st1 \<and>
    (if fd = - 1 then length (opened T) \<le> length result
     else rc = 0 \<and> result \<noteq> [] \<and> length (opened T) = length result \<and> last (opened T) = fd \<and>
       (\<forall>i < length result. fully_configured (the_ip k t_ip iface) opts (result ! i) (opened T ! i) T))"
proof -
  let ?ip = "the_ip k t_ip iface"
  obtain st0 where c: "grows [] st st0" "createSocket k t_ip iface port opts st =
    (if rc \<noteq> 0 then
        bnd (log_socket ''getaddrinfo() failed. error:% errno:%''
               [A_cstr (k_gai_strerror k rc), A_cstr (k_strerror k (net_errno st0))] st0) (\<lambda>st. Inr (- 1, st))
      else address_loop k ?ip opts (- 1) result st0)"
    using createSocket_log [OF assms] by blast
  show ?thesis
  proof (cases "rc = 0")
    case True
    obtain T st2 fd where a: "address_loop k ?ip opts (- 1) result st0 = Inr (fd, st2)" "grows T st0 st2"
      "result = [] \<longrightarrow> fd = - 1 \<and> T = []"
      "if fd = - 1 then length (opened T) \<le> length result
       else result \<noteq> [] \<longrightarrow> length (opened T) = length result \<and> last (opened T) = fd \<and>
         (\<forall>i < length result. fully_configured ?ip opts (result ! i) (opened T ! i) T)"
      using address_loop_result by blast
    from True a c(2) grows_trans [OF c(1) a(2)] show ?thesis
      by (intro exI [of _ T] exI [of _ st2] exI [of _ fd]) auto
  next
    case False
    let ?a = "[A_cstr (k_gai_strerror k rc), A_cstr (k_strerror k (net_errno st0))]"
    obtain st2 where f: "log_socket ''getaddrinfo() failed. error:% errno:%'' ?a st0 = Inr st2" "grows [] st0 st2"
      using log_socket_total [of "''getaddrinfo() failed. error:% errno:%''" ?a st0] by auto
    from False f(1) c(2) grows_trans [OF c(1) f(2)] show ?thesis
      by (intro exI [of _ "[]"] exI [of _ st2] exI [of _ "- 1"]) simp
  qed
qed

text \<open>What happens when the first address cannot be set up after its descriptor was opened.\<close>

lemma open_address_opens:
  assumes "fst (k_call k (net_calls st) (Sys_socket (ai_family rp) (ai_socktype rp) (ai_protocol rp))) \<noteq> - 1"
    and "open_address k ip opts rp st = Inr (x, st1)" "grows T st st1"
  shows "opened T \<noteq> []"
proof -
  let ?c = "Sys_socket (ai_family rp) (ai_socktype rp) (ai_protocol rp)"
  obtain fd st0 where s: "sys k ?c st = (fd, st0)" by fastforce
  then have fd: "fd \<noteq> - 1" using assms(1) by (auto simp: sys_def Let_def split: prod.splits)
  obtain T' st2 y where c: "set_up k ip opts rp fd st0 = Inr (y, st2)" "grows T' st0 st2"
    using set_up_chain [of st0 fd ip opts rp k] unfolding chain_def by blast
  have "st2 = st1" using assms(2) s fd c(1) by (simp add: open_address_def)
  with grows_trans [OF sys_grows [OF s] c(2)] assms(3) have "T = (?c, fd) # T'" by (simp add: grows_def)
  with fd show ?thesis by simp
qed

subsection \<open>Properties of createSocket\<close>

text \<open>
  C35: a descriptor \<open>createSocket\<close> returns is set up as asked: it is not blocking and sends
  without delay, has been bound and is listening with a queue of \<open>MaxTCPServerBacklog\<close>
  when the socket is to listen (and may reuse its address), has been connected otherwise,
  carries the time-to-live and has kernel time stamps on, as far as each of these was
  requested, and it belongs to the last address the resolver gave.
\<close>

theorem createSocket_configures:
  assumes "resolved k t_ip iface port opts = (rc, e, result)"
    and "createSocket k t_ip iface port opts st = Inr (fd, st')" "fd \<noteq> - 1"
  shows "\<exists>T. net_calls st' = net_calls st @ T \<and> last (opened T) = fd \<and> result \<noteq> [] \<and>
    fully_configured (the_ip k t_ip iface) opts (last result) fd T"
proof -
  from createSocket_result [OF assms(1), of st] assms(2,3) obtain T where
    T: "grows T st st'" "result \<noteq> []" "length (opened T) = length result" "last (opened T) = fd"
    "\<forall>i < length result. fully_configured (the_ip k t_ip iface) opts (result ! i) (opened T ! i) T"
    by auto
  let ?i = "length result - 1"
  have ne: "opened T \<noteq> []" using T(2,3) by auto
  have i: "?i < length result" "result ! ?i = last result" "opened T ! ?i = fd"
    using T(2,3,4) last_conv_nth [OF ne] last_conv_nth [OF T(2)] by simp_all
  from T(5) i(1) have "fully_configured (the_ip k t_ip iface) opts (result ! ?i) (opened T ! ?i) T" by blast
  with i T(1,2,4) show ?thesis by (auto simp: grows_def)
qed

text \<open>
  C36: \<open>createSocket\<close> always returns and closes nothing, so all descriptors it opened but the
  one it returns are lost: on success it has opened one for each address of the resolver's
  answer and returns the last; when it returns -1 after a first successful call of
  \<open>socket\<close>, at least one open descriptor is lost.
\<close>

theorem createSocket_leaks:
  assumes "resolved k t_ip iface port opts = (rc, e, result)"
  shows "\<exists>T st' fd. createSocket k t_ip iface port opts st = Inr (fd, st') \<and> net_calls st' = net_calls st @ T \<and>
    net_closed st' = net_closed st \<and>
    (fd \<noteq> - 1 \<longrightarrow> length (opened T) = length result \<and> last (opened T) = fd) \<and>
    (fd = - 1 \<and> rc = 0 \<and> result = rp # rps \<and>
       fst (k_call k (net_calls st) (Sys_socket (ai_family rp) (ai_socktype rp) (ai_protocol rp))) \<noteq> - 1
     \<longrightarrow> opened T \<noteq> [])"
proof -
  obtain T st' fd where T: "createSocket k t_ip iface port opts st = Inr (fd, st')" "grows T st st'"
    "if fd = - 1 then length (opened T) \<le> length result
     else rc = 0 \<and> result \<noteq> [] \<and> length (opened T) = length result \<and> last (opened T) = fd \<and>
       (\<forall>i < length result. fully_configured (the_ip k t_ip iface) opts (result ! i) (opened T ! i) T)"
    using createSocket_result [OF assms] by blast
  have "opened T \<noteq> []" if h: "rc = 0" "result = rp # rps"
    "fst (k_call k (net_calls st) (Sys_socket (ai_family rp) (ai_socktype rp) (ai_protocol rp))) \<noteq> - 1"
  proof -
    obtain st0 where c: "grows [] st st0" "createSocket k t_ip iface port opts st =
        address_loop k (the_ip k t_ip iface) opts (- 1) (rp # rps) st0"
      using createSocket_log [OF assms, of st] h(1,2) by auto
    obtain T1 st1 x where o: "open_address k (the_ip k t_ip iface) opts rp st0 = Inr (x, st1)" "grows T1 st0 st1"
      using open_address_result by blast
    have ne: "opened T1 \<noteq> []" using open_address_opens [OF _ o] h(3) c(1) by (simp add: grows_def)
    obtain T2 st2 where "createSocket k t_ip iface port opts st = Inr (fd, st2)" "grows T2 st1 st2"
    proof (cases x)
      case None
      with that [of st1 "[]"] c(2) o(1) T(1) show ?thesis by simp
    next
      case (Some fd1)
      obtain T2 st2 fd2 where "address_loop k (the_ip k t_ip iface) opts fd1 rps st1 = Inr (fd2, st2)" "grows T2 st1 st2"
        using address_loop_result by blast
      with that [of st2 T2] c(2) o(1) T(1) Some show ?thesis by simp
    qed
    with T(1,2) grows_trans [OF o(2), of T2 st2] c(1) have "T = T1 @ T2" by (simp add: grows_def)
    with ne show ?thesis by simp
  qed
  with T show ?thesis by (intro exI [of _ T] exI [of _ st'] exI [of _ fd]) (auto simp: grows_def)
qed

text \<open>A kernel to run on: two addresses, descriptors from 3 on, and \<open>bind\<close> as it is told.\<close>

definition example_kernel :: "bool \<Rightarrow> Kernel" where
  "example_kernel bind_ok = \<lparr>k_call = (\<lambda>cs c. case c of Sys_socket _ _ _ \<Rightarrow> (3 + of_nat (length (opened cs)), 0)
       | Sys_getfl _ \<Rightarrow> (2, 0) | Sys_bind _ _ \<Rightarrow> (if bind_ok then 0 else - 1, 98) | _ \<Rightarrow> (0, 0)),
     k_ifaddrs = Some [\<lparr>ifa_name = ''lo'', ifa_family = Some AF_INET, ifa_host = ''127.0.0.1''\<rparr>],
     k_getaddrinfo = (\<lambda>_ _ h. (0, 0, [h\<lparr>ai_addr := ''a''\<rparr>, h\<lparr>ai_addr := ''b''\<rparr>])),
     k_strerror = (\<lambda>_. []), k_gai_strerror = (\<lambda>_. [])\<rparr>"

definition example_net :: NetEnv where
  "example_net = \<lparr>net_logger = newLogger, net_ctime = (\<lambda>_. []), net_ticks = 0, net_closed = [], net_wire = [],
     net_calls = [], net_errno = 0\<rparr>"

lemma example_resolved: "resolved (example_kernel bind_ok) [] ''lo'' port opts =
    (0, 0, [hints ''127.0.0.1'' opts\<lparr>ai_addr := ''a''\<rparr>, hints ''127.0.0.1'' opts\<lparr>ai_addr := ''b''\<rparr>])"
  by (simp add: resolved_def the_ip_def getIfaceIP_def example_kernel_def Let_def)

lemmas run_defs = open_address_def set_up_def require_def sys_def setNonBlocking_def setNoDelay_def set_option_def
  sys_ok_def setSOTimestamp_def connect_ok_def

lemma example_loop:
  assumes "opened (net_calls st) = []"
  shows "\<exists>st'. address_loop (example_kernel True) ip (tcp_opts True) (- 1) [a, b] st = Inr (4, st')"
  using assms by (simp add: run_defs example_kernel_def tcp_opts_def Let_def O_NONBLOCK_def)

lemma example_created:
  assumes "opened (net_calls st) = []"
  shows "\<exists>st'. createSocket (example_kernel True) [] ''lo'' 80 (tcp_opts True) st = Inr (4, st')"
proof -
  obtain st1 where c: "grows [] st st1" "createSocket (example_kernel True) [] ''lo'' 80 (tcp_opts True) st =
      address_loop (example_kernel True) (the_ip (example_kernel True) [] ''lo'') (tcp_opts True) (- 1)
        [hints ''127.0.0.1'' (tcp_opts True)\<lparr>ai_addr := ''a''\<rparr>, hints ''127.0.0.1'' (tcp_opts True)\<lparr>ai_addr := ''b''\<rparr>] st1"
    using createSocket_log [OF example_resolved [of True 80 "tcp_opts True"], of st] by auto
  then show ?thesis unfolding c(2) using assms by (intro example_loop) (simp add: grows_def)
qed

theorem createSocket_configures_witness:
  "\<exists>st' T. createSocket (example_kernel True) [] ''lo'' 80 (tcp_opts True) example_net = Inr (4, st') \<and>
    net_calls st' = T \<and> succeeded (Sys_bind 4 ''b'') T \<and> succeeded (Sys_listen 4 MaxTCPServerBacklog) T"
proof -
  obtain st' where r: "createSocket (example_kernel True) [] ''lo'' 80 (tcp_opts True) example_net = Inr (4, st')"
    using example_created [of example_net] by (auto simp: example_net_def)
  from createSocket_configures [OF example_resolved r] show ?thesis
    using r by (auto simp: fully_configured_def tcp_opts_def example_net_def)
qed

theorem createSocket_leaks_witness:
  "\<exists>T st' fd. createSocket (example_kernel False) [] ''lo'' 80 (tcp_opts True) example_net = Inr (fd, st') \<and>
    net_calls st' = T \<and> net_closed st' = [] \<and> opened T \<noteq> []"
proof -
  have "fst (k_call (example_kernel False) (net_calls example_net) (Sys_socket a b c)) \<noteq> - 1" for a b c
    by (simp add: example_kernel_def example_net_def)
  with createSocket_leaks [OF example_resolved [of False 80 "tcp_opts True"], of example_net] show ?thesis
    by (fastforce simp: example_net_def)
qed

subsection \<open>The multicast test\<close>

lemma digits_value_append:
  "\<forall>c \<in> set s. is_digit c \<Longrightarrow> digits_value n (s @ t) = digits_value (foldl (\<lambda>n c. 10 * n + int (char_digit c)) n s) t"
  by (induction s arbitrary: n) simp_all

lemma foldl_int: "foldl (\<lambda>n c. 10 * n + int (char_digit c)) (int n) s = int (foldl (\<lambda>n c. 10 * n + char_digit c) n s)"
proof (induction s arbitrary: n)
  case (Cons c s)
  from Cons.IH [of "10 * n + char_digit c"] show ?case by simp
qed simp

lemma atoi_number: "\<not> is_digit d \<Longrightarrow> atoi (to_string_nat a @ d # t) = word_of_nat a"
proof -
  assume d: "\<not> is_digit d"
  obtain c s where cs: "to_string_nat a = c # s" by (meson list.exhaust to_string_nat_not_Nil)
  have dg: "\<forall>c \<in> set (to_string_nat a). is_digit c" using to_string_nat_digits by blast
  then have c: "is_digit c" using cs by simp
  then have nc: "\<not> is_space c" "c \<noteq> CHR ''-''" "c \<noteq> CHR ''+''" by (auto simp: is_digit_def is_space_def)
  have "digits_value 0 (to_string_nat a @ d # t) = int (nat_of_string (to_string_nat a))"
    using digits_value_append [OF dg, of 0 "d # t"] d foldl_int [of 0 "to_string_nat a"] by (simp add: nat_of_string_def)
  also have "\<dots> = int a" by simp
  finally show ?thesis using nc cs by (simp add: atoi_def del: digits_value.simps)
qed

lemma high_bits: "a < 256 \<Longrightarrow> (word_of_nat a :: 32 word) AND 0xe0 \<noteq> 0 \<longleftrightarrow> 32 \<le> a"
proof -
  assume a: "a < 256"
  have "list_all (\<lambda>a. (word_of_nat a :: 32 word) AND 0xe0 \<noteq> 0 \<longleftrightarrow> 32 \<le> a) [0..<256]" by code_simp
  with a show ?thesis by (auto simp: list_all_iff)
qed

text \<open>
  What \<open>createSocket\<close> takes for a multicast address: an IPv4 address in text form passes
  the test exactly when its first number is 32 or more, while the multicast addresses are
  those from 224 to 239. Most ordinary addresses get their time-to-live set through the
  multicast option.
\<close>

lemma multicast_test:
  assumes "a < 256"
  shows "is_multicast (to_string_nat a @ CHR ''.'' # rest) \<longleftrightarrow> 32 \<le> a"
  using high_bits [OF assms] by (simp add: is_multicast_def atoi_number is_digit_def)

end
