(* ===== verification/Tcp_Socket.thy ===== *)
theory Tcp_Socket
  imports Socket_Utils
begin

text \<open>
  include/tcp_socket.h and src/tcp_socket.cpp: a socket with a send and a receive buffer.
  What \<open>recvmsg\<close> and \<open>send\<close> return is an argument of the operation that calls them; what the
  program hands to the kernel is recorded in the environment. The scratch string \<open>time_str_\<close>, which is written
  before each use, the address \<open>inInAddr\<close> and the two flags that nothing reads are not
  fields. A callback is \<open>None\<close> for \<open>defaultRecvCallback\<close> or a user's function, named by a
  value of type \<open>'c\<close> whose meaning is the parameter \<open>user\<close>.
\<close>

definition TCPBufferSize :: nat where
  "TCPBufferSize = 64 * 1024 * 1024"

record 'c TCPSocket =
  s_fd :: "32 word"
  send_buffer :: "nat \<Rightarrow> char"
  next_send_valid_index :: "64 word"
  recv_buffer :: "nat \<Rightarrow> char"
  next_recv_valid_index :: "64 word"
  recv_callback :: "'c option"

subsection \<open>Opening and closing\<close>

text \<open>The buffers are \<open>new char[TCPBufferSize]\<close>: what they hold at first is arbitrary.\<close>

definition newTCPSocket :: "(nat \<Rightarrow> char) \<Rightarrow> (nat \<Rightarrow> char) \<Rightarrow> 'c TCPSocket" where
  "newTCPSocket raw_send raw_recv = \<lparr>s_fd = - 1, send_buffer = raw_send, next_send_valid_index = 0,
     recv_buffer = raw_recv, next_recv_valid_index = 0, recv_callback = None\<rparr>"

definition close_socket :: "'c TCPSocket \<Rightarrow> NetEnv \<Rightarrow> 'c TCPSocket \<times> NetEnv" where
  "close_socket s env =
     (if s_fd s \<noteq> - 1 then (s\<lparr>s_fd := - 1\<rparr>, env\<lparr>net_closed := net_closed env @ [s_fd s]\<rparr>) else (s, env))"

text \<open>The destructor closes what is still open; the buffers go with the object.\<close>

definition destroy_socket :: "'c TCPSocket \<Rightarrow> NetEnv \<Rightarrow> NetEnv" where
  "destroy_socket s env = snd (close_socket s env)"

lemma destroy_closed:
  "close_socket s env = (s', env') \<Longrightarrow> destroy_socket s' env' = env' \<and> destroy_socket s env = env'"
  by (auto simp: close_socket_def destroy_socket_def split: if_splits)

text \<open>\<open>connect\<close>: the descriptor \<open>createSocket\<close> returned is stored, valid or not.\<close>

definition connect_socket :: "Kernel \<Rightarrow> string \<Rightarrow> string \<Rightarrow> 32 word \<Rightarrow> bool \<Rightarrow> 'c TCPSocket \<Rightarrow> NetEnv \<Rightarrow>
    (32 word \<times> 'c TCPSocket \<times> NetEnv) res" where
  "connect_socket k ip iface port listening s env = noexcept (
     let (s, env) = close_socket s env in
     bnd (createSocket k ip iface port (tcp_opts listening) env) (\<lambda>(fd, env).
     Inr (fd, s\<lparr>s_fd := fd\<rparr>, env)))"

definition setFd :: "32 word \<Rightarrow> 'c TCPSocket \<Rightarrow> NetEnv \<Rightarrow> 'c TCPSocket \<times> NetEnv" where
  "setFd fd s env = (let (s, env) = close_socket s env in (s\<lparr>s_fd := fd\<rparr>, env))"

definition setRecvCallback :: "'c \<Rightarrow> 'c TCPSocket \<Rightarrow> 'c TCPSocket" where
  "setRecvCallback f s = s\<lparr>recv_callback := Some f\<rparr>"

text \<open>The two index setters convert their \<open>int\<close> argument to \<open>size_t\<close>, sign and all.\<close>

definition setNextRecvValidIndex :: "32 word \<Rightarrow> 'c TCPSocket \<Rightarrow> 'c TCPSocket" where
  "setNextRecvValidIndex index s = s\<lparr>next_recv_valid_index := scast index\<rparr>"

definition setNextSendValidIndex :: "32 word \<Rightarrow> 'c TCPSocket \<Rightarrow> 'c TCPSocket" where
  "setNextSendValidIndex index s = s\<lparr>next_send_valid_index := scast index\<rparr>"

subsection \<open>Sending and receiving\<close>

definition write_bytes :: "nat \<Rightarrow> char list \<Rightarrow> (nat \<Rightarrow> char) \<Rightarrow> nat \<Rightarrow> char" where
  "write_bytes off bs buf = (\<lambda>i. if off \<le> i \<and> i < off + length bs then bs ! (i - off) else buf i)"

definition first_bytes :: "(nat \<Rightarrow> char) \<Rightarrow> nat \<Rightarrow> char list" where
  "first_bytes buf n = map buf [0..<n]"

text \<open>\<open>send\<close> copies without looking at the room that is left.\<close>

definition send :: "char list \<Rightarrow> 'c TCPSocket \<Rightarrow> 'c TCPSocket res" where
  "send data s =
     (if length data > 0 then
        (if unat (next_send_valid_index s) + length data \<le> TCPBufferSize
         then Inr (s\<lparr>send_buffer := write_bytes (unat (next_send_valid_index s)) data (send_buffer s),
                     next_send_valid_index := next_send_valid_index s + of_nat (length data)\<rparr>)
         else Inl Out_of_bounds)
      else Inr s)"

text \<open>
  What \<open>recvmsg\<close> finds: nothing (an error, or the other end closed), or bytes, with the
  kernel's time stamp in seconds and microseconds if the control message carried one. It
  copies at most \<open>iov_len\<close> of them, the room behind the bytes received so far.
\<close>

definition iov_len :: "'c TCPSocket \<Rightarrow> 64 word" where
  "iov_len s = of_nat TCPBufferSize - next_recv_valid_index s"

datatype recv_result = Rx_nothing | Rx_bytes "char list" "(64 word \<times> 64 word) option"

definition kernel_nanos :: "(64 word \<times> 64 word) option \<Rightarrow> Nanos" where
  "kernel_nanos stamp =
     (case stamp of None \<Rightarrow> 0 | Some (sec, usec) \<Rightarrow> sec * NANOS_TO_SECS + usec * NANOS_TO_MICROS)"

definition defaultRecvCallback :: "'c TCPSocket \<Rightarrow> 64 word \<Rightarrow> NetEnv \<Rightarrow> NetEnv res" where
  "defaultRecvCallback s rx_time env =
     log_at ''tcp_socket.h'' 29 ''defaultRecvCallback'' ''TCPSocket::defaultRecvCallback() socket:% len:% rx:%''
       [A_int (s_fd s), A_unsigned_long (next_recv_valid_index s), A_long rx_time] env"

definition call_recv :: "('c \<Rightarrow> 'c TCPSocket \<Rightarrow> 64 word \<Rightarrow> NetEnv \<Rightarrow> ('c TCPSocket \<times> NetEnv) res) \<Rightarrow>
    'c TCPSocket \<Rightarrow> 64 word \<Rightarrow> NetEnv \<Rightarrow> ('c TCPSocket \<times> NetEnv) res" where
  "call_recv user s rx_time env = (case recv_callback s of
     None \<Rightarrow> bnd (defaultRecvCallback s rx_time env) (\<lambda>env. Inr (s, env))
   | Some f \<Rightarrow> user f s rx_time env)"

text \<open>The receiving half and the sending half of \<open>sendAndRecv\<close>.\<close>

definition recv_half :: "('c \<Rightarrow> 'c TCPSocket \<Rightarrow> 64 word \<Rightarrow> NetEnv \<Rightarrow> ('c TCPSocket \<times> NetEnv) res) \<Rightarrow>
    recv_result \<Rightarrow> 64 word \<Rightarrow> 'c TCPSocket \<Rightarrow> NetEnv \<Rightarrow> (bool \<times> 'c TCPSocket \<times> NetEnv) res" where
  "recv_half user rx user_time s env =
     (case rx of
        Rx_nothing \<Rightarrow> Inr (False, s, env)
      | Rx_bytes bytes stamp \<Rightarrow> let bs = take (unat (iov_len s)) bytes in
          if bs = [] then Inr (False, s, env)
          else if unat (next_recv_valid_index s) + length bs \<le> TCPBufferSize then
            let s = s\<lparr>recv_buffer := write_bytes (unat (next_recv_valid_index s)) bs (recv_buffer s),
                      next_recv_valid_index := next_recv_valid_index s + of_nat (length bs)\<rparr>;
                kernel_time = kernel_nanos stamp in
            bnd (log_at ''tcp_socket.cpp'' 67 ''sendAndRecv'' ''read socket:% len:% utime:% ktime:% diff:%''
                   [A_int (s_fd s), A_unsigned_long (next_recv_valid_index s), A_long user_time,
                    A_long kernel_time, A_long (user_time - kernel_time)] env) (\<lambda>env.
            bnd (call_recv user s kernel_time env) (\<lambda>(s, env). Inr (True, s, env)))
          else Inl Out_of_bounds)"

definition send_half :: "64 word \<Rightarrow> 'c TCPSocket \<Rightarrow> NetEnv \<Rightarrow> ('c TCPSocket \<times> NetEnv) res" where
  "send_half n s env =
     bnd (if next_send_valid_index s > 0 then
            if unat (next_send_valid_index s) \<le> TCPBufferSize then
              let env = env\<lparr>net_wire := net_wire env @
                    [(s_fd s, first_bytes (send_buffer s) (unat (next_send_valid_index s)))]\<rparr> in
              bnd (log_at ''tcp_socket.cpp'' 74 ''sendAndRecv'' ''send socket:% len:%''
                     [A_int (s_fd s), A_long n] env) (\<lambda>env.
              bnd (ASSERT (n = next_send_valid_index s) ''Could not send all the send buffer'') (\<lambda>_.
              Inr env))
            else Inl Out_of_bounds
          else Inr env) (\<lambda>env. Inr (s\<lparr>next_send_valid_index := 0\<rparr>, env))"

definition socket_sendAndRecv :: "('c \<Rightarrow> 'c TCPSocket \<Rightarrow> 64 word \<Rightarrow> NetEnv \<Rightarrow> ('c TCPSocket \<times> NetEnv) res) \<Rightarrow>
    recv_result \<Rightarrow> 64 word \<Rightarrow> 64 word \<Rightarrow> 'c TCPSocket \<Rightarrow> NetEnv \<Rightarrow> (bool \<times> 'c TCPSocket \<times> NetEnv) res" where
  "socket_sendAndRecv user rx user_time n s env = noexcept (
     bnd (recv_half user rx user_time s env) (\<lambda>(got, s, env).
     bnd (send_half n s env) (\<lambda>(s, env). Inr (got, s, env))))"

text \<open>
  \<open>getRecvData\<close> and \<open>getSendData\<close>; \<open>index\<close> is \<open>-1\<close> by default. Another negative index becomes
  a length no string can have, and the constructor of \<open>std::string\<close> throws.
\<close>

definition make_string :: "(nat \<Rightarrow> char) \<Rightarrow> 64 word \<Rightarrow> char list res" where
  "make_string buf n =
     (if unat n \<le> TCPBufferSize then Inr (first_bytes buf (unat n))
      else if sint n < 0 then Inl Length_error else Inl Out_of_bounds)"

definition getRecvData :: "32 word \<Rightarrow> 'c TCPSocket \<Rightarrow> char list res" where
  "getRecvData index s =
     (let n = (if index = - 1 then next_recv_valid_index s else scast index) in
      make_string (recv_buffer s) n)"

definition getSendData :: "32 word \<Rightarrow> 'c TCPSocket \<Rightarrow> char list res" where
  "getSendData index s =
     (let n = (if index = - 1 then next_send_valid_index s else scast index) in
      make_string (send_buffer s) n)"

subsection \<open>Facts about buffers and log lines\<close>

lemma first_bytes_write: "first_bytes (write_bytes off bs buf) (off + length bs) = first_bytes buf off @ bs"
proof -
  have "map (write_bytes off bs buf) [off..<off + length bs] = bs"
    by (rule nth_equalityI) (auto simp: write_bytes_def)
  moreover have "map (write_bytes off bs buf) [0..<off] = map buf [0..<off]" by (simp add: write_bytes_def)
  ultimately show ?thesis unfolding first_bytes_def by (subst upt_add_eq_append) simp_all
qed

lemma length_first_bytes [simp]: "length (first_bytes buf n) = n"
  by (simp add: first_bytes_def)

lemma unat_add_bytes:
  "unat (i :: 64 word) + n \<le> TCPBufferSize \<Longrightarrow> unat (i + of_nat n) = unat i + n"
  by (simp add: unat_word_ariths unat_of_nat TCPBufferSize_def)

lemma unat_iov_len: "unat (next_recv_valid_index s) \<le> TCPBufferSize \<Longrightarrow>
    unat (iov_len s) = TCPBufferSize - unat (next_recv_valid_index s)"
  by (simp add: iov_len_def unat_sub_if_size word_size unat_of_nat TCPBufferSize_def)

definition pending :: "'c TCPSocket \<Rightarrow> char list" where
  "pending s = first_bytes (send_buffer s) (unat (next_send_valid_index s))"

definition received :: "'c TCPSocket \<Rightarrow> char list" where
  "received s = first_bytes (recv_buffer s) (unat (next_recv_valid_index s))"

lemma pending_empty: "pending s = [] \<Longrightarrow> next_send_valid_index s = 0"
  using length_first_bytes [of "send_buffer s" "unat (next_send_valid_index s)"] by (simp add: pending_def unat_eq_zero)

lemma pending_data: "length (pending s) \<le> TCPBufferSize \<Longrightarrow> getSendData (- 1) s = Inr (pending s)"
  by (simp add: getSendData_def make_string_def pending_def)

lemma received_data: "length (received s) \<le> TCPBufferSize \<Longrightarrow> getRecvData (- 1) s = Inr (received s)"
  by (simp add: getRecvData_def make_string_def received_def)

lemma send_pending:
  assumes "length (pending s) + length data \<le> TCPBufferSize"
  shows "\<exists>s'. send data s = Inr s' \<and> pending s' = pending s @ data \<and> s_fd s' = s_fd s \<and>
    received s' = received s \<and> recv_callback s' = recv_callback s"
proof (cases "data = []")
  case True
  then show ?thesis by (simp add: send_def)
next
  case False
  have len: "unat (next_send_valid_index s) + length data \<le> TCPBufferSize" using assms by (simp add: pending_def)
  then show ?thesis using False
    by (simp add: send_def pending_def received_def unat_add_bytes [OF len] first_bytes_write)
qed

definition socket_log_fmt_ok :: "string \<Rightarrow> nat \<Rightarrow> bool" where
  "socket_log_fmt_ok fmt n \<longleftrightarrow> holes (''%:% %() % '' @ fmt @ [CHR 0x0A]) = 4 + n"

lemma log_at_total:
  assumes "socket_log_fmt_ok fmt k" "length args = k"
  shows "\<exists>env'. log_at fl ln fn fmt args env = Inr env' \<and> net_wire env' = net_wire env \<and> net_closed env' = net_closed env"
  using assms by (simp add: log_at_def Let_def log_fmt_spec socket_log_fmt_ok_def)

lemma socket_formats:
  "socket_log_fmt_ok ''read socket:% len:% utime:% ktime:% diff:%'' 5"
  "socket_log_fmt_ok ''send socket:% len:%'' 2"
  "socket_log_fmt_ok ''TCPSocket::defaultRecvCallback() socket:% len:% rx:%'' 3"
  by (simp_all add: socket_log_fmt_ok_def)

lemma send_half_result:
  assumes "0 < length (pending s)" "length (pending s) \<le> TCPBufferSize"
  shows "if unat n = length (pending s)
    then \<exists>env'. send_half n s env = Inr (s\<lparr>next_send_valid_index := 0\<rparr>, env') \<and>
      net_wire env' = net_wire env @ [(s_fd s, pending s)] \<and> net_closed env' = net_closed env
    else send_half n s env = Inl (Fatal ''Could not send all the send buffer'')"
proof -
  have idx: "next_send_valid_index s > 0" "unat (next_send_valid_index s) \<le> TCPBufferSize"
    using assms by (simp_all add: pending_def word_gt_0 unat_gt_0)
  let ?env = "env\<lparr>net_wire := net_wire env @ [(s_fd s, pending s)]\<rparr>"
  obtain env' where log: "log_at ''tcp_socket.cpp'' 74 ''sendAndRecv'' ''send socket:% len:%'' [A_int (s_fd s), A_long n] ?env = Inr env'"
    "net_wire env' = net_wire ?env" "net_closed env' = net_closed ?env"
    using log_at_total [OF socket_formats(2), where args = "[A_int (s_fd s), A_long n]" and env = ?env and
        fl = "''tcp_socket.cpp''" and ln = 74 and fn = "''sendAndRecv''"] by auto
  have "send_half n s env = bnd (bnd (ASSERT (n = next_send_valid_index s) ''Could not send all the send buffer'') (\<lambda>_. Inr env'))
      (\<lambda>env. Inr (s\<lparr>next_send_valid_index := 0\<rparr>, env))"
    using idx log by (simp add: send_half_def Let_def pending_def [symmetric])
  moreover have "unat n = length (pending s) \<longleftrightarrow> n = next_send_valid_index s" by (simp add: pending_def)
  ultimately show ?thesis using log by auto
qed

fun send_all :: "char list list \<Rightarrow> 'c TCPSocket \<Rightarrow> 'c TCPSocket res" where
  "send_all [] s = Inr s"
| "send_all (d # ds) s = bnd (send d s) (send_all ds)"

lemma send_all_pending:
  "length (pending s) + length (concat ds) \<le> TCPBufferSize \<Longrightarrow>
   \<exists>s'. send_all ds s = Inr s' \<and> pending s' = pending s @ concat ds \<and> s_fd s' = s_fd s \<and> received s' = received s \<and>
     recv_callback s' = recv_callback s"
proof (induction ds arbitrary: s)
  case (Cons d ds)
  have "length (pending s) + length d \<le> TCPBufferSize" using Cons.prems by simp
  from send_pending [OF this] obtain s1 where s1: "send d s = Inr s1" "pending s1 = pending s @ d" "s_fd s1 = s_fd s"
    "received s1 = received s" "recv_callback s1 = recv_callback s" by blast
  then show ?case using Cons.IH [of s1] Cons.prems by auto
qed simp

lemma recv_half_result:
  assumes "recv_callback s = None" "length (received s) + length bs \<le> TCPBufferSize" "bs \<noteq> []"
  shows "\<exists>s' env'. recv_half user (Rx_bytes bs stamp) ut s env = Inr (True, s', env') \<and> received s' = received s @ bs \<and>
    recv_callback s' = None \<and> pending s' = pending s \<and> s_fd s' = s_fd s \<and> net_wire env' = net_wire env"
proof -
  have len: "unat (next_recv_valid_index s) + length bs \<le> TCPBufferSize" using assms(2) by (simp add: received_def)
  let ?s = "s\<lparr>recv_buffer := write_bytes (unat (next_recv_valid_index s)) bs (recv_buffer s),
              next_recv_valid_index := next_recv_valid_index s + of_nat (length bs)\<rparr>"
  let ?k = "kernel_nanos stamp"
  let ?a = "[A_int (s_fd ?s), A_unsigned_long (next_recv_valid_index ?s), A_long ut, A_long ?k, A_long (ut - ?k)]"
  obtain env1 where log: "log_at ''tcp_socket.cpp'' 67 ''sendAndRecv'' ''read socket:% len:% utime:% ktime:% diff:%'' ?a env = Inr env1"
    "net_wire env1 = net_wire env"
    using log_at_total [OF socket_formats(1), where args = ?a and env = env and
        fl = "''tcp_socket.cpp''" and ln = 67 and fn = "''sendAndRecv''"] by auto
  let ?c = "[A_int (s_fd ?s), A_unsigned_long (next_recv_valid_index ?s), A_long ?k]"
  obtain env2 where cb: "defaultRecvCallback ?s ?k env1 = Inr env2" "net_wire env2 = net_wire env1"
    using log_at_total [OF socket_formats(3), where args = ?c and env = env1 and fl = "''tcp_socket.h''" and ln = 29 and
        fn = "''defaultRecvCallback''"] unfolding defaultRecvCallback_def by auto
  have "recv_half user (Rx_bytes bs stamp) ut s env = Inr (True, ?s, env2)"
    using assms(1,3) len log(1) cb(1) by (simp add: recv_half_def call_recv_def Let_def unat_iov_len)
  then show ?thesis
    using log(2) cb(2) assms(1)
    by (intro exI [of _ ?s] exI [of _ env2]) (simp add: received_def pending_def unat_add_bytes [OF len] first_bytes_write)
qed

lemma send_all_overruns:
  "length (pending s) \<le> TCPBufferSize \<Longrightarrow> TCPBufferSize < length (pending s) + length (concat ds) \<Longrightarrow>
   send_all ds s = Inl Out_of_bounds"
proof (induction ds arbitrary: s)
  case (Cons d ds)
  show ?case
  proof (cases "length (pending s) + length d \<le> TCPBufferSize")
    case True
    from send_pending [OF True] obtain s1 where s1: "send d s = Inr s1" "pending s1 = pending s @ d" by blast
    then show ?thesis using Cons.IH [of s1] Cons.prems True by simp
  next
    case False
    moreover from this Cons.prems(1) have "d \<noteq> []" by auto
    ultimately show ?thesis by (simp add: send_def pending_def)
  qed
qed simp

text \<open>
  A \<open>sendAndRecv\<close> of a socket with the default callback, on every branch. The bytes that arrive
  are those offered, as far as there is room.
\<close>

definition offered :: "recv_result \<Rightarrow> char list" where
  "offered rx = (case rx of Rx_nothing \<Rightarrow> [] | Rx_bytes bs _ \<Rightarrow> bs)"

definition arrived :: "recv_result \<Rightarrow> 'c TCPSocket \<Rightarrow> char list" where
  "arrived rx s = take (TCPBufferSize - length (received s)) (offered rx)"

lemma recv_half_default:
  assumes "recv_callback s = None" "length (received s) \<le> TCPBufferSize"
  shows "\<exists>s' env'. recv_half user rx ut s env = Inr (arrived rx s \<noteq> [], s', env') \<and> received s' = received s @ arrived rx s \<and>
    recv_callback s' = None \<and> pending s' = pending s \<and> s_fd s' = s_fd s \<and> net_wire env' = net_wire env"
proof (cases "arrived rx s = []")
  case True
  have "unat (iov_len s) = TCPBufferSize - length (received s)" using assms(2) by (simp add: unat_iov_len received_def)
  with True have "recv_half user rx ut s env = Inr (False, s, env)"
    by (cases rx) (auto simp: recv_half_def arrived_def offered_def Let_def)
  with True assms show ?thesis by simp
next
  case False
  then obtain bs stamp where rx: "rx = Rx_bytes bs stamp" by (cases rx) (simp_all add: arrived_def offered_def)
  have iov: "unat (iov_len s) = TCPBufferSize - length (received s)" using assms(2) by (simp add: unat_iov_len received_def)
  have cut: "recv_half user rx ut s env = recv_half user (Rx_bytes (arrived rx s) stamp) ut s env"
    by (simp add: recv_half_def rx iov arrived_def offered_def)
  have "length (received s) + length (arrived rx s) \<le> TCPBufferSize" using assms(2) by (simp add: arrived_def)
  from recv_half_result [OF assms(1) this False, of user stamp ut env] False show ?thesis unfolding cut by simp
qed

lemma sendAndRecv_default:
  assumes "recv_callback s = None" "length (received s) \<le> TCPBufferSize" "length (pending s) \<le> TCPBufferSize"
  shows "if pending s = [] \<or> unat n = length (pending s)
    then \<exists>s' env'. socket_sendAndRecv user rx ut n s env = Inr (arrived rx s \<noteq> [], s', env') \<and>
      received s' = received s @ arrived rx s \<and> pending s' = [] \<and> recv_callback s' = None \<and> s_fd s' = s_fd s \<and>
      net_wire env' = net_wire env @ (if pending s = [] then [] else [(s_fd s, pending s)])
    else socket_sendAndRecv user rx ut n s env = Inl (Fatal ''Could not send all the send buffer'')"
proof -
  obtain s1 env1 where r: "recv_half user rx ut s env = Inr (arrived rx s \<noteq> [], s1, env1)" "received s1 = received s @ arrived rx s"
    "recv_callback s1 = None" "pending s1 = pending s" "s_fd s1 = s_fd s" "net_wire env1 = net_wire env"
    using recv_half_default [OF assms(1,2)] by blast
  have eq: "socket_sendAndRecv user rx ut n s env = noexcept (bnd (send_half n s1 env1) (\<lambda>(s', env). Inr (arrived rx s \<noteq> [], s', env)))"
    using r(1) by (simp add: socket_sendAndRecv_def)
  have z: "pending (s1\<lparr>next_send_valid_index := 0\<rparr>) = []" "received (s1\<lparr>next_send_valid_index := 0\<rparr>) = received s1"
    by (simp_all add: pending_def first_bytes_def received_def)
  show ?thesis
  proof (cases "pending s = []")
    case True
    then have "send_half n s1 env1 = Inr (s1\<lparr>next_send_valid_index := 0\<rparr>, env1)"
      using pending_empty [of s1] r(4) by (simp add: send_half_def)
    with True r z show ?thesis by (simp add: eq noexcept_def)
  next
    case False
    with assms(3) r(4) have "0 < length (pending s1)" "length (pending s1) \<le> TCPBufferSize" by simp_all
    from send_half_result [OF this, of n env1] False r z show ?thesis by (auto simp: eq noexcept_def split: if_splits)
  qed
qed

text \<open>A series of calls, each with what the kernel has for it: bytes to read, the time, and the result of \<open>::send\<close>.\<close>

fun recv_all :: "('c \<Rightarrow> 'c TCPSocket \<Rightarrow> 64 word \<Rightarrow> NetEnv \<Rightarrow> ('c TCPSocket \<times> NetEnv) res) \<Rightarrow>
    (recv_result \<times> 64 word \<times> 64 word) list \<Rightarrow> 'c TCPSocket \<Rightarrow> NetEnv \<Rightarrow> ('c TCPSocket \<times> NetEnv) res" where
  "recv_all user [] s env = Inr (s, env)"
| "recv_all user ((rx, ut, n) # rxs) s env =
     bnd (socket_sendAndRecv user rx ut n s env) (\<lambda>(_, s, env). recv_all user rxs s env)"

lemma recv_all_default:
  "recv_callback s = None \<Longrightarrow> pending s = [] \<Longrightarrow> length (received s) \<le> TCPBufferSize \<Longrightarrow>
   \<exists>s' env'. recv_all user rxs s env = Inr (s', env') \<and> pending s' = [] \<and>
     received s' = take TCPBufferSize (received s @ concat (map (\<lambda>(rx, _). offered rx) rxs))"
proof (induction rxs arbitrary: s env)
  case (Cons call rxs)
  obtain rx ut n where c: "call = (rx, ut, n)" by (cases call) auto
  obtain s1 env1 where 1: "socket_sendAndRecv user rx ut n s env = Inr (arrived rx s \<noteq> [], s1, env1)"
    "received s1 = received s @ arrived rx s" "pending s1 = []" "recv_callback s1 = None"
    using sendAndRecv_default [OF Cons.prems(1,3), of n user rx ut env] Cons.prems(2) by auto
  have "length (received s1) \<le> TCPBufferSize" using 1(2) Cons.prems(3) by (simp add: arrived_def)
  from Cons.IH [OF 1(4,3) this, of env1] obtain s' env' where "recv_all user rxs s1 env1 = Inr (s', env')" "pending s' = []"
    "received s' = take TCPBufferSize (received s1 @ concat (map (\<lambda>(rx, _). offered rx) rxs))" by blast
  with 1 c Cons.prems(3) show ?case by (simp add: arrived_def min_def)
qed simp

subsection \<open>Properties\<close>

text \<open>
  C28: what is sent is what the kernel is given. For a socket with the default callback whose
  indices are within its buffers: if the data of a sequence of \<open>send\<close> calls, together with what
  is pending, overrun the buffer, one of them writes past its end. Otherwise they queue the
  concatenation of their data behind what was pending; the next \<open>sendAndRecv\<close>, whatever it
  receives, hands exactly these bytes over in one piece (nothing if there are none) and empties
  the buffer; if the kernel takes any other number of bytes, the process ends.
\<close>

theorem sends_reach_kernel:
  assumes "recv_callback s = None" "length (received s) \<le> TCPBufferSize" "length (pending s) \<le> TCPBufferSize"
  shows "if TCPBufferSize < length (pending s @ concat ds) then send_all ds s = Inl Out_of_bounds
    else \<exists>s'. send_all ds s = Inr s' \<and> getSendData (- 1) s' = Inr (pending s @ concat ds) \<and>
      (if pending s @ concat ds = [] \<or> unat n = length (pending s @ concat ds)
       then \<exists>got s'' env'. socket_sendAndRecv user rx ut n s' env = Inr (got, s'', env') \<and> pending s'' = [] \<and>
         net_wire env' = net_wire env @ (if pending s @ concat ds = [] then [] else [(s_fd s, pending s @ concat ds)])
       else socket_sendAndRecv user rx ut n s' env = Inl (Fatal ''Could not send all the send buffer''))"
proof (cases "TCPBufferSize < length (pending s @ concat ds)")
  case True
  with send_all_overruns [OF assms(3), of ds] show ?thesis by simp
next
  case False
  then obtain s' where s': "send_all ds s = Inr s'" "pending s' = pending s @ concat ds" "s_fd s' = s_fd s"
    "received s' = received s" "recv_callback s' = recv_callback s"
    using send_all_pending [of s ds] by auto
  have len: "length (pending s') \<le> TCPBufferSize" using False s'(2) by simp
  have "recv_callback s' = None" "length (received s') \<le> TCPBufferSize" using s' assms by simp_all
  note r = sendAndRecv_default [OF this len, of n user rx ut env]
  show ?thesis using False r s' pending_data [OF len] by (auto split: if_splits)
qed

theorem sends_reach_kernel_witness:
  "\<exists>s' got s'' env'. send_all [''ab'', ''c''] (newTCPSocket (\<lambda>_. CHR ''x'') (\<lambda>_. CHR ''x'') :: nat TCPSocket) = Inr s' \<and>
    socket_sendAndRecv (\<lambda>_ s _ env. Inr (s, env)) (Rx_bytes ''hello'' None) 0 3 s'
      example_net = Inr (got, s'', env') \<and>
    net_wire env' = [(- 1, ''abc'')]"
proof -
  let ?s = "newTCPSocket (\<lambda>_. CHR ''x'') (\<lambda>_. CHR ''x'') :: nat TCPSocket"
  have p: "pending ?s = []" "s_fd ?s = - 1" "received ?s = []" "recv_callback ?s = None"
    by (simp_all add: newTCPSocket_def pending_def received_def first_bytes_def)
  have len: "length (received ?s) \<le> TCPBufferSize" "length (pending ?s) \<le> TCPBufferSize" by (simp_all add: p)
  have "\<not> TCPBufferSize < length (pending ?s @ concat [''ab'', ''c''])" by (simp add: p TCPBufferSize_def)
  with sends_reach_kernel [OF p(4) len, of "[''ab'', ''c'']" 3 "\<lambda>_ s _ env. Inr (s, env)" "Rx_bytes ''hello'' None" 0 example_net]
  show ?thesis by (auto simp: p example_net_def)
qed

text \<open>
  C29: receiving only ever appends, for a socket with the default callback that has nothing to
  send (a callback of the user may set the index back, as those of tests/test_tcpserver.cpp do).
  After any series of \<open>sendAndRecv\<close> the socket holds what it held and the bytes offered to it, in
  order, cut off at \<open>TCPBufferSize\<close>; nothing takes bytes out, so once that many have come in,
  \<open>sendAndRecv\<close> receives nothing any more and changes nothing, whatever bytes are waiting.
\<close>

theorem recv_accumulates:
  assumes "recv_callback s = None" "pending s = []" "length (received s) \<le> TCPBufferSize"
    and "bytes = received s @ concat (map (\<lambda>(rx, _). offered rx) rxs)"
  shows "\<exists>s' env'. recv_all user rxs s env = Inr (s', env') \<and> getRecvData (- 1) s' = Inr (take TCPBufferSize bytes) \<and>
    (TCPBufferSize \<le> length bytes \<longrightarrow> socket_sendAndRecv user (Rx_bytes bs stamp) ut n s' env' = Inr (False, s', env'))"
proof -
  obtain s' env' where s': "recv_all user rxs s env = Inr (s', env')" "pending s' = []" "received s' = take TCPBufferSize bytes"
    using recv_all_default [OF assms(1-3)] assms(4) by blast
  have full: "socket_sendAndRecv user (Rx_bytes bs stamp) ut n s' env' = Inr (False, s', env')"
    if "TCPBufferSize \<le> length bytes"
  proof -
    have "length (received s') = TCPBufferSize" using that s'(3) by simp
    then have "unat (iov_len s') = 0" by (simp add: received_def unat_iov_len)
    moreover have "next_send_valid_index s' = 0" using pending_empty s'(2) by blast
    ultimately show ?thesis by (simp add: socket_sendAndRecv_def recv_half_def send_half_def)
  qed
  show ?thesis using s' full received_data [of s'] by (intro exI [of _ s'] exI [of _ env']) simp
qed

theorem recv_accumulates_witness:
  "\<exists>s' env'. recv_all (\<lambda>_ s _ env. Inr (s, env)) [(Rx_bytes ''ab'' None, 0, 0), (Rx_nothing, 0, 0), (Rx_bytes ''c'' None, 0, 0)]
      (newTCPSocket (\<lambda>_. CHR ''x'') (\<lambda>_. CHR ''x'') :: nat TCPSocket) example_net = Inr (s', env') \<and>
    getRecvData (- 1) s' = Inr ''abc''"
proof -
  let ?s = "newTCPSocket (\<lambda>_. CHR ''x'') (\<lambda>_. CHR ''x'') :: nat TCPSocket"
  let ?rxs = "[(Rx_bytes ''ab'' None, 0, 0), (Rx_nothing, 0, 0), (Rx_bytes ''c'' None, 0, 0)]"
  have p: "recv_callback ?s = None" "pending ?s = []" "length (received ?s) \<le> TCPBufferSize"
    "''abc'' = received ?s @ concat (map (\<lambda>(rx, _). offered rx) ?rxs)"
    by (simp_all add: newTCPSocket_def pending_def received_def first_bytes_def offered_def)
  have "take TCPBufferSize ''abc'' = ''abc''" by (simp add: TCPBufferSize_def)
  with recv_accumulates [OF p, of "\<lambda>_ s _ env. Inr (s, env)" example_net] show ?thesis by (simp del: recv_all.simps) blast
qed

end
