(* ===== verification/Tcp_Link.thy ===== *)
theory Tcp_Link
  imports Tcp_Socket Systems
begin

text \<open>
  Two sockets of src/tcp_socket.cpp joined by a connection: one sends and one, with the
  default callback, only receives. What
  the kernel took over and has not delivered is \<open>in_flight\<close>, a byte stream that neither loses
  nor reorders; how much it delivers at a time is open.
\<close>

record 'c link =
  sender :: "'c TCPSocket"
  receiver :: "'c TCPSocket"
  sender_env :: NetEnv
  receiver_env :: NetEnv
  in_flight :: "char list"
  sent_data :: "char list"

definition link_init :: "'c TCPSocket \<Rightarrow> 'c TCPSocket \<Rightarrow> NetEnv \<Rightarrow> NetEnv \<Rightarrow> 'c link" where
  "link_init s r env env' = \<lparr>sender = s, receiver = r, sender_env = env, receiver_env = env', in_flight = [], sent_data = []\<rparr>"

text \<open>
  The application sends; the sender's \<open>sendAndRecv\<close> hands over what is pending; the receiver's
  \<open>sendAndRecv\<close> is offered the first bytes of the stream and takes as many as it has room for.
\<close>

inductive link_step :: "('c \<Rightarrow> 'c TCPSocket \<Rightarrow> 64 word \<Rightarrow> NetEnv \<Rightarrow> ('c TCPSocket \<times> NetEnv) res) \<Rightarrow> 'c link \<Rightarrow> 'c link \<Rightarrow> bool"
  for user where
  sends: "send data (sender l) = Inr s \<Longrightarrow> link_step user l (l\<lparr>sender := s, sent_data := sent_data l @ data\<rparr>)"
| flushes: "socket_sendAndRecv user Rx_nothing ut n (sender l) (sender_env l) = Inr (got, s, env) \<Longrightarrow>
    net_wire env = net_wire (sender_env l) @ ws \<Longrightarrow>
    link_step user l (l\<lparr>sender := s, sender_env := env, in_flight := in_flight l @ concat (map snd ws)\<rparr>)"
| receives: "in_flight l = bs @ rest \<Longrightarrow> length bs \<le> unat (iov_len (receiver l)) \<Longrightarrow>
    socket_sendAndRecv user (Rx_bytes bs stamp) ut n (receiver l) (receiver_env l) = Inr (got, r, env) \<Longrightarrow>
    link_step user l (l\<lparr>receiver := r, receiver_env := env, in_flight := rest\<rparr>)"

definition link_inv :: "'c link \<Rightarrow> bool" where
  "link_inv l \<longleftrightarrow> received (receiver l) @ in_flight l @ pending (sender l) = sent_data l \<and>
     length (pending (sender l)) \<le> TCPBufferSize \<and> length (received (receiver l)) \<le> TCPBufferSize \<and>
     recv_callback (receiver l) = None \<and> pending (receiver l) = []"

lemma send_result:
  assumes "send data s = Inr s'" "length (pending s) \<le> TCPBufferSize"
  shows "pending s' = pending s @ data \<and> length (pending s') \<le> TCPBufferSize"
proof (cases "length (pending s) + length data \<le> TCPBufferSize")
  case True
  with send_pending [OF True] assms(1) show ?thesis by auto
next
  case False
  with assms show ?thesis by (auto simp: send_def pending_def split: if_splits)
qed

text \<open>A \<open>sendAndRecv\<close> that receives nothing.\<close>

lemma flush_result:
  assumes len: "length (pending s) \<le> TCPBufferSize"
  shows "socket_sendAndRecv user Rx_nothing ut n s env = Inr (got, s', env') \<Longrightarrow>
      pending s' = [] \<and> net_wire env' = net_wire env @ (if pending s = [] then [] else [(s_fd s, pending s)])"
    "n = next_send_valid_index s \<Longrightarrow> \<exists>s' env'. socket_sendAndRecv user Rx_nothing ut n s env = Inr (False, s', env')"
proof -
  have eq: "socket_sendAndRecv user Rx_nothing ut n s env = noexcept (bnd (send_half n s env) (\<lambda>(s, env). Inr (False, s, env)))"
    by (simp add: socket_sendAndRecv_def recv_half_def)
  have z: "pending (s\<lparr>next_send_valid_index := 0\<rparr>) = []" by (simp add: pending_def first_bytes_def)
  have empty: "send_half n s env = Inr (s\<lparr>next_send_valid_index := 0\<rparr>, env)" if "pending s = []"
    using pending_empty [OF that] by (simp add: send_half_def)
  show "pending s' = [] \<and> net_wire env' = net_wire env @ (if pending s = [] then [] else [(s_fd s, pending s)])"
    if run: "socket_sendAndRecv user Rx_nothing ut n s env = Inr (got, s', env')"
  proof (cases "pending s = []")
    case True
    with run z show ?thesis by (auto simp: eq empty noexcept_def)
  next
    case False
    with run z send_half_result [of s n env, OF _ len] show ?thesis
      by (auto simp: eq noexcept_def split: if_splits)
  qed
  show "\<exists>s' env'. socket_sendAndRecv user Rx_nothing ut n s env = Inr (False, s', env')" if n: "n = next_send_valid_index s"
  proof (cases "pending s = []")
    case True
    then show ?thesis by (simp add: eq empty noexcept_def)
  next
    case False
    moreover have "unat n = length (pending s)" using n by (simp add: pending_def)
    ultimately show ?thesis using send_half_result [of s n env, OF _ len] by (auto simp: eq noexcept_def)
  qed
qed

text \<open>A \<open>sendAndRecv\<close> of a socket that only receives.\<close>

lemma receive_result:
  assumes r: "recv_callback r = None" "pending r = []" "length (received r) \<le> TCPBufferSize"
    and bs: "length bs \<le> unat (iov_len r)"
  shows "\<exists>r' env'. socket_sendAndRecv user (Rx_bytes bs stamp) ut n r env = Inr (bs \<noteq> [], r', env') \<and>
    received r' = received r @ bs \<and> recv_callback r' = None \<and> pending r' = [] \<and> length (received r') \<le> TCPBufferSize"
proof (cases "bs = []")
  case True
  then have "recv_half user (Rx_bytes bs stamp) ut r env = Inr (False, r, env)" by (simp add: recv_half_def Let_def)
  moreover have "send_half n r env = Inr (r, env)" using pending_empty [OF r(2)] by (simp add: send_half_def)
  ultimately show ?thesis using r True by (simp add: socket_sendAndRecv_def)
next
  case False
  have idx: "unat (next_recv_valid_index r) \<le> TCPBufferSize" using r(3) by (simp add: received_def)
  have len: "length (received r) + length bs \<le> TCPBufferSize"
    using bs idx unat_iov_len [OF idx] by (simp add: received_def)
  obtain r' env' where h: "recv_half user (Rx_bytes bs stamp) ut r env = Inr (True, r', env')" "received r' = received r @ bs"
    "recv_callback r' = None" "pending r' = pending r"
    using recv_half_result [OF r(1) len False] by blast
  have "send_half n r' env' = Inr (r', env')" using pending_empty [of r'] h(4) r(2) by (simp add: send_half_def)
  with h len r(2) False show ?thesis by (simp add: socket_sendAndRecv_def)
qed

lemma link_inv_step:
  assumes step: "link_step user l m" and inv: "link_inv l"
  shows "link_inv m"
proof -
  have l: "length (pending (sender l)) \<le> TCPBufferSize" "recv_callback (receiver l) = None" "pending (receiver l) = []"
    "length (received (receiver l)) \<le> TCPBufferSize"
    using inv by (simp_all add: link_inv_def)
  show ?thesis
    using step
  proof cases
    case (sends data s)
    with inv send_result [OF sends(2) l(1)] show ?thesis by (auto simp: link_inv_def)
  next
    case (flushes ut n got s env ws)
    from flush_result(1) [OF l(1) flushes(2)] flushes(3) have "pending s = []" "concat (map snd ws) = pending (sender l)"
      by (auto split: if_splits)
    with flushes(1) inv show ?thesis by (simp add: link_inv_def)
  next
    case (receives bs rest stamp ut n got r env)
    from receive_result [OF l(2-4) receives(3), of user stamp ut n "receiver_env l"] receives(4)
    have "received r = received (receiver l) @ bs" "recv_callback r = None" "pending r = []" "length (received r) \<le> TCPBufferSize"
      by auto
    with receives(1,2) inv show ?thesis by (simp add: link_inv_def)
  qed
qed

interpretation link: invariant_system "link_init s r env env'" "link_step user"
  "\<lambda>l. link_inv (link_init s r env env') \<longrightarrow> link_inv l" for s r env env' user
  by unfold_locales (auto intro: link_inv_step)

text \<open>
  The two calls that bring everything over: the sender's, from which the kernel takes all that is
  pending, and the receiver's, which is offered all that is then under way.
\<close>

lemma link_delivers:
  assumes inv: "link_inv l" and fits: "length (sent_data l) \<le> TCPBufferSize"
  shows "\<exists>s env got r renv.
    socket_sendAndRecv user Rx_nothing ut (next_send_valid_index (sender l)) (sender l) (sender_env l) = Inr (False, s, env) \<and>
    pending s = [] \<and>
    net_wire env = net_wire (sender_env l) @ (if pending (sender l) = [] then [] else [(s_fd (sender l), pending (sender l))]) \<and>
    socket_sendAndRecv user (Rx_bytes (in_flight l @ pending (sender l)) stamp) ut' n' (receiver l) (receiver_env l) =
      Inr (got, r, renv) \<and>
    getRecvData (- 1) r = Inr (sent_data l)"
proof -
  have l: "length (pending (sender l)) \<le> TCPBufferSize" "recv_callback (receiver l) = None" "pending (receiver l) = []"
    "length (received (receiver l)) \<le> TCPBufferSize" "received (receiver l) @ in_flight l @ pending (sender l) = sent_data l"
    using inv by (simp_all add: link_inv_def)
  obtain s env where f: "socket_sendAndRecv user Rx_nothing ut (next_send_valid_index (sender l)) (sender l) (sender_env l) =
      Inr (False, s, env)"
    using flush_result(2) [OF l(1) refl] by blast
  have idx: "unat (next_recv_valid_index (receiver l)) \<le> TCPBufferSize" using l(4) by (simp add: received_def)
  then have room: "length (in_flight l @ pending (sender l)) \<le> unat (iov_len (receiver l))"
    using fits unfolding l(5) [symmetric] by (simp add: unat_iov_len received_def)
  obtain r renv where r: "socket_sendAndRecv user (Rx_bytes (in_flight l @ pending (sender l)) stamp) ut' n' (receiver l) (receiver_env l) =
      Inr (in_flight l @ pending (sender l) \<noteq> [], r, renv)" "received r = received (receiver l) @ in_flight l @ pending (sender l)"
    using receive_result [OF l(2-4) room] by blast
  have "getRecvData (- 1) r = Inr (sent_data l)" using received_data [of r] fits r(2) l(5) by simp
  with f r(1) flush_result(1) [OF l(1) f] show ?thesis by blast
qed

subsection \<open>Properties\<close>

text \<open>
  C30: a byte stream from end to end, between a sender and a receiver that start with nothing
  sent or received, where the receiver keeps the default callback and never sends itself (a
  callback that takes bytes out of the buffer, or answers, is not covered). However sends,
  flushes and deliveries of any size are mixed, what the receiver holds, what is under way and
  what the sender has not yet flushed are together exactly what was sent, in order. As long as
  that fits the receiver's buffer, one \<open>sendAndRecv\<close> of the sender from which the kernel takes
  everything, and then one of the receiver which is offered everything under way, bring all of it
  into what \<open>getRecvData\<close> returns.
\<close>

theorem stream_delivered:
  assumes "reachable (link_init s r env env') (link_step user) l"
    and "pending s = []" "received r = []" "recv_callback r = None" "pending r = []"
  shows "received (receiver l) @ in_flight l @ pending (sender l) = sent_data l \<and>
    (length (sent_data l) \<le> TCPBufferSize \<longrightarrow> (\<exists>s1 env1 got r1 env2.
      socket_sendAndRecv user Rx_nothing ut (next_send_valid_index (sender l)) (sender l) (sender_env l) = Inr (False, s1, env1) \<and>
      pending s1 = [] \<and>
      net_wire env1 = net_wire (sender_env l) @ (if pending (sender l) = [] then [] else [(s_fd (sender l), pending (sender l))]) \<and>
      socket_sendAndRecv user (Rx_bytes (in_flight l @ pending (sender l)) stamp) ut' n' (receiver l) (receiver_env l) =
        Inr (got, r1, env2) \<and>
      getRecvData (- 1) r1 = Inr (sent_data l)))"
proof -
  have "link_inv (link_init s r env env')" using assms(2-5) by (simp add: link_inv_def link_init_def)
  with link.reachable_inv [OF assms(1)] have inv: "link_inv l" by blast
  with link_delivers [OF inv, of user ut stamp ut' n'] show ?thesis by (auto simp: link_inv_def)
qed

theorem stream_delivered_witness:
  "\<exists>l got r1 env2. reachable (link_init (newTCPSocket (\<lambda>_. CHR ''x'') (\<lambda>_. CHR ''x'')) (newTCPSocket (\<lambda>_. CHR ''x'') (\<lambda>_. CHR ''x''))
      example_net example_net) (link_step (\<lambda>_ s _ env. Inr (s, env))) (l :: nat link) \<and> sent_data l = ''abc'' \<and>
    socket_sendAndRecv (\<lambda>_ s _ env. Inr (s, env)) (Rx_bytes (in_flight l @ pending (sender l)) None) 0 0 (receiver l) (receiver_env l) =
      Inr (got, r1, env2) \<and> getRecvData (- 1) r1 = Inr ''abc''"
proof -
  let ?user = "\<lambda>_ s _ env. Inr (s, env)"
  let ?s = "newTCPSocket (\<lambda>_. CHR ''x'') (\<lambda>_. CHR ''x'') :: nat TCPSocket"
  let ?init = "link_init ?s ?s example_net example_net"
  have p: "pending ?s = []" "received ?s = []" "recv_callback ?s = None"
    by (simp_all add: newTCPSocket_def pending_def received_def first_bytes_def)
  have "length (pending ?s) + length ''abc'' \<le> TCPBufferSize" by (simp add: p TCPBufferSize_def)
  from send_pending [OF this] obtain s where s: "send ''abc'' (sender ?init) = Inr s" by (auto simp: link_init_def)
  let ?l = "?init\<lparr>sender := s, sent_data := sent_data ?init @ ''abc''\<rparr>"
  have "link_step ?user ?init ?l" by (rule link_step.sends [OF s])
  then have "reachable ?init (link_step ?user) ?l" by (rule reachable.step [OF reachable.start])
  then obtain l where l: "reachable ?init (link_step ?user) l" "sent_data l = ''abc''" by (auto simp: link_init_def)
  have "length (sent_data l) \<le> TCPBufferSize" by (simp add: l(2) TCPBufferSize_def)
  with stream_delivered [OF l(1) p(1) p(2) p(3) p(1), of 0 None 0 0] l show ?thesis by auto
qed

end
