(* ===== verification/Tcp_Server.thy ===== *)
theory Tcp_Server
  imports Tcp_Socket Systems
begin

text \<open>
  include/tcp_server.h and src/tcp_server.cpp: a listener and four lists of connections over
  an epoll instance. A \<open>TCPSocket*\<close> is a number, 0 the listener; \<open>objects\<close> is the heap the
  pointers refer to and \<open>next_object\<close> the number of the next socket \<open>new\<close> makes. The
  kernel that configures and registers descriptors is the one of Socket_Utils; what
  \<open>epoll_wait\<close> and \<open>accept\<close> deliver, the events and the descriptors, are arguments. The callbacks the server
  hands to its connections are \<open>None\<close> for its own default and a user's function otherwise.
\<close>

record ('u, 'f) TCPServer =
  efd :: "32 word"
  objects :: "nat \<Rightarrow> 'u option TCPSocket"
  next_object :: nat
  sockets :: "nat list"
  receive_sockets :: "nat list"
  send_sockets :: "nat list"
  disconnected_sockets :: "nat list"
  srv_recv_callback :: "'u option"
  recv_finished_callback :: "'f option"

abbreviation listener :: nat where "listener \<equiv> 0"

text \<open>\<open>raw\<close> is what the memory of the buffers held; the default callbacks are in place.\<close>

definition newTCPServer :: "(nat \<Rightarrow> char) \<Rightarrow> ('u, 'f) TCPServer" where
  "newTCPServer raw = \<lparr>efd = - 1, objects = (\<lambda>_. newTCPSocket raw raw), next_object = 1, sockets = [],
     receive_sockets = [], send_sockets = [], disconnected_sockets = [], srv_recv_callback = None,
     recv_finished_callback = None\<rparr>"

definition srv_close :: "('u, 'f) TCPServer \<Rightarrow> NetEnv \<Rightarrow> ('u, 'f) TCPServer \<times> NetEnv" where
  "srv_close v env =
     (let env = env\<lparr>net_closed := net_closed env @ [efd v]\<rparr>;
          (l, env) = close_socket (objects v listener) env in
      (v\<lparr>efd := - 1, objects := (objects v)(listener := l)\<rparr>, env))"

text \<open>
  The registration of a socket asks for input events only, on their edge; the pointer goes
  along and comes back with each event.
\<close>

definition EPOLLIN :: "32 word" where "EPOLLIN = 1"
definition EPOLLET :: "32 word" where "EPOLLET = 0x80000000"

definition epoll_add :: "Kernel \<Rightarrow> nat \<Rightarrow> ('u, 'f) TCPServer \<Rightarrow> NetEnv \<Rightarrow> bool \<times> NetEnv" where
  "epoll_add k s v env = sys_ok k (Sys_epoll_add (efd v) (s_fd (objects v s)) (EPOLLET OR EPOLLIN) s) env"

definition epoll_del :: "Kernel \<Rightarrow> nat \<Rightarrow> ('u, 'f) TCPServer \<Rightarrow> NetEnv \<Rightarrow> bool \<times> NetEnv" where
  "epoll_del k s v env = sys_ok k (Sys_epoll_del (efd v) (s_fd (objects v s))) env"

text \<open>
  \<open>listen\<close>. The message of an \<open>ASSERT\<close> is an argument beside the condition, and C++ does not
  say which of the two is evaluated first: \<open>err\<close> is the text of \<open>errno\<close> it finds.
\<close>

definition listen :: "Kernel \<Rightarrow> string \<Rightarrow> 32 word \<Rightarrow> string \<Rightarrow> ('u, 'f) TCPServer \<Rightarrow> NetEnv \<Rightarrow>
    (('u, 'f) TCPServer \<times> NetEnv) res" where
  "listen k iface port err v env =
     (let (v, env) = srv_close v env; (e, env) = sys k (Sys_epoll_create 1) env; v = v\<lparr>efd := e\<rparr> in
      bnd (ASSERT (0 \<le> sint (efd v)) (''epoll_create() failed error:'' @ err)) (\<lambda>_.
      bnd (connect_socket k [] iface port True (objects v listener) env) (\<lambda>(fd, l, env).
      let v = v\<lparr>objects := (objects v)(listener := l)\<rparr> in
      bnd (ASSERT (0 \<le> sint fd) (''Listener socket failed to connect. iface:'' @ iface @ '' port:'' @
             to_string_int (sint port) @ '' error:'' @ err)) (\<lambda>_.
      let (added, env) = epoll_add k listener v env in
      bnd (ASSERT added (''epoll_ctl() failed. error:'' @ err)) (\<lambda>_. Inr (v, env))))))"

definition setServerRecvCallback :: "'u \<Rightarrow> ('u, 'f) TCPServer \<Rightarrow> ('u, 'f) TCPServer" where
  "setServerRecvCallback f v = v\<lparr>srv_recv_callback := Some f\<rparr>"

definition setRecvFinishCallback :: "'f \<Rightarrow> ('u, 'f) TCPServer \<Rightarrow> ('u, 'f) TCPServer" where
  "setRecvFinishCallback f v = v\<lparr>recv_finished_callback := Some f\<rparr>"

subsection \<open>Polling\<close>

text \<open>\<open>erase(remove(...))\<close> takes every occurrence out; the result of \<open>epoll_del\<close> is ignored.\<close>

definition srv_del :: "Kernel \<Rightarrow> nat \<Rightarrow> ('u, 'f) TCPServer \<times> NetEnv \<Rightarrow> ('u, 'f) TCPServer \<times> NetEnv" where
  "srv_del k s = (\<lambda>(v, env).
     let (_, env) = epoll_del k s v env in
     (v\<lparr>sockets := removeAll s (sockets v), receive_sockets := removeAll s (receive_sockets v),
        send_sockets := removeAll s (send_sockets v)\<rparr>, env))"

definition push_new :: "nat \<Rightarrow> nat list \<Rightarrow> nat list" where
  "push_new s ss = (if s \<in> set ss then ss else ss @ [s])"

record epoll_event =
  ev_socket :: nat
  ev_in :: bool
  ev_out :: bool
  ev_err_hup :: bool

definition log_server :: "32 word \<Rightarrow> string \<Rightarrow> log_arg list \<Rightarrow> NetEnv \<Rightarrow> NetEnv res" where
  "log_server line fmt args env = log_at ''tcp_server.cpp'' line ''poll'' fmt args env"

text \<open>
  One turn of the event loop; the first component says whether the listener was ready. An
  input event of the listener leaves the turn at once.
\<close>

definition poll_event :: "epoll_event \<Rightarrow> bool \<times> ('u, 'f) TCPServer \<times> NetEnv \<Rightarrow>
    (bool \<times> ('u, 'f) TCPServer \<times> NetEnv) res" where
  "poll_event event = (\<lambda>(have_new_connection, v, env).
     let s = ev_socket event; fd = A_int (s_fd (objects v s)) in
     if ev_in event \<and> s = listener then
       bnd (log_server 68 ''EPOLLIN listener_socket:%'' [fd] env) (\<lambda>env. Inr (True, v, env))
     else
       bnd (if ev_in event then
              bnd (log_server 73 ''EPOLLIN socket:%'' [fd] env) (\<lambda>env.
              Inr (v\<lparr>receive_sockets := push_new s (receive_sockets v)\<rparr>, env))
            else Inr (v, env)) (\<lambda>(v, env).
       bnd (if ev_out event then
              bnd (log_server 81 ''EPOLLOUT socket:%'' [fd] env) (\<lambda>env.
              Inr (v\<lparr>send_sockets := push_new s (send_sockets v)\<rparr>, env))
            else Inr (v, env)) (\<lambda>(v, env).
       bnd (if ev_err_hup event then
              bnd (log_server 87 ''EPOLLERR | EPOLLHUP socket:%'' [fd] env) (\<lambda>env.
              Inr (v\<lparr>disconnected_sockets := push_new s (disconnected_sockets v)\<rparr>, env))
            else Inr (v, env)) (\<lambda>(v, env).
       Inr (have_new_connection, v, env)))))"

fun poll_events :: "epoll_event list \<Rightarrow> bool \<times> ('u, 'f) TCPServer \<times> NetEnv \<Rightarrow>
    (bool \<times> ('u, 'f) TCPServer \<times> NetEnv) res" where
  "poll_events [] st = Inr st"
| "poll_events (e # es) st = bnd (poll_event e st) (poll_events es)"

text \<open>
  The accept loop. The list holds the descriptors \<open>accept\<close> returns; at its end \<open>accept\<close>
  returned -1.
\<close>

definition configure :: "Kernel \<Rightarrow> 32 word \<Rightarrow> NetEnv \<Rightarrow> bool \<times> NetEnv" where
  "configure k fd env = (let (ok, env) = setNonBlocking k fd env in if ok then setNoDelay k fd env else (False, env))"

fun accept_loop :: "Kernel \<Rightarrow> (nat \<Rightarrow> char) \<Rightarrow> string \<Rightarrow> 32 word list \<Rightarrow> ('u, 'f) TCPServer \<Rightarrow> NetEnv \<Rightarrow>
    (('u, 'f) TCPServer \<times> NetEnv) res" where
  "accept_loop k raw err [] v env = bnd (log_server 96 ''have_new_connection'' [] env) (\<lambda>env. Inr (v, env))"
| "accept_loop k raw err (fd # fds) v env =
     bnd (log_server 96 ''have_new_connection'' [] env) (\<lambda>env.
     let (configured, env) = configure k fd env in
     bnd (ASSERT configured (''Failed to set non-blocking or no-delay on socket:'' @ to_string_int (sint fd))) (\<lambda>_.
     bnd (log_server 105 ''accepted socket:%'' [A_int fd] env) (\<lambda>env.
     let s = next_object v;
         (socket, env) = setFd fd (newTCPSocket raw raw) env;
         socket = setRecvCallback (srv_recv_callback v) socket;
         v = v\<lparr>objects := (objects v)(s := socket), next_object := Suc s\<rparr>;
         (added, env) = epoll_add k s v env in
     bnd (ASSERT added (''Unable to add socket error'' @ err)) (\<lambda>_.
     accept_loop k raw err fds
       (v\<lparr>sockets := push_new s (sockets v), receive_sockets := push_new s (receive_sockets v)\<rparr>) env))))"

text \<open>
  \<open>poll\<close>. \<open>epoll_wait\<close> may return up to \<open>max_events\<close> events, one more than there are
  connections, and stores them in an array of 1024.
\<close>

definition max_events :: "('u, 'f) TCPServer \<Rightarrow> nat" where
  "max_events v = 1 + length (sockets v)"

definition poll :: "Kernel \<Rightarrow> (nat \<Rightarrow> char) \<Rightarrow> string \<Rightarrow> epoll_event list \<Rightarrow> 32 word list \<Rightarrow>
    ('u, 'f) TCPServer \<Rightarrow> NetEnv \<Rightarrow> (('u, 'f) TCPServer \<times> NetEnv) res" where
  "poll k raw err events fds v env = noexcept (
     let (v, env) = fold (srv_del k) (disconnected_sockets v) (v, env) in
     if length events > 1024 then Inl Out_of_bounds
     else bnd (poll_events events (False, v, env)) (\<lambda>(have_new_connection, v, env).
          if have_new_connection then accept_loop k raw err fds v env else Inr (v, env)))"

subsection \<open>Sending and receiving\<close>

definition defaultServerRecvCallback :: "'u option TCPSocket \<Rightarrow> 64 word \<Rightarrow> NetEnv \<Rightarrow> NetEnv res" where
  "defaultServerRecvCallback s rx_time env =
     log_at ''tcp_server.cpp'' 31 ''defaultRecvCallback'' ''TCPServer::defaultRecvCallback() socket:% len:% rx:%''
       [A_int (s_fd s), A_unsigned_long (next_recv_valid_index s), A_long rx_time] env"

definition defaultRecvFinishedCallback :: "NetEnv \<Rightarrow> NetEnv res" where
  "defaultRecvFinishedCallback env =
     log_at ''tcp_server.cpp'' 26 ''defaultRecvFinishedCallback'' ''TCPServer::defaultRecvFinishedCallback()'' [] env"

text \<open>What a connection's callback does: the server's default, or the user's function.\<close>

definition server_user :: "('u \<Rightarrow> 'u option TCPSocket \<Rightarrow> 64 word \<Rightarrow> NetEnv \<Rightarrow> ('u option TCPSocket \<times> NetEnv) res) \<Rightarrow>
    'u option \<Rightarrow> 'u option TCPSocket \<Rightarrow> 64 word \<Rightarrow> NetEnv \<Rightarrow> ('u option TCPSocket \<times> NetEnv) res" where
  "server_user user cb s rx_time env = (case cb of
     None \<Rightarrow> bnd (defaultServerRecvCallback s rx_time env) (\<lambda>env. Inr (s, env))
   | Some f \<Rightarrow> user f s rx_time env)"

text \<open>
  One pass over a list of connections; \<open>rx\<close> and \<open>tx\<close> are what the kernel returns for each.
  The first component says whether any of them received something.
\<close>

fun send_recv_list :: "('u \<Rightarrow> 'u option TCPSocket \<Rightarrow> 64 word \<Rightarrow> NetEnv \<Rightarrow> ('u option TCPSocket \<times> NetEnv) res) \<Rightarrow>
    (nat \<Rightarrow> recv_result) \<Rightarrow> (nat \<Rightarrow> 64 word) \<Rightarrow> 64 word \<Rightarrow> nat list \<Rightarrow> bool \<times> ('u, 'f) TCPServer \<times> NetEnv \<Rightarrow>
    (bool \<times> ('u, 'f) TCPServer \<times> NetEnv) res" where
  "send_recv_list user rx tx ut [] st = Inr st"
| "send_recv_list user rx tx ut (s # ss) (recv, v, env) =
     bnd (socket_sendAndRecv (server_user user) (rx s) ut (tx s) (objects v s) env) (\<lambda>(got, socket, env).
     send_recv_list user rx tx ut ss (recv \<or> got, v\<lparr>objects := (objects v)(s := socket)\<rparr>, env))"

definition server_sendAndRecv ::
  "('u \<Rightarrow> 'u option TCPSocket \<Rightarrow> 64 word \<Rightarrow> NetEnv \<Rightarrow> ('u option TCPSocket \<times> NetEnv) res) \<Rightarrow> ('f \<Rightarrow> NetEnv \<Rightarrow> NetEnv res) \<Rightarrow>
    (nat \<Rightarrow> recv_result) \<Rightarrow> (nat \<Rightarrow> 64 word) \<Rightarrow> (nat \<Rightarrow> recv_result) \<Rightarrow> (nat \<Rightarrow> 64 word) \<Rightarrow> 64 word \<Rightarrow>
    ('u, 'f) TCPServer \<Rightarrow> NetEnv \<Rightarrow> (('u, 'f) TCPServer \<times> NetEnv) res" where
  "server_sendAndRecv user finished rx tx rx2 tx2 ut v env = noexcept (
     bnd (send_recv_list user rx tx ut (receive_sockets v) (False, v, env)) (\<lambda>(recv, v, env).
     bnd (if recv then (case recv_finished_callback v of None \<Rightarrow> defaultRecvFinishedCallback env
            | Some f \<Rightarrow> finished f env) else Inr env) (\<lambda>env.
     bnd (send_recv_list user rx2 tx2 ut (send_sockets v) (False, v, env)) (\<lambda>(_, v, env).
     Inr (v, env)))))"

subsection \<open>What a poll does to the lists\<close>

lemma push_new_set [simp]: "set (push_new s ss) = insert s (set ss)"
  by (auto simp: push_new_def)

lemma push_new_distinct [simp]: "distinct (push_new s ss) = distinct ss"
  by (auto simp: push_new_def)

lemma fold_push_new: "set (fold push_new xs ss) = set xs \<union> set ss" "distinct (fold push_new xs ss) = distinct ss"
  by (induction xs arbitrary: ss) auto

definition listener_ready :: "epoll_event list \<Rightarrow> bool" where
  "listener_ready es \<longleftrightarrow> (\<exists>e \<in> set es. ev_in e \<and> ev_socket e = listener)"

definition taken :: "epoll_event list \<Rightarrow> epoll_event list" where
  "taken es = filter (\<lambda>e. \<not> (ev_in e \<and> ev_socket e = listener)) es"

definition with_events :: "epoll_event list \<Rightarrow> ('u, 'f) TCPServer \<Rightarrow> ('u, 'f) TCPServer" where
  "with_events es v = v
     \<lparr>receive_sockets := fold push_new (map ev_socket (filter ev_in (taken es))) (receive_sockets v),
      send_sockets := fold push_new (map ev_socket (filter ev_out (taken es))) (send_sockets v),
      disconnected_sockets := fold push_new (map ev_socket (filter ev_err_hup (taken es))) (disconnected_sockets v)\<rparr>"

lemma server_formats:
  "socket_log_fmt_ok ''EPOLLIN listener_socket:%'' 1" "socket_log_fmt_ok ''EPOLLIN socket:%'' 1"
  "socket_log_fmt_ok ''EPOLLOUT socket:%'' 1" "socket_log_fmt_ok ''EPOLLERR | EPOLLHUP socket:%'' 1"
  "socket_log_fmt_ok ''have_new_connection'' 0" "socket_log_fmt_ok ''accepted socket:%'' 1"
  by (simp_all add: socket_log_fmt_ok_def)

lemma grows_after_log: "grows [] a b \<Longrightarrow> grows T b c \<Longrightarrow> grows T a c"
  by (simp add: grows_def)

lemma helper_setNoDelay: "helper (setNoDelay k fd) (succeeded (Sys_setsockopt fd TCP_NODELAY 1))"
  using helper_set_option [of TCP_NODELAY 1 k fd] by (simp add: helper_def setNoDelay_def)

lemma helper_configure: "helper (configure k fd) (\<lambda>T. unblocked fd T \<and> succeeded (Sys_setsockopt fd TCP_NODELAY 1) T)"
proof -
  have "helper (\<lambda>st. let (ok, st) = setNonBlocking k fd st in if ok then setNoDelay k fd st else (False, st))
      (\<lambda>T. unblocked fd T \<and> succeeded (Sys_setsockopt fd TCP_NODELAY 1) T)"
    by (rule helper_conj [OF helper_setNonBlocking helper_setNoDelay]) auto
  then show ?thesis unfolding helper_def configure_def .
qed

lemma helper_epoll_add: "helper (epoll_add k s v) (succeeded (Sys_epoll_add (efd v) (s_fd (objects v s)) (EPOLLET OR EPOLLIN) s))"
  unfolding helper_def epoll_add_def by (rule helper_sys_ok [unfolded helper_def]) simp

lemma helper_epoll_del: "helper (epoll_del k s v) (succeeded (Sys_epoll_del (efd v) (s_fd (objects v s))))"
  unfolding helper_def epoll_del_def by (rule helper_sys_ok [unfolded helper_def]) simp

lemma obliging_accepts: "obliging k \<Longrightarrow> fst (configure k fd env)" "obliging k \<Longrightarrow> fst (epoll_add k s v env)"
  by (simp_all add: configure_def epoll_add_def obliging_calls case_prod_beta)


lemma log_server_total:
  "socket_log_fmt_ok fmt k \<Longrightarrow> length args = k \<Longrightarrow> \<exists>env'. log_server ln fmt args env = Inr env' \<and> grows [] env env'"
  by (simp add: log_server_def log_at_def Let_def log_fmt_spec socket_log_fmt_ok_def grows_def)

lemma poll_event_result:
  "\<exists>env'. poll_event e (h, v, env) = Inr (h \<or> listener_ready [e], with_events [e] v, env') \<and> grows [] env env'"
proof -
  let ?fd = "A_int (s_fd (objects v (ev_socket e)))"
  have l: "\<exists>env'. log_server 68 ''EPOLLIN listener_socket:%'' [?fd] env = Inr env' \<and> grows [] env env'"
    "\<exists>env'. log_server 73 ''EPOLLIN socket:%'' [?fd] env = Inr env' \<and> grows [] env env'"
    "\<exists>env'. log_server 81 ''EPOLLOUT socket:%'' [?fd] env = Inr env' \<and> grows [] env env'"
    "\<exists>env'. log_server 87 ''EPOLLERR | EPOLLHUP socket:%'' [?fd] env = Inr env' \<and> grows [] env env'" for env
    using server_formats log_server_total by auto
  show ?thesis
  proof (cases "ev_in e \<and> ev_socket e = listener")
    case True
    with l(1) [of env] show ?thesis by (auto simp: poll_event_def Let_def listener_ready_def with_events_def taken_def)
  next
    case False
    obtain env1 where e1: "(if ev_in e then log_server 73 ''EPOLLIN socket:%'' [?fd] env else Inr env) = Inr env1" "grows [] env env1"
      using l(2) [of env] by (cases "ev_in e") auto
    obtain env2 where e2: "(if ev_out e then log_server 81 ''EPOLLOUT socket:%'' [?fd] env1 else Inr env1) = Inr env2" "grows [] env1 env2"
      using l(3) [of env1] by (cases "ev_out e") auto
    obtain env3 where e3: "(if ev_err_hup e then log_server 87 ''EPOLLERR | EPOLLHUP socket:%'' [?fd] env2 else Inr env2) = Inr env3"
      "grows [] env2 env3" using l(4) [of env2] by (cases "ev_err_hup e") auto
    have "poll_event e (h, v, env) = Inr (h, with_events [e] v, env3)"
      using False e1(1) e2(1) e3(1)
      by (auto simp: poll_event_def Let_def with_events_def taken_def split: if_splits)
    moreover have "grows [] env env3" using e1(2) e2(2) e3(2) grows_after_log by blast
    ultimately show ?thesis using False by (auto simp: listener_ready_def)
  qed
qed

lemma with_events_append: "with_events (es @ es') v = with_events es' (with_events es v)"
  by (simp add: with_events_def taken_def)

lemma poll_events_result:
  "\<exists>env'. poll_events es (h, v, env) = Inr (h \<or> listener_ready es, with_events es v, env') \<and> grows [] env env'"
proof (induction es arbitrary: h v env)
  case Nil
  then show ?case by (simp add: listener_ready_def with_events_def taken_def)
next
  case (Cons e es)
  obtain env1 where 1: "poll_event e (h, v, env) = Inr (h \<or> listener_ready [e], with_events [e] v, env1)" "grows [] env env1"
    using poll_event_result by blast
  obtain env2 where 2: "poll_events es (h \<or> listener_ready [e], with_events [e] v, env1) =
      Inr ((h \<or> listener_ready [e]) \<or> listener_ready es, with_events es (with_events [e] v), env2)" "grows [] env1 env2"
    using Cons.IH by blast
  have "with_events es (with_events [e] v) = with_events (e # es) v" using with_events_append [of "[e]" es v] by simp
  with 1 2 grows_after_log show ?case by (auto simp: listener_ready_def)
qed

text \<open>The service lists without the sockets \<open>ds\<close>.\<close>

definition without :: "nat list \<Rightarrow> ('u, 'f) TCPServer \<Rightarrow> ('u, 'f) TCPServer" where
  "without ds v = v\<lparr>sockets := filter (\<lambda>s. s \<notin> set ds) (sockets v),
    receive_sockets := filter (\<lambda>s. s \<notin> set ds) (receive_sockets v), send_sockets := filter (\<lambda>s. s \<notin> set ds) (send_sockets v)\<rparr>"

abbreviation del_call :: "('u, 'f) TCPServer \<Rightarrow> nat \<Rightarrow> sys_call" where
  "del_call v s \<equiv> Sys_epoll_del (efd v) (s_fd (objects v s))"

lemma srv_del_result: "\<exists>r env'. srv_del k s (v, env) = (without [s] v, env') \<and> grows [(del_call v s, r)] env env'"
proof -
  obtain r env' where r: "sys k (del_call v s) env = (r, env')" by fastforce
  have "removeAll s xs = filter (\<lambda>x. x \<noteq> s) xs" for xs by (auto simp: removeAll_filter_not_eq eq_commute)
  with r sys_grows [OF r] show ?thesis by (auto simp: srv_del_def epoll_del_def sys_ok_def without_def)
qed

lemma fold_srv_del:
  "\<exists>T env'. fold (srv_del k) ds (v, env) = (without ds v, env') \<and> grows T env env' \<and>
    (\<forall>s \<in> set ds. del_call v s \<in> fst ` set T)"
proof (induction ds arbitrary: v env)
  case Nil
  then show ?case by (auto simp: without_def intro: exI [of _ "[]"])
next
  case (Cons d ds)
  obtain r env1 where 1: "srv_del k d (v, env) = (without [d] v, env1)" "grows [(del_call v d, r)] env env1"
    using srv_del_result by blast
  obtain T env2 where 2: "fold (srv_del k) ds (without [d] v, env1) = (without ds (without [d] v), env2)" "grows T env1 env2"
    "\<forall>s \<in> set ds. del_call (without [d] v) s \<in> fst ` set T"
    using Cons.IH by blast
  have "without ds (without [d] v) = without (d # ds) v" by (simp add: without_def conj_commute)
  with 1 2 grows_trans [OF 1(2) 2(2)] show ?case
    by (intro exI [of _ "[(del_call v d, r)] @ T"] exI [of _ env2]) (auto simp: without_def)
qed

text \<open>What the lists satisfy between calls.\<close>

definition server_inv :: "('u, 'f) TCPServer \<Rightarrow> bool" where
  "server_inv v \<longleftrightarrow> 0 < next_object v \<and> distinct (sockets v) \<and> distinct (receive_sockets v) \<and>
     distinct (send_sockets v) \<and> distinct (disconnected_sockets v) \<and>
     set (sockets v) \<subseteq> set (receive_sockets v) \<and> listener \<notin> set (receive_sockets v) \<and>
     (\<forall>s \<in> set (receive_sockets v) \<union> set (send_sockets v) \<union> set (disconnected_sockets v). s < next_object v)"

text \<open>A connection in service: not blocking, undelayed and registered for its input events.\<close>

definition in_service :: "32 word \<Rightarrow> 32 word \<Rightarrow> nat \<Rightarrow> (sys_call \<times> 32 word) list \<Rightarrow> bool" where
  "in_service e fd s T \<longleftrightarrow> unblocked fd T \<and> succeeded (Sys_setsockopt fd TCP_NODELAY 1) T \<and>
     succeeded (Sys_epoll_add e fd (EPOLLET OR EPOLLIN) s) T"

lemma in_service_append [simp]: "in_service e fd s A \<or> in_service e fd s B \<Longrightarrow> in_service e fd s (A @ B)"
  by (auto simp: in_service_def)

lemma setFd_new [simp]: "setFd fd (newTCPSocket a b) env = ((newTCPSocket a b)\<lparr>s_fd := fd\<rparr>, env)"
  by (simp add: setFd_def close_socket_def newTCPSocket_def)

definition accepted :: "(nat \<Rightarrow> char) \<Rightarrow> 32 word \<Rightarrow> ('u, 'f) TCPServer \<Rightarrow> ('u, 'f) TCPServer" where
  "accepted raw fd v = v\<lparr>objects := (objects v)(next_object v :=
       setRecvCallback (srv_recv_callback v) ((newTCPSocket raw raw)\<lparr>s_fd := fd\<rparr>)),
     next_object := Suc (next_object v), sockets := push_new (next_object v) (sockets v),
     receive_sockets := push_new (next_object v) (receive_sockets v)\<rparr>"

text \<open>One turn of the accept loop: either the socket is in service or an assertion ends the process.\<close>

lemma accept_turn:
  "\<exists>T env1 ok. grows T env env1 \<and> (obliging k \<longrightarrow> ok) \<and>
    (if ok then in_service (efd v) fd (next_object v) T \<and>
       accept_loop k raw err (fd # fds) v env = accept_loop k raw err fds (accepted raw fd v) env1
     else \<exists>f. accept_loop k raw err (fd # fds) v env = Inl f)"
proof -
  let ?s = "next_object v"
  let ?socket = "setRecvCallback (srv_recv_callback v) ((newTCPSocket raw raw)\<lparr>s_fd := fd\<rparr>)"
  let ?v = "v\<lparr>objects := (objects v)(?s := ?socket), next_object := Suc ?s\<rparr>"
  obtain env1 where l1: "log_server 96 ''have_new_connection'' [] env = Inr env1" "grows [] env env1"
    using log_server_total [OF server_formats(5), of "[]" 96 env] by auto
  obtain c env2 where c: "configure k fd env1 = (c, env2)" by fastforce
  obtain T where T: "grows T env1 env2" "c \<Longrightarrow> unblocked fd T \<and> succeeded (Sys_setsockopt fd TCP_NODELAY 1) T"
    using helperD [OF helper_configure c] by blast
  obtain env3 where l2: "log_server 105 ''accepted socket:%'' [A_int fd] env2 = Inr env3" "grows [] env2 env3"
    using log_server_total [OF server_formats(6), of "[A_int fd]" 105 env2] by auto
  obtain a env4 where a: "epoll_add k ?s ?v env3 = (a, env4)" by fastforce
  have fd: "s_fd (objects ?v ?s) = fd" by (simp add: setRecvCallback_def)
  obtain T' where T': "grows T' env3 env4" "a \<Longrightarrow> succeeded (Sys_epoll_add (efd v) fd (EPOLLET OR EPOLLIN) ?s) T'"
    using helperD [OF helper_epoll_add a] fd by auto
  have g: "grows (T @ T') env env4"
    using l1(2) T(1) l2(2) T'(1) by (simp add: grows_def)
  have o: "obliging k \<Longrightarrow> c \<and> a" using obliging_accepts c a by (metis fst_conv)
  note unf = l1(1) c l2(1) a Let_def accepted_def
  show ?thesis
  proof (cases "c \<and> a")
    case True
    with g T(2) T'(2) show ?thesis
      by (intro exI [of _ "T @ T'"] exI [of _ env4] exI [of _ True]) (simp add: unf in_service_def)
  next
    case False
    with g o show ?thesis
      by (intro exI [of _ "T @ T'"] exI [of _ env4] exI [of _ False]) (auto simp: unf ASSERT_def)
  qed
qed

lemma accepted_inv: "server_inv v \<Longrightarrow> server_inv (accepted raw fd v)"
  by (auto simp: server_inv_def accepted_def less_Suc_eq)

text \<open>What the loop does to the lists and to a socket that exists already, and what it asks of the kernel.\<close>

lemma accept_loop_result:
  "server_inv v \<Longrightarrow> accept_loop k raw err fds v env = Inr (v', env') \<Longrightarrow>
    server_inv v' \<and> sockets v' = sockets v @ [next_object v..<next_object v + length fds] \<and>
    receive_sockets v' = receive_sockets v @ [next_object v..<next_object v + length fds] \<and>
    send_sockets v' = send_sockets v \<and> disconnected_sockets v' = disconnected_sockets v \<and> efd v' = efd v \<and>
    map (\<lambda>s. s_fd (objects v' s)) [next_object v..<next_object v + length fds] = fds \<and>
    (\<forall>s < next_object v. objects v' s = objects v s) \<and>
    (\<exists>T. grows T env env' \<and>
      (\<forall>s \<in> {next_object v..<next_object v + length fds}. in_service (efd v) (s_fd (objects v' s)) s T))"
proof (induction fds arbitrary: v env)
  case Nil
  then show ?case using log_server_total [OF server_formats(5), of "[]" 96 env] by (auto simp: res_simps)
next
  case (Cons fd fds)
  let ?w = "accepted raw fd v"
  obtain T env1 where 1: "grows T env env1" "in_service (efd v) fd (next_object v) T"
    "accept_loop k raw err fds ?w env1 = Inr (v', env')"
    using accept_turn [of env k v fd raw err fds] Cons.prems(2) by (auto split: if_splits)
  have w: "sockets ?w = sockets v @ [next_object v]" "receive_sockets ?w = receive_sockets v @ [next_object v]"
    "send_sockets ?w = send_sockets v" "disconnected_sockets ?w = disconnected_sockets v" "efd ?w = efd v"
    "next_object ?w = Suc (next_object v)" "\<forall>s < next_object v. objects ?w s = objects v s"
    "s_fd (objects ?w (next_object v)) = fd"
    using Cons.prems(1) by (auto simp: accepted_def push_new_def server_inv_def setRecvCallback_def)
  note IH = Cons.IH [OF accepted_inv [OF Cons.prems(1)] 1(3), unfolded w]
  then obtain T' where T': "grows T' env1 env'"
    "\<forall>s \<in> {Suc (next_object v)..<Suc (next_object v) + length fds}. in_service (efd v) (s_fd (objects v' s)) s T'" by blast
  have fd: "s_fd (objects v' (next_object v)) = fd" using IH w(8) by simp
  have "in_service (efd v) (s_fd (objects v' s)) s (T @ T')" if "s \<in> {next_object v..<next_object v + length (fd # fds)}" for s
    using that T'(2) 1(2) fd by (cases "s = next_object v") auto
  with grows_trans [OF 1(1) T'(1)] have g: "\<exists>T. grows T env env' \<and>
      (\<forall>s \<in> {next_object v..<next_object v + length (fd # fds)}. in_service (efd v) (s_fd (objects v' s)) s T)" by blast
  have "sockets v' = sockets v @ [next_object v..<next_object v + length (fd # fds)] \<and>
    receive_sockets v' = receive_sockets v @ [next_object v..<next_object v + length (fd # fds)] \<and>
    map (\<lambda>s. s_fd (objects v' s)) [next_object v..<next_object v + length (fd # fds)] = fd # fds \<and>
    (\<forall>s < next_object v. objects v' s = objects v s)"
    using IH w(7) fd by (auto simp: upt_rec [of "next_object v"])
  with IH g show ?case by blast
qed

lemma accept_loop_total: "obliging k \<Longrightarrow> \<exists>v' env'. accept_loop k raw err fds v env = Inr (v', env')"
proof (induction fds arbitrary: v env)
  case Nil
  then show ?case using log_server_total [OF server_formats(5), of "[]" 96 env] by auto
next
  case (Cons fd fds)
  obtain env1 where "accept_loop k raw err (fd # fds) v env = accept_loop k raw err fds (accepted raw fd v) env1"
    using accept_turn [of env k v fd raw err fds] Cons.prems by (auto split: if_splits)
  with Cons show ?case by simp
qed

text \<open>The poll before the accept loop, in closed form.\<close>

definition survivors :: "epoll_event list \<Rightarrow> ('u, 'f) TCPServer \<Rightarrow> ('u, 'f) TCPServer" where
  "survivors es v = with_events es (without (disconnected_sockets v) v)"

lemma survivors_fields [simp]:
  "sockets (survivors es v) = filter (\<lambda>s. s \<notin> set (disconnected_sockets v)) (sockets v)"
  "next_object (survivors es v) = next_object v" "objects (survivors es v) = objects v" "efd (survivors es v) = efd v"
  "set (disconnected_sockets (survivors es v)) =
     ev_socket ` set (filter ev_err_hup (taken es)) \<union> set (disconnected_sockets v)"
  "set (receive_sockets (survivors es v)) =
     ev_socket ` set (filter ev_in (taken es)) \<union> (set (receive_sockets v) - set (disconnected_sockets v))"
  "set (send_sockets (survivors es v)) =
     ev_socket ` set (filter ev_out (taken es)) \<union> (set (send_sockets v) - set (disconnected_sockets v))"
  by (auto simp: survivors_def with_events_def without_def fold_push_new)

lemma survivors_distinct [simp]:
  "distinct (receive_sockets v) \<Longrightarrow> distinct (receive_sockets (survivors es v))"
  "distinct (send_sockets v) \<Longrightarrow> distinct (send_sockets (survivors es v))"
  "distinct (disconnected_sockets (survivors es v)) = distinct (disconnected_sockets v)"
  by (simp_all add: survivors_def with_events_def without_def fold_push_new)

lemma survivors_inv:
  assumes "server_inv v" "\<forall>e \<in> set es. ev_socket e < next_object v"
  shows "server_inv (survivors es v)"
  using assms by (auto simp: server_inv_def taken_def)

lemma poll_unfold:
  assumes "length es \<le> 1024"
  shows "\<exists>T env1. grows T env env1 \<and> (\<forall>s \<in> set (disconnected_sockets v). del_call v s \<in> fst ` set T) \<and>
    poll k raw err es fds v env =
      noexcept (if listener_ready es then accept_loop k raw err fds (survivors es v) env1 else Inr (survivors es v, env1))"
proof -
  obtain T env0 where 0: "fold (srv_del k) (disconnected_sockets v) (v, env) = (without (disconnected_sockets v) v, env0)"
    "grows T env env0" "\<forall>s \<in> set (disconnected_sockets v). del_call v s \<in> fst ` set T"
    using fold_srv_del by blast
  obtain env1 where 1: "poll_events es (False, without (disconnected_sockets v) v, env0) =
      Inr (False \<or> listener_ready es, survivors es v, env1)" "grows [] env0 env1"
    using poll_events_result unfolding survivors_def by blast
  from assms 0 1 grows_trans [OF 0(2) 1(2)] show ?thesis
    by (intro exI [of _ T] exI [of _ env1]) (simp add: poll_def Let_def)
qed

lemma poll_total:
  assumes "obliging k" "length es \<le> 1024"
  shows "\<exists>v' env'. poll k raw err es fds v env = Inr (v', env')"
proof -
  obtain env1 where p: "poll k raw err es fds v env =
    noexcept (if listener_ready es then accept_loop k raw err fds (survivors es v) env1 else Inr (survivors es v, env1))"
    using poll_unfold [OF assms(2)] by blast
  obtain v' env' where "accept_loop k raw err fds (survivors es v) env1 = Inr (v', env')"
    using accept_loop_total [OF assms(1)] by blast
  with p show ?thesis by (cases "listener_ready es") simp_all
qed

text \<open>The lists after a poll, and the calls that put the new connections in service.\<close>

lemma poll_result:
  assumes "server_inv v" "\<forall>e \<in> set es. ev_socket e < next_object v"
    and "poll k raw err es fds v env = Inr (v', env')"
  shows "server_inv v' \<and> (\<exists>T. grows T env env' \<and>
    (let new = (if listener_ready es then [next_object v..<next_object v + length fds] else []) in
     sockets v' = filter (\<lambda>s. s \<notin> set (disconnected_sockets v)) (sockets v) @ new \<and>
     map (\<lambda>s. s_fd (objects v' s)) new = (if listener_ready es then fds else []) \<and>
     (\<forall>s \<in> set new. in_service (efd v) (s_fd (objects v' s)) s T) \<and>
     set (receive_sockets v') = ev_socket ` set (filter ev_in (taken es)) \<union>
       (set (receive_sockets v) - set (disconnected_sockets v)) \<union> set new \<and>
     set (disconnected_sockets v') = ev_socket ` set (filter ev_err_hup (taken es)) \<union> set (disconnected_sockets v)))"
proof -
  have len: "length es \<le> 1024"
  proof (rule ccontr)
    assume "\<not> length es \<le> 1024"
    then have "\<nexists>x. poll k raw err es fds v env = Inr x" by (simp add: poll_def case_prod_beta noexcept_def)
    with assms(3) show False by blast
  qed
  have inv: "server_inv (survivors es v)" using assms(1,2) survivors_inv by blast
  obtain T env1 where p: "grows T env env1" "poll k raw err es fds v env =
    noexcept (if listener_ready es then accept_loop k raw err fds (survivors es v) env1 else Inr (survivors es v, env1))"
    using poll_unfold [OF len] by blast
  show ?thesis
  proof (cases "listener_ready es")
    case True
    with p(2) assms(3) have "noexcept (accept_loop k raw err fds (survivors es v) env1) = Inr (v', env')" by simp
    then have r: "accept_loop k raw err fds (survivors es v) env1 = Inr (v', env')" by (simp add: res_simps)
    note a = accept_loop_result [OF inv r]
    then obtain T' where T': "grows T' env1 env'"
      "\<forall>s \<in> {next_object v..<next_object v + length fds}. in_service (efd v) (s_fd (objects v' s)) s T'" by auto
    show ?thesis using a True grows_trans [OF p(1) T'(1)] T'(2)
      by (intro conjI exI [of _ "T @ T'"]) (simp_all add: Let_def)
  next
    case False
    then have "v' = survivors es v" "env' = env1" using p(2) assms(3) by simp_all
    with p(1) inv False show ?thesis by (intro conjI exI [of _ T]) (simp_all add: Let_def)
  qed
qed

subsection \<open>The server as a system\<close>

text \<open>
  A server in use: any sequence of its public calls, from a new server on. Of the kernel only
  this is asked: \<open>epoll_wait\<close> gives back pointers the server has registered, sockets that
  exist.
\<close>

inductive server_step ::
  "Kernel \<Rightarrow> (nat \<Rightarrow> char) \<Rightarrow> ('u \<Rightarrow> 'u option TCPSocket \<Rightarrow> 64 word \<Rightarrow> NetEnv \<Rightarrow> ('u option TCPSocket \<times> NetEnv) res) \<Rightarrow>
    ('f \<Rightarrow> NetEnv \<Rightarrow> NetEnv res) \<Rightarrow> ('u, 'f) TCPServer \<times> NetEnv \<Rightarrow> ('u, 'f) TCPServer \<times> NetEnv \<Rightarrow> bool"
  for k raw user finished where
  listens: "listen k iface port err v env = Inr (v', env') \<Longrightarrow> server_step k raw user finished (v, env) (v', env')"
| closes: "srv_close v env = (v', env') \<Longrightarrow> server_step k raw user finished (v, env) (v', env')"
| deletes: "srv_del k s (v, env) = (v', env') \<Longrightarrow> server_step k raw user finished (v, env) (v', env')"
| polls: "poll k raw err events fds v env = Inr (v', env') \<Longrightarrow> \<forall>e \<in> set events. ev_socket e < next_object v \<Longrightarrow>
    server_step k raw user finished (v, env) (v', env')"
| serves: "server_sendAndRecv user finished rx tx rx2 tx2 ut v env = Inr (v', env') \<Longrightarrow>
    server_step k raw user finished (v, env) (v', env')"
| on_recv: "server_step k raw user finished (v, env) (setServerRecvCallback f v, env)"
| on_finish: "server_step k raw user finished (v, env) (setRecvFinishCallback g v, env)"

inductive_cases server_stepE: "server_step k raw user finished (v, env) (v', env')"

text \<open>What the invariant reads of a server.\<close>

definition lists :: "('u, 'f) TCPServer \<Rightarrow> nat \<times> nat list \<times> nat list \<times> nat list \<times> nat list" where
  "lists v = (next_object v, sockets v, receive_sockets v, send_sockets v, disconnected_sockets v)"

lemma lists_inv: "lists v' = lists v \<Longrightarrow> server_inv v \<Longrightarrow> server_inv v'"
  by (simp add: lists_def server_inv_def)

lemma send_recv_list_lists: "send_recv_list user rx tx ut ss (r, v, env) = Inr (r', v', env') \<Longrightarrow> lists v' = lists v"
proof (induction ss arbitrary: r v env)
  case (Cons s ss)
  then obtain got socket env1 where
    "send_recv_list user rx tx ut ss (r \<or> got, v\<lparr>objects := (objects v)(s := socket)\<rparr>, env1) = Inr (r', v', env')"
    by (auto simp: res_simps)
  from Cons.IH [OF this] show ?case by (simp add: lists_def)
qed simp

lemma sendAndRecv_lists: "server_sendAndRecv user finished rx tx rx2 tx2 ut v env = Inr (v', env') \<Longrightarrow> lists v' = lists v"
  by (auto simp: server_sendAndRecv_def res_simps dest!: send_recv_list_lists)

lemma listen_lists: "listen k iface port err v env = Inr (v', env') \<Longrightarrow> lists v' = lists v"
  by (auto simp: listen_def srv_close_def lists_def res_simps Let_def case_prod_beta)

lemma srv_close_lists: "srv_close v env = (v', env') \<Longrightarrow> lists v' = lists v"
  by (auto simp: srv_close_def lists_def Let_def case_prod_beta)

lemma server_inv_new: "server_inv (newTCPServer raw)"
  by (simp add: server_inv_def newTCPServer_def)

lemma server_inv_without: "server_inv v \<Longrightarrow> server_inv (without ds v)"
  by (auto simp: server_inv_def without_def)

lemma server_inv_del: "srv_del k s (v, env) = (v', env') \<Longrightarrow> server_inv v \<Longrightarrow> server_inv v'"
  using srv_del_result [of k s v env] server_inv_without by auto

lemma server_inv_poll: "poll k raw err es fds v env = Inr (v', env') \<Longrightarrow> \<forall>e \<in> set es. ev_socket e < next_object v \<Longrightarrow>
    server_inv v \<Longrightarrow> server_inv v'"
  using poll_result by blast

lemma server_inv_step: "server_step k raw user finished (v, env) (v', env') \<Longrightarrow> server_inv v \<Longrightarrow> server_inv v'"
proof (elim server_stepE, goal_cases)
  case 1
  then show ?case using lists_inv [OF listen_lists] by blast
next
  case 2
  then show ?case using lists_inv [OF srv_close_lists] by blast
next
  case 3
  then show ?case using server_inv_del by blast
next
  case 4
  then show ?case using server_inv_poll by blast
next
  case 5
  then show ?case using lists_inv [OF sendAndRecv_lists] by blast
qed (simp_all add: server_inv_def setServerRecvCallback_def setRecvFinishCallback_def)

interpretation server: invariant_system "(newTCPServer raw, env0)" "server_step k raw user finished" "\<lambda>(v, env). server_inv v"
  for raw env0 k user finished
  by unfold_locales (auto simp: server_inv_new intro: server_inv_step)

subsection \<open>Properties\<close>

lemma obliging_example: "obliging (example_kernel True)"
  by (auto simp: obliging_def example_kernel_def split: sys_call.splits)

text \<open>
  C31: the lists of a server are well formed at all times. After any sequence of calls of
  the server's operations from its construction on, on any kernel and with any callbacks,
  no list holds a socket twice, every connection is also received from, the listener is
  never read like a connection, and every pointer in a list is a socket the server made.
\<close>

theorem server_lists_wellformed:
  assumes "reachable (newTCPServer raw, env0) (server_step k raw user finished) (v, env)"
  shows "distinct (sockets v) \<and> distinct (receive_sockets v) \<and> distinct (send_sockets v) \<and> distinct (disconnected_sockets v) \<and>
    set (sockets v) \<subseteq> set (receive_sockets v) \<and> listener \<notin> set (receive_sockets v) \<and>
    (\<forall>s \<in> set (receive_sockets v) \<union> set (send_sockets v) \<union> set (disconnected_sockets v). s < next_object v)"
  using server.reachable_inv [OF assms] by (simp add: server_inv_def)

theorem server_lists_wellformed_witness:
  "\<exists>v env. reachable (newTCPServer (\<lambda>_. CHR ''x''), example_net)
      (server_step (example_kernel True) (\<lambda>_. CHR ''x'') (\<lambda>(u :: nat) s t env. Inr (s, env)) (\<lambda>(f :: nat) env. Inr env)) (v, env) \<and>
    sockets v = [1] \<and> set (sockets v) \<subseteq> set (receive_sockets v) \<and> listener \<notin> set (receive_sockets v)"
proof -
  let ?raw = "\<lambda>_ :: nat. CHR ''x''" and ?v = "newTCPServer (\<lambda>_. CHR ''x'') :: (nat, nat) TCPServer"
  let ?es = "[\<lparr>ev_socket = 0, ev_in = True, ev_out = False, ev_err_hup = False\<rparr>]"
  let ?step = "server_step (example_kernel True) ?raw (\<lambda>(u :: nat) s t env. Inr (s, env)) (\<lambda>(f :: nat) env. Inr env)"
  have v: "sockets ?v = []" "next_object ?v = 1" "listener_ready ?es"
    by (simp_all add: newTCPServer_def listener_ready_def)
  obtain v env where r: "poll (example_kernel True) ?raw [] ?es [7] ?v example_net = Inr (v, env)"
    using poll_total [OF obliging_example, of ?es ?raw "[]" "[7]" ?v example_net] by auto
  have s: "sockets v = [1]" using poll_result [OF server_inv_new _ r] v by (auto simp: Let_def)
  have "?step (?v, example_net) (v, env)" by (rule server_step.polls [OF r]) (simp add: v(2))
  then have "reachable (?v, example_net) ?step (v, env)" by (rule reachable.step [OF reachable.start])
  with s server_lists_wellformed [OF this] show ?thesis by auto
qed

text \<open>
  C32: a poll does to the server's lists what it should. With at most \<open>max_events\<close> events
  for existing sockets, a listener and connections that fit the array of 1024, and a kernel
  that lets accepted descriptors be configured and registered, \<open>poll\<close> returns; the lists
  keep their invariant; the connections are those that had not been seen to disconnect,
  followed by one new socket for each accepted descriptor, in order and only if the listener
  was ready, each of them not blocking, undelayed and registered with its own pointer; the
  sockets reported as broken join \<open>disconnected_sockets\<close>; nothing is sent or closed.
\<close>

theorem poll_updates_lists:
  assumes "server_inv v" "length events \<le> max_events v" "max_events v \<le> 1024"
    and "\<forall>e \<in> set events. ev_socket e < next_object v" "obliging k"
  shows "\<exists>v' env' T. poll k raw err events fds v env = Inr (v', env') \<and> server_inv v' \<and> grows T env env' \<and>
    (let new = (if listener_ready events then [next_object v..<next_object v + length fds] else []) in
     sockets v' = filter (\<lambda>s. s \<notin> set (disconnected_sockets v)) (sockets v) @ new \<and>
     map (\<lambda>s. s_fd (objects v' s)) new = (if listener_ready events then fds else []) \<and>
     (\<forall>s \<in> set new. in_service (efd v) (s_fd (objects v' s)) s T) \<and>
     set (receive_sockets v') = ev_socket ` set (filter ev_in (taken events)) \<union>
       (set (receive_sockets v) - set (disconnected_sockets v)) \<union> set new \<and>
     set (disconnected_sockets v') = ev_socket ` set (filter ev_err_hup (taken events)) \<union> set (disconnected_sockets v))"
proof -
  obtain v' env' where "poll k raw err events fds v env = Inr (v', env')"
    using poll_total [OF assms(5), of events raw err fds v env] assms(2,3) by fastforce
  with poll_result [OF assms(1,4) this] show ?thesis by blast
qed

fun polls :: "Kernel \<Rightarrow> (nat \<Rightarrow> char) \<Rightarrow> string \<Rightarrow> (epoll_event list \<times> 32 word list) list \<Rightarrow>
    ('u, 'f) TCPServer \<Rightarrow> NetEnv \<Rightarrow> (('u, 'f) TCPServer \<times> NetEnv) res" where
  "polls k raw err [] v env = Inr (v, env)"
| "polls k raw err ((events, fds) # ps) v env =
     bnd (poll k raw err events fds v env) (\<lambda>(v, env). polls k raw err ps v env)"

text \<open>The kernel reports nothing about \<open>x\<close>, and no more events than there is room for.\<close>

definition quiet_about :: "nat \<Rightarrow> epoll_event list \<times> 32 word list \<Rightarrow> bool" where
  "quiet_about x p \<longleftrightarrow> length (fst p) \<le> 1024 \<and> (\<forall>e \<in> set (fst p). ev_socket e \<noteq> x)"

text \<open>What the accept loop does to a socket that exists already: nothing.\<close>

lemma accept_loop_keeps:
  "accept_loop k raw err fds v env = Inr (v', env') \<Longrightarrow> x < next_object v \<Longrightarrow>
    x < next_object v' \<and> objects v' x = objects v x \<and> efd v' = efd v \<and>
    (x \<in> set (sockets v') \<union> set (receive_sockets v') \<union> set (send_sockets v') \<longleftrightarrow>
      x \<in> set (sockets v) \<union> set (receive_sockets v) \<union> set (send_sockets v)) \<and>
    disconnected_sockets v' = disconnected_sockets v \<and> (\<exists>T. grows T env env')"
proof (induction fds arbitrary: v env)
  case Nil
  then show ?case using log_server_total [OF server_formats(5), of "[]" 96 env] by (auto simp: res_simps)
next
  case (Cons fd fds)
  let ?w = "accepted raw fd v"
  obtain T env1 where 1: "grows T env env1" "accept_loop k raw err fds ?w env1 = Inr (v', env')"
    using accept_turn [of env k v fd raw err fds] Cons.prems(1) by (auto split: if_splits)
  have w: "x < next_object ?w" "objects ?w x = objects v x" "efd ?w = efd v" "disconnected_sockets ?w = disconnected_sockets v"
    "x \<in> set (sockets ?w) \<union> set (receive_sockets ?w) \<union> set (send_sockets ?w) \<longleftrightarrow>
      x \<in> set (sockets v) \<union> set (receive_sockets v) \<union> set (send_sockets v)"
    using Cons.prems(2) by (auto simp: accepted_def)
  note IH = Cons.IH [OF 1(2) w(1)]
  then obtain T' where "grows T' env1 env'" by blast
  with grows_trans [OF 1(1)] have "\<exists>T. grows T env env'" by blast
  with IH w show ?case by simp
qed

lemma poll_keeps_disconnected:
  assumes "x \<in> set (disconnected_sockets v)" "x < next_object v" "quiet_about x (events, fds)" "obliging k"
  shows "\<exists>v' env' T. poll k raw err events fds v env = Inr (v', env') \<and> x \<in> set (disconnected_sockets v') \<and> x < next_object v' \<and>
    x \<notin> set (sockets v') \<union> set (receive_sockets v') \<union> set (send_sockets v') \<and> objects v' x = objects v x \<and> efd v' = efd v \<and>
    grows T env env' \<and> del_call v x \<in> fst ` set T"
proof -
  let ?w = "survivors events v"
  have ev: "x \<notin> ev_socket ` set events" using assms(3) by (auto simp: quiet_about_def)
  then have w: "x \<in> set (disconnected_sockets ?w)" "x < next_object ?w" "objects ?w x = objects v x" "efd ?w = efd v"
    "x \<notin> set (sockets ?w) \<union> set (receive_sockets ?w) \<union> set (send_sockets ?w)"
    using assms(1,2) by (auto simp: taken_def)
  obtain T env1 where p: "grows T env env1" "del_call v x \<in> fst ` set T" "poll k raw err events fds v env =
    noexcept (if listener_ready events then accept_loop k raw err fds ?w env1 else Inr (?w, env1))"
    using poll_unfold [of events env v k raw err fds] assms(1,3) unfolding quiet_about_def fst_conv by blast
  show ?thesis
  proof (cases "listener_ready events")
    case True
    obtain v' env' where r: "accept_loop k raw err fds ?w env1 = Inr (v', env')"
      using accept_loop_total [OF assms(4)] by blast
    note a = accept_loop_keeps [OF r w(2)]
    then obtain T' where T': "grows T' env1 env'" by blast
    have "poll k raw err events fds v env = Inr (v', env')" using p(3) True r by simp
    moreover have "del_call v x \<in> fst ` set (T @ T')" using p(2) by auto
    moreover note grows_trans [OF p(1) T']
    ultimately show ?thesis using a unfolding w(3,4) using w(1,5) by metis
  next
    case False
    then have "poll k raw err events fds v env = Inr (?w, env1)" using p(3) by simp
    with p(1,2) w show ?thesis by blast
  qed
qed

text \<open>
  C33: a broken connection is taken out of service at the next poll and kept for ever after:
  once a socket is in \<open>disconnected_sockets\<close>, any further polls that the kernel reports
  nothing about it in leave it in none of the service lists, still in
  \<open>disconnected_sockets\<close>, its object allocated and its descriptor open, and each of them
  asks the kernel once more to take that descriptor out of the epoll instance.
\<close>

theorem disconnected_for_ever:
  assumes "x \<in> set (disconnected_sockets v)" "x < next_object v"
    and "\<forall>p \<in> set ps. quiet_about x p" "ps \<noteq> []" "obliging k"
  shows "\<exists>v' env' T. polls k raw err ps v env = Inr (v', env') \<and> x \<in> set (disconnected_sockets v') \<and>
    x \<notin> set (sockets v') \<union> set (receive_sockets v') \<union> set (send_sockets v') \<and> objects v' x = objects v x \<and>
    net_closed env' = net_closed env \<and> net_calls env' = net_calls env @ T \<and>
    length ps \<le> length (filter (\<lambda>(c, r). c = Sys_epoll_del (efd v) (s_fd (objects v x))) T)"
  using assms
proof (induction ps arbitrary: v env)
  case (Cons p ps)
  obtain events fds where p: "p = (events, fds)" by (cases p)
  obtain v1 env1 T where 1: "poll k raw err events fds v env = Inr (v1, env1)" "x \<in> set (disconnected_sockets v1)"
    "x < next_object v1" "x \<notin> set (sockets v1) \<union> set (receive_sockets v1) \<union> set (send_sockets v1)"
    "objects v1 x = objects v x" "efd v1 = efd v" "grows T env env1" "del_call v x \<in> fst ` set T"
    using poll_keeps_disconnected [OF Cons.prems(1,2) _ Cons.prems(5)] Cons.prems(3) unfolding p by (metis list.set_intros(1))
  have "filter (\<lambda>(c, r). c = del_call v x) T \<noteq> []" using 1(8) by (auto simp: filter_empty_conv)
  then have n: "1 \<le> length (filter (\<lambda>(c, r). c = del_call v x) T)" by (simp add: Suc_le_eq)
  show ?case
  proof (cases "ps = []")
    case True
    with 1 n show ?thesis by (simp add: p grows_def)
  next
    case False
    with Cons.IH [OF 1(2,3), of env1] Cons.prems(3,5) obtain v2 env2 T' where
      2: "polls k raw err ps v1 env1 = Inr (v2, env2)" "x \<in> set (disconnected_sockets v2)"
      "x \<notin> set (sockets v2) \<union> set (receive_sockets v2) \<union> set (send_sockets v2)" "objects v2 x = objects v1 x"
      "net_closed env2 = net_closed env1" "net_calls env2 = net_calls env1 @ T'"
      "length ps \<le> length (filter (\<lambda>(c, r). c = del_call v1 x) T')" by auto
    with 1 n show ?thesis
      by (intro exI [of _ v2] exI [of _ env2] exI [of _ "T @ T'"]) (simp add: p grows_def)
  qed
qed simp

definition two_connections :: "(nat, nat) TCPServer" where
  "two_connections = (newTCPServer (\<lambda>_. CHR ''x''))\<lparr>efd := 9, next_object := 3, sockets := [1, 2], receive_sockets := [1, 2],
     disconnected_sockets := [1]\<rparr>"

lemma two_connections_inv: "server_inv two_connections"
  by (simp add: server_inv_def two_connections_def newTCPServer_def)

theorem poll_updates_lists_witness:
  "\<exists>v' env'. poll (example_kernel True) (\<lambda>_. CHR ''x'') [] [\<lparr>ev_socket = 0, ev_in = True, ev_out = False, ev_err_hup = False\<rparr>,
      \<lparr>ev_socket = 2, ev_in = True, ev_out = False, ev_err_hup = True\<rparr>] [7] two_connections example_net = Inr (v', env') \<and>
    sockets v' = [2, 3] \<and> s_fd (objects v' 3) = 7 \<and> in_service 9 7 3 (net_calls env') \<and> set (disconnected_sockets v') = {1, 2}"
proof -
  let ?es = "[\<lparr>ev_socket = 0, ev_in = True, ev_out = False, ev_err_hup = False\<rparr>,
      \<lparr>ev_socket = 2, ev_in = True, ev_out = False, ev_err_hup = True\<rparr>]"
  have h: "length ?es \<le> max_events two_connections" "max_events two_connections \<le> 1024"
    "\<forall>e \<in> set ?es. ev_socket e < next_object two_connections"
    by (simp_all add: two_connections_def newTCPServer_def max_events_def)
  have s: "sockets two_connections = [1, 2]" "next_object two_connections = 3" "disconnected_sockets two_connections = [1]"
    "efd two_connections = 9" "listener_ready ?es" "net_calls example_net = []"
    by (simp_all add: two_connections_def newTCPServer_def listener_ready_def example_net_def)
  show ?thesis
    using poll_updates_lists [OF two_connections_inv h obliging_example, of "\<lambda>_. CHR ''x''" "[]" "[7]" example_net] s(5)
    by (auto simp: Let_def s(1,2,3,4,6) taken_def grows_def)
qed

theorem disconnected_for_ever_witness:
  "\<exists>v' env'. polls (example_kernel True) (\<lambda>_. CHR ''x'') [] [([], []), ([], [])] two_connections example_net = Inr (v', env') \<and>
    1 \<in> set (disconnected_sockets v') \<and> 1 \<notin> set (sockets v') \<and> net_closed env' = []"
proof -
  have h: "1 \<in> set (disconnected_sockets two_connections)" "1 < next_object two_connections"
    "\<forall>p \<in> set [([], []), ([], [])]. quiet_about 1 p" "[([] :: epoll_event list, [] :: 32 word list), ([], [])] \<noteq> []"
    by (simp_all add: two_connections_def newTCPServer_def quiet_about_def)
  show ?thesis
    using disconnected_for_ever [OF h obliging_example, of "\<lambda>_. CHR ''x''" "[]" example_net] by (auto simp: example_net_def)
qed


text \<open>
  C34: a server that returned from \<open>listen\<close> listens: its epoll descriptor is the one the
  kernel just made, its listener has a descriptor of its own that is bound to the address of
  the interface, takes connections with a queue of \<open>MaxTCPServerBacklog\<close>, is not blocking
  and was, last of all, registered for its input events; what was open before in these two
  places was closed.
\<close>

theorem listen_listens:
  assumes "listen k iface port err v env = Inr (v', env')"
    and "resolved k [] iface port (tcp_opts True) = (rc, e, result)"
  shows "0 \<le> sint (efd v') \<and>
    (\<exists>T r. net_calls env' = net_calls env @ (Sys_epoll_create 1, efd v') # T @
         [(Sys_epoll_add (efd v') (s_fd (objects v' listener)) (EPOLLET OR EPOLLIN) listener, r)] \<and> r \<noteq> - 1 \<and>
       fully_configured (the_ip k [] iface) (tcp_opts True) (last result) (s_fd (objects v' listener)) T) \<and>
    net_closed env' = net_closed env @ [efd v] @
      (if s_fd (objects v listener) \<noteq> - 1 then [s_fd (objects v listener)] else [])"
proof -
  obtain l env1 where l: "close_socket (objects v listener) (env\<lparr>net_closed := net_closed env @ [efd v]\<rparr>) = (l, env1)"
    by fastforce
  then have env1: "s_fd l = - 1" "net_calls env1 = net_calls env" "net_closed env1 = net_closed env @ [efd v] @
      (if s_fd (objects v listener) \<noteq> - 1 then [s_fd (objects v listener)] else [])"
    by (auto simp: close_socket_def split: if_splits)
  obtain epoll_fd env2 where s: "sys k (Sys_epoll_create 1) env1 = (epoll_fd, env2)" by fastforce
  obtain l2 env3 where l2: "close_socket l env2 = (l2, env3)" by fastforce
  have env3: "env3 = env2" using l2 env1(1) by (auto simp: close_socket_def)
  obtain fd env4 where c: "createSocket k [] iface port (tcp_opts True) env2 = Inr (fd, env4)" "0 \<le> sint fd"
    using assms(1) l l2 s env3
    by (auto simp: listen_def srv_close_def connect_socket_def res_simps Let_def case_prod_beta)
  let ?l = "v\<lparr>efd := epoll_fd, objects := (objects v)(listener := l2\<lparr>s_fd := fd\<rparr>)\<rparr>"
  obtain added env5 where a: "epoll_add k listener ?l env4 = (added, env5)" by fastforce
  have r: "0 \<le> sint epoll_fd" "v' = ?l" "added" "env5 = env'"
    using assms(1) l l2 s env3 c a
    by (auto simp: listen_def srv_close_def connect_socket_def res_simps Let_def split: prod.splits)
  have "fd \<noteq> - 1" using c(2) by auto
  from createSocket_configures [OF assms(2) c(1) this] obtain T where
    T: "net_calls env4 = net_calls env2 @ T" "fully_configured (the_ip k [] iface) (tcp_opts True) (last result) fd T" by blast
  have closed: "net_closed env4 = net_closed env2" using createSocket_leaks [OF assms(2), of env2] c(1) by auto
  obtain w where w: "grows [(Sys_epoll_add epoll_fd fd (EPOLLET OR EPOLLIN) listener, w)] env4 env'" "w \<noteq> - 1"
    using a r(3,4) sys_grows unfolding epoll_add_def sys_ok_def by (fastforce split: prod.splits)
  from sys_grows [OF s] w T closed env1 r show ?thesis by (auto simp: grows_def)
qed

theorem listen_listens_witness:
  "\<exists>v' env'. listen (example_kernel True) ''lo'' 80 [] (newTCPServer (\<lambda>_. CHR ''x'') :: (nat, nat) TCPServer)
      example_net = Inr (v', env') \<and>
    succeeded (Sys_listen (s_fd (objects v' listener)) MaxTCPServerBacklog) (net_calls env') \<and> net_closed env' = [- 1]"
proof -
  let ?v = "newTCPServer (\<lambda>_. CHR ''x'') :: (nat, nat) TCPServer"
  let ?net = "example_net\<lparr>net_closed := [- 1], net_calls := [(Sys_epoll_create 1, 0)]\<rparr>"
  have s: "sys (example_kernel True) (Sys_epoll_create 1) (example_net\<lparr>net_closed := [- 1]\<rparr>) = (0, ?net)"
    by (simp add: sys_def example_kernel_def example_net_def)
  obtain st where "createSocket (example_kernel True) [] ''lo'' 80 (tcp_opts True) ?net = Inr (4, st)"
    using example_created [of ?net] by auto
  then obtain v' env' where r: "listen (example_kernel True) ''lo'' 80 [] ?v example_net = Inr (v', env')"
    using s
    by (simp add: obliging_accepts(2) [OF obliging_example] listen_def srv_close_def connect_socket_def close_socket_def newTCPServer_def newTCPSocket_def Let_def
        example_net_def case_prod_beta ASSERT_def)
  from listen_listens [OF r example_resolved] r show ?thesis
    by (auto simp: fully_configured_def tcp_opts_def example_net_def newTCPServer_def newTCPSocket_def succeeded_def)
qed

end
