(* ===== verification/Spec2Isabelle.thy ===== *)
theory Spec2Isabelle
  imports Systems Base_Types Mem_Pool LF_Queue LF_Queue_Threads Logger Messages Layout Engine_IO Order_Book Order_Book_Ops Matching
    Ring Book_Inv Book_Remove Book_Match Book_Properties Book_Add Book_Add_Properties Book_Roundtrip Book_Exchange Book_Order
    Texts Logger_Threads Thread_Utils Matching_Engine Lifecycle Exchange_Main Socket_Utils Tcp_Socket Tcp_Link Tcp_Server
begin

text \<open>
  A verification development of QuantEngine, a limit order exchange in C++.

  \<^bold>\<open>The program.\<close> A process (src/exchange_main.cpp) owns a matching engine
  (src/matching_engine.cpp) that reads client requests from one lock-free ring
  (include/lf_queue.h) and writes client responses and market updates to two others. The
  engine keeps one limit order book for each ticker (src/me_order_book.cpp); orders and price
  levels come from fixed pools (include/mem_pool.h) and are linked into circular lists. A
  logger (src/logger.cpp) takes log calls through a ring of its own and writes them to a file
  in a thread started by include/thread_utils.h. Beside the engine stand a TCP socket with
  buffers (src/tcp_socket.cpp), the code that makes sockets (src/socket_utils.cpp) and an
  epoll server over such sockets (src/tcp_server.cpp), not yet joined to the engine.

  \<^bold>\<open>How code becomes definitions.\<close> A class or struct is a record, an enum a datatype with one
  constructor for the values it does not name (printed as \<open>UNKNOWN\<close>), an integer a word of its
  width, \<open>int64_t\<close> prices being read with \<open>sint\<close>. An operation is a
  function from the state to a result \<open>fault + 'a\<close> (Prelude): the fault is an ASSERT or FATAL
  that ended the process, an exception of \<open>at()\<close>, undefined behaviour (null pointer, access
  out of bounds), or a wait that never ends; \<open>noexcept\<close> turns exceptions into \<open>Terminate\<close>.
  Pointers into a pool or a vector are indices, null is \<open>None\<close>. Texts are lists of characters.
  What lies outside the sources is an argument: the clock (\<open>ctime\<close>), the memory an object is
  built on (\<open>raw\<close>), the kernel (\<open>Kernel\<close>, and what epoll_wait, accept, recvmsg and send deliver),
  whether a file could be opened, the text of floating point values, and two member functions
  that are declared but defined nowhere: \<open>MEOrderBook::checkForMatch()\<close> without arguments and
  \<open>MEOrderBook::toString(bool, bool)\<close>. What a theorem needs of the first is a hypothesis of the
  theorem: \<open>matches_as\<close>, that on a represented book it does what some function \<open>F\<close> does to two
  lists of orders; \<open>fills_orderly\<close>, that this \<open>F\<close> keeps prices in order and leaves no order within
  the limit while it leaves a quantity; \<open>quiet_on_empty\<close>, that on a book without orders it finds
  nothing. The overload with seven arguments, which is defined, is proved to fulfil each
  (\<open>overload_matches\<close>, \<open>overload_orderly\<close>, \<open>overload_quiet\<close>).

  \<^bold>\<open>Theories, in the order of the calls.\<close>
  \<^item> Prelude: faults, results and sequencing, \<open>noexcept\<close>, the macros of include/macros.h, and
    the rule collections \<open>res_simps\<close> and \<open>ring_simps\<close>.
  \<^item> Systems: reachable states of a transition system, with the locales \<open>invariant_system\<close>,
    \<open>finishing_system\<close> and \<open>terminating_system\<close>; the queue between two threads, the two threads
    of a logger, the start of a thread and the server in use are their instances. The locale
    \<open>simulation\<close> compares a machine that handles requests with its specification over whole
    runs; its instance is the order book.
  \<^item> Base_Types (include/types.h): scalar types, reserved values, capacities, decimal texts.
  \<^item> Mem_Pool (include/mem_pool.h): allocation, the cyclic search for the next free block (with
    its termination), release; the locale \<open>object_pool\<close> is what the order book relies on.
  \<^item> LF_Queue and LF_Queue_Threads (include/lf_queue.h): the ring as one thread sees it, with
    the locale \<open>bounded_queue\<close> as its contract, and one producer and one consumer interleaved
    access by access as a step relation (sequentially consistent).
  \<^item> Logger (include/logger.h, src/logger.cpp): pushing values, the format interpreter \<open>log\<close>, the
    loop of the writing thread. Lifecycle: its constructor and destructor. Logger_Threads: the
    calling and the writing thread as a step relation, from the first log call to the end of the
    destructor.
  \<^item> Messages (client_request.h, client_response.h, market_update.h) and Texts (src/me_order.cpp,
    me_order.h): records and texts, and a reader of the texts. Layout: the packed layout of the
    messages, and the notes under src/preknown, which are about layouts.
  \<^item> Engine_IO: sendClientResponse and sendMarketUpdate with the part of the engine they change,
    and include/time_utils.h.
  \<^item> Order_Book, Order_Book_Ops, Matching (me_order.h, me_order_book.h, src/me_order_book.cpp):
    the heap of orders and levels, every member function of the book, and the matching loop,
    whose termination on any heap is proved by the number of live orders.
  \<^item> Ring and Book_Inv: circular lists, and the representation invariant \<open>book_rep swp b S\<close>: the
    heap of the book \<open>b\<close> represents the shape \<open>S\<close>, a list of levels with their orders for each
    side. The flag \<open>swp\<close> says under which head a side hangs, because adding and removing
    disagree about it. Book_Remove, Book_Match and Book_Add prove what each operation does to
    the shape; Book_Properties, Book_Add_Properties and Book_Roundtrip hold the properties of
    single operations. Book_Exchange states what a client sees: \<open>exchange\<close>, two lists of orders
    with an executable \<open>exchange_request\<close>, which the book simulates over any admissible series
    of adds and cancels (an add names a side; where it comes to rest in a price slot in use, the
    orders there are of its price and side, its ids inside the tables and not in use). Book_Order shows of it that prices stay in order and
    that the sides never cross.
  \<^item> Thread_Utils (include/thread_utils.h): creator and new thread as a step relation.
  \<^item> Matching_Engine, Lifecycle and Exchange_Main: the engine's loop as a sequence of events, the
    destructors, and a run of the process from its start to SIGINT, in which \<open>main\<close>, the thread of
    the engine and the thread of its logger take turns in any order.
  \<^item> Socket_Utils, Tcp_Socket, Tcp_Server: the network code over the environment \<open>NetEnv\<close>, which
    records the log, the system calls, the bytes sent and the descriptors closed. Tcp_Link joins
    two sockets by a byte stream.

  \<^bold>\<open>What the lemmas show.\<close> The order book simulates the exchange: same faults, same messages,
  same orders, over any admissible series of requests, and a book in order stays in order and
  uncrossed, both for any \<open>checkForMatch()\<close> under the contracts above.
  Matching equals a specification on the list of resting orders and has price and time
  priority, conserves quantity and leaves nothing that could still trade; cancelling removes
  exactly one order, a second cancel is rejected, adding and cancelling is a round trip. The
  ring is a FIFO queue in one thread and between two, whose slots are never written while they
  are read; the pool hands out each block once. As long as the log ring is never filled (a
  bound \<open>m\<close> below its size holds for the elements pending at every push), a log file holds at
  any moment a prefix of what was logged, whatever the schedule, and all of it once the logger is
  destroyed, which is always possible; without that bound the destructor waits for ever. Every
  message text reads back as its message, up to enum values without a name. The sockets deliver
  what was sent, in order and from end to end, if the receiver has the default callback and does
  not send; the server keeps its lists whatever is called, sockets come back
  configured as asked, threads start without getting stuck.

  Other theorems state faults the code has: the first order at a price cannot be added, so a new
  book never holds an order, an incoming order meets the first order of its own side, removing the last order corrupts the
  book, the engine never trades, a full or overfull log ring stops the logger for ever, \<open>size()\<close> of a ring
  can wrap, a pool loses its last block, descriptors leak, lost connections are kept for ever, a
  started thread can use variables that are gone.

  \<^bold>\<open>Bounds.\<close> \<open>walk\<close>, the search for a level in \<open>addOrderAtPrice\<close>, has the fuel
  \<open>Suc (pool_size ...)\<close>: a walk over distinct levels is back at its start before that, so a
  walk that uses it up would never end (\<open>Diverges\<close>). The wait of the logger's destructor is a
  partial function whose \<open>None\<close> is a wait without end. All other loops are total.

  \<^bold>\<open>Not modelled.\<close> Memory orders weaker than sequential consistency; several threads logging to
  one logger at once; the console output of threads and destructors; the address field of a
  socket and two flags nothing reads; the drivers under src/tests, which only call the classes
  above.
\<close>

end
